(* ===== verification/Rtos_Prelude.thy ===== *)
theory Rtos_Prelude
  imports Main "HOL-Library.Monad_Syntax" "HOL-Library.Multiset"
begin

text \<open>
  Prelude of the development: pointers, the failure monad of the kernel code, the generic lemmas on
  lists the components share, and the contract of a prioritized list.

  Kernel code halts in \<open>up_assert\<close> when an \<open>ASSERT\<close>, \<open>DEBUGASSERT\<close> or \<open>PANIC\<close> fires
  (src/os/include/assert.h; the configuration \<open>artik053/ra8875\<close> has \<open>CONFIG_DEBUG\<close>), and has no
  defined behaviour after dereferencing \<open>NULL\<close>. Both are the value \<^term>\<open>None\<close> of an \<open>option\<close>; a
  theorem that an operation returns \<open>Some\<close> therefore also says that it neither halts nor follows a
  null pointer.
\<close>

section \<open>Pointers and failing code\<close>

type_synonym addr = nat

text \<open>A C pointer: \<open>None\<close> is \<open>NULL\<close>.\<close>

type_synonym ptr = "addr option"

definition ASSERT :: "bool \<Rightarrow> unit option" where
  "ASSERT b = (if b then Some () else None)"

text \<open>The rules that step through code written in the failure monad.\<close>

named_theorems kern_simps "evaluation of code written in the failure monad"

named_theorems kern_inv "which operation keeps which part of the invariant"

lemma ASSERT_simps [simp, kern_simps]:
  "ASSERT True = Some ()" "ASSERT False = None"
  by (simp_all add: ASSERT_def)

lemma ASSERT_eq_Some [simp]: "(ASSERT b = Some u) = b"
  by (simp add: ASSERT_def)

lemma ASSERT_True [simp]: "b \<Longrightarrow> ASSERT b = Some ()"
  by simp

lemmas bind_Some_conv = Option.bind_eq_Some_conv

text \<open>Array access: outside the array the code has no defined behaviour.\<close>

definition array_get :: "'a list \<Rightarrow> nat \<Rightarrow> 'a option" where
  "array_get xs i = (if i < length xs then Some (xs ! i) else None)"

definition array_set :: "'a list \<Rightarrow> nat \<Rightarrow> 'a \<Rightarrow> 'a list option" where
  "array_set xs i v = (if i < length xs then Some (xs[i := v]) else None)"

text \<open>The division of C, which rounds towards zero.\<close>

definition c_div :: "int \<Rightarrow> int \<Rightarrow> int" where
  "c_div a b = sgn a * sgn b * (\<bar>a\<bar> div \<bar>b\<bar>)"

lemma c_div_pos [simp]: "0 \<le> a \<Longrightarrow> 0 < b \<Longrightarrow> c_div a b = a div b"
  by (cases "a = 0") (simp_all add: c_div_def)

section \<open>Lists\<close>

text \<open>First and last element of a list segment as pointers, with a default for the empty segment.\<close>

definition firstp :: "ptr \<Rightarrow> addr list \<Rightarrow> ptr" where
  "firstp n xs = (case xs of [] \<Rightarrow> n | x # _ \<Rightarrow> Some x)"

definition lastp :: "ptr \<Rightarrow> addr list \<Rightarrow> ptr" where
  "lastp p xs = (if xs = [] then p else Some (last xs))"

lemma firstp_simps [simp]:
  "firstp n [] = n" "firstp n (x # xs) = Some x" "firstp n (xs @ ys) = firstp (firstp n ys) xs"
  by (simp_all add: firstp_def split: list.split)

lemma lastp_simps [simp]:
  "lastp p [] = p" "lastp p (x # xs) = lastp (Some x) xs" "lastp p (xs @ ys) = lastp (lastp p xs) ys"
  by (simp_all add: lastp_def)

lemma firstp_None [simp]: "(firstp None xs = None) = (xs = [])"
  by (cases xs) simp_all

lemma lastp_None [simp]: "(lastp None xs = None) = (xs = [])"
  by (simp add: lastp_def)

lemma lastp_neq_None [simp]: "lastp (Some a) xs \<noteq> None"
  by (simp add: lastp_def)

lemma firstp_neq_None [simp]: "firstp (Some a) xs \<noteq> None"
  by (cases xs) simp_all

lemma firstp_Some_in: "firstp (Some a) xs = Some b \<Longrightarrow> b = a \<or> b \<in> set xs"
  by (cases xs) auto

lemma lastp_Some_in':"lastp (Some a) xs = Some b \<Longrightarrow> b = a \<or> b \<in> set xs"
  by (auto simp: lastp_def split: if_splits)

lemma lastp_Some_in: "lastp None xs = Some a \<Longrightarrow> a \<in> set xs"
  by (auto simp: lastp_def split: if_splits)

lemma remove1_split: "x \<notin> set as \<Longrightarrow> remove1 x (as @ x # bs) = as @ bs"
  by (simp add: remove1_append)

lemma distinct_split_iff [simp]:
  "distinct (as @ x # bs) =
     (distinct as \<and> distinct bs \<and> x \<notin> set as \<and> x \<notin> set bs \<and> set as \<inter> set bs = {})"
  by auto

lemma sorted_wrt_insert:
  assumes "sorted_wrt P (as @ bs)" "\<And>a. a \<in> set as \<Longrightarrow> P a x" "\<And>b. b \<in> set bs \<Longrightarrow> P x b"
  shows "sorted_wrt P (as @ x # bs)"
  using assms by (auto simp: sorted_wrt_append)

lemma sorted_wrt_remove1: "sorted_wrt P xs \<Longrightarrow> sorted_wrt P (remove1 x xs)"
  by (induction xs) (auto dest: notin_set_remove1)

lemma sorted_wrt_map_cong:
  "(\<And>x. x \<in> set xs \<Longrightarrow> f x = g x) \<Longrightarrow>
     sorted_wrt (\<lambda>x y. R (f x) (f y)) xs = sorted_wrt (\<lambda>x y. R (g x) (g y)) xs"
  by (induction xs) auto

section \<open>Prioritized lists\<close>

text \<open>
  The task lists, the message queues and the work queues of the kernel are all lists kept in order
  of a key, where a new element goes behind every element whose key is not smaller. The locale
  states this contract once; \<open>key\<close> is the priority of an element and \<open>ins\<close> the insertion. The
  interpretations are on the insertion of each component.
\<close>

definition prio_insert :: "('a \<Rightarrow> 'k::linorder) \<Rightarrow> 'a \<Rightarrow> 'a list \<Rightarrow> 'a list" where
  "prio_insert key x xs = takeWhile (\<lambda>y. key x \<le> key y) xs @ x # dropWhile (\<lambda>y. key x \<le> key y) xs"

definition descending :: "('a \<Rightarrow> 'k::linorder) \<Rightarrow> 'a list \<Rightarrow> bool" where
  "descending key xs = sorted_wrt (\<lambda>x y. key y \<le> key x) xs"

lemma descending_simps [simp]:
  "descending key []"
  "descending key (x # xs) = ((\<forall>y \<in> set xs. key y \<le> key x) \<and> descending key xs)"
  by (auto simp: descending_def)

lemma descending_append:
  "descending key (xs @ ys) =
     (descending key xs \<and> descending key ys \<and> (\<forall>x \<in> set xs. \<forall>y \<in> set ys. key y \<le> key x))"
  by (auto simp: descending_def sorted_wrt_append)

lemma descending_cong:
  "(\<And>x. x \<in> set xs \<Longrightarrow> f x = g x) \<Longrightarrow> descending f xs = descending g xs"
  unfolding descending_def by (rule sorted_wrt_map_cong)

lemma descending_remove1: "descending key xs \<Longrightarrow> descending key (remove1 x xs)"
  unfolding descending_def by (rule sorted_wrt_remove1)

lemma descending_hd_max: "descending key xs \<Longrightarrow> x \<in> set xs \<Longrightarrow> key x \<le> key (hd xs)"
  by (cases xs) auto

lemma dropWhile_descending:
  assumes "descending key xs" "y \<in> set (dropWhile (\<lambda>y. k \<le> key y) xs)"
  shows "key y < k"
  using assms by (induction xs) (auto simp: not_le intro: le_less_trans split: if_splits)

locale prioritized_list =
  fixes key :: "'a \<Rightarrow> 'k::linorder"
    and ins :: "'a \<Rightarrow> 'a list \<Rightarrow> 'a list"
  assumes ins_prio: "ins x xs = prio_insert key x xs"
begin

lemma ins_Nil: "ins x [] = [x]"
  by (simp add: ins_prio prio_insert_def)

lemma ins_Cons: "ins x (y # ys) = (if key x \<le> key y then y # ins x ys else x # y # ys)"
  by (simp add: ins_prio prio_insert_def)

lemma mset_ins: "mset (ins x xs) = add_mset x (mset xs)"
  by (induction xs) (simp_all add: ins_Nil ins_Cons)

lemma set_ins: "set (ins x xs) = insert x (set xs)"
  using mset_ins [of x xs] by (metis set_mset_add_mset_insert set_mset_mset)

lemma length_ins: "length (ins x xs) = Suc (length xs)"
  using mset_ins [of x xs] by (metis size_add_mset size_mset)

lemma ins_neq_Nil: "ins x xs \<noteq> []"
  using length_ins [of x xs] by auto

lemma distinct_ins: "distinct (ins x xs) = (x \<notin> set xs \<and> distinct xs)"
  by (induction xs) (auto simp: ins_Nil ins_Cons set_ins)

lemma descending_ins: "descending key xs \<Longrightarrow> descending key (ins x xs)"
  by (induction xs) (auto simp: ins_Nil ins_Cons set_ins)

text \<open>The new element becomes the head exactly when it outranks the old head.\<close>

lemma hd_ins: "hd (ins x xs) = (if xs = [] \<or> key (hd xs) < key x then x else hd xs)"
  by (cases xs) (auto simp: ins_Nil ins_Cons not_le)

lemma ins_head: "xs \<noteq> [] \<Longrightarrow> key (hd xs) < key x \<Longrightarrow> ins x xs = x # xs"
  by (cases xs) (auto simp: ins_Cons not_le)

lemma last_ins: "xs \<noteq> [] \<Longrightarrow> key (last xs) < key x \<Longrightarrow> last (ins x xs) = last xs"
  by (induction xs) (auto simp: ins_Nil ins_Cons ins_neq_Nil)

text \<open>
  Elements of the same key stay in the order in which they came: removing the others, the new
  element is the last of its class, and no other class changes.
\<close>

lemma filter_ins:
  assumes "descending key xs"
  shows "filter (\<lambda>y. key y = k) (ins x xs) =
     filter (\<lambda>y. key y = k) xs @ (if key x = k then [x] else [])"
  using assms
proof (induction xs)
  case Nil
  then show ?case by (simp add: ins_Nil)
next
  case (Cons y ys)
  show ?case
  proof (cases "key x \<le> key y")
    case True
    with Cons show ?thesis by (simp add: ins_Cons)
  next
    case False
    with Cons.prems have "filter (\<lambda>z. key z = key x) (y # ys) = []"
      by (auto simp: filter_empty_conv)
    with False show ?thesis by (auto simp: ins_Cons)
  qed
qed

end

interpretation prio: prioritized_list key "prio_insert key" for key
  by unfold_locales simp

end
