(* ===== verification/Lib_Queue.thy ===== *)
theory Lib_Queue
  imports Rtos_Prelude
begin

text \<open>
  The intrusive queues of the C library: src/os/include/queue.h and src/lib/libc/queue. A node is
  an address; the \<open>flink\<close> and \<open>blink\<close> members of all nodes are two maps, the explicit store the
  operations update. Every operation is a partial function: \<open>None\<close> is a null pointer followed by
  the code. The loops of \<open>sq_rem\<close> and \<open>sq_remlast\<close> walk the links and need not end on a cyclic
  chain, so they are partial functions as well.

  \<open>dq_rep s q xs\<close> says that queue header \<open>q\<close> in store \<open>s\<close> represents the node list \<open>xs\<close>. The
  lemmas show for each operation that on a represented queue it returns, and which list the result
  represents; the other components of the development work on those lists.
\<close>

section \<open>Data\<close>

record links =
  flink :: "addr \<Rightarrow> ptr"
  blink :: "addr \<Rightarrow> ptr"

record dq_queue =
  dq_head :: ptr
  dq_tail :: ptr

record sq_queue =
  sq_head :: ptr
  sq_tail :: ptr

definition set_flink :: "addr \<Rightarrow> ptr \<Rightarrow> links \<Rightarrow> links" where
  "set_flink a p s = s\<lparr>flink := (flink s)(a := p)\<rparr>"

definition set_blink :: "addr \<Rightarrow> ptr \<Rightarrow> links \<Rightarrow> links" where
  "set_blink a p s = s\<lparr>blink := (blink s)(a := p)\<rparr>"

definition dq_init :: dq_queue where
  "dq_init = \<lparr>dq_head = None, dq_tail = None\<rparr>"

definition sq_init :: sq_queue where
  "sq_init = \<lparr>sq_head = None, sq_tail = None\<rparr>"

section \<open>Doubly linked queues\<close>

definition dq_addfirst :: "addr \<Rightarrow> links \<Rightarrow> dq_queue \<Rightarrow> (links \<times> dq_queue) option" where
  "dq_addfirst node s queue =
     (let s = set_blink node None s;
          s = set_flink node (dq_head queue) s
      in case dq_head queue of
           None \<Rightarrow> Some (s, queue\<lparr>dq_head := Some node, dq_tail := Some node\<rparr>)
         | Some h \<Rightarrow> Some (set_blink h (Some node) s, queue\<lparr>dq_head := Some node\<rparr>))"

definition dq_addlast :: "addr \<Rightarrow> links \<Rightarrow> dq_queue \<Rightarrow> (links \<times> dq_queue) option" where
  "dq_addlast node s queue =
     (let s = set_flink node None s;
          s = set_blink node (dq_tail queue) s
      in if dq_head queue = None
         then Some (s, queue\<lparr>dq_head := Some node, dq_tail := Some node\<rparr>)
         else do {
           t \<leftarrow> dq_tail queue;
           Some (set_flink t (Some node) s, queue\<lparr>dq_tail := Some node\<rparr>)
         })"

definition dq_addafter :: "addr \<Rightarrow> addr \<Rightarrow> links \<Rightarrow> dq_queue \<Rightarrow> (links \<times> dq_queue) option" where
  "dq_addafter prev node s queue =
     (if dq_head queue = None \<or> Some prev = dq_tail queue then dq_addlast node s queue
      else do {
        nxt \<leftarrow> flink s prev;
        let s = set_blink node (Some prev) s;
        let s = set_flink node (Some nxt) s;
        let s = set_blink nxt (Some node) s;
        Some (set_flink prev (Some node) s, queue)
      })"

definition dq_addbefore :: "addr \<Rightarrow> addr \<Rightarrow> links \<Rightarrow> dq_queue \<Rightarrow> (links \<times> dq_queue) option" where
  "dq_addbefore nxt node s queue =
     (if dq_head queue = None \<or> Some nxt = dq_head queue then dq_addfirst node s queue
      else do {
        prev \<leftarrow> blink s nxt;
        let s = set_flink node (Some nxt) s;
        let s = set_blink node (Some prev) s;
        let s = set_flink prev (Some node) s;
        Some (set_blink nxt (Some node) s, queue)
      })"

definition dq_rem :: "addr \<Rightarrow> links \<Rightarrow> dq_queue \<Rightarrow> (links \<times> dq_queue) option" where
  "dq_rem node s queue =
     (let prev = blink s node;
          nxt = flink s node;
          (s, queue) = (case prev of
              None \<Rightarrow> (s, queue\<lparr>dq_head := nxt\<rparr>)
            | Some p \<Rightarrow> (set_flink p nxt s, queue));
          (s, queue) = (case nxt of
              None \<Rightarrow> (s, queue\<lparr>dq_tail := prev\<rparr>)
            | Some n \<Rightarrow> (set_blink n prev s, queue))
      in Some (set_blink node None (set_flink node None s), queue))"

definition dq_remfirst :: "links \<Rightarrow> dq_queue \<Rightarrow> (ptr \<times> links \<times> dq_queue) option" where
  "dq_remfirst s queue =
     (case dq_head queue of
        None \<Rightarrow> Some (None, s, queue)
      | Some ret \<Rightarrow>
          (let (s, queue) = (case flink s ret of
                 None \<Rightarrow> (s, queue\<lparr>dq_head := None, dq_tail := None\<rparr>)
               | Some n \<Rightarrow> (set_blink n None s, queue\<lparr>dq_head := Some n\<rparr>))
           in Some (Some ret, set_blink ret None (set_flink ret None s), queue)))"

definition dq_remlast :: "links \<Rightarrow> dq_queue \<Rightarrow> (ptr \<times> links \<times> dq_queue) option" where
  "dq_remlast s queue =
     (case dq_tail queue of
        None \<Rightarrow> Some (None, s, queue)
      | Some ret \<Rightarrow>
          (let (s, queue) = (case blink s ret of
                 None \<Rightarrow> (s, queue\<lparr>dq_head := None, dq_tail := None\<rparr>)
               | Some p \<Rightarrow> (set_flink p None s, queue\<lparr>dq_tail := Some p\<rparr>))
           in Some (Some ret, set_blink ret None (set_flink ret None s), queue)))"

section \<open>Singly linked queues\<close>

definition sq_addfirst :: "addr \<Rightarrow> links \<Rightarrow> sq_queue \<Rightarrow> (links \<times> sq_queue) option" where
  "sq_addfirst node s queue =
     (let s = set_flink node (sq_head queue) s;
          queue = (if sq_head queue = None then queue\<lparr>sq_tail := Some node\<rparr> else queue)
      in Some (s, queue\<lparr>sq_head := Some node\<rparr>))"

definition sq_addlast :: "addr \<Rightarrow> links \<Rightarrow> sq_queue \<Rightarrow> (links \<times> sq_queue) option" where
  "sq_addlast node s queue =
     (let s = set_flink node None s
      in if sq_head queue = None
         then Some (s, queue\<lparr>sq_head := Some node, sq_tail := Some node\<rparr>)
         else do {
           t \<leftarrow> sq_tail queue;
           Some (set_flink t (Some node) s, queue\<lparr>sq_tail := Some node\<rparr>)
         })"

definition sq_addafter :: "addr \<Rightarrow> addr \<Rightarrow> links \<Rightarrow> sq_queue \<Rightarrow> (links \<times> sq_queue) option" where
  "sq_addafter prev node s queue =
     (if sq_head queue = None \<or> Some prev = sq_tail queue then sq_addlast node s queue
      else (let s = set_flink node (flink s prev) s
            in Some (set_flink prev (Some node) s, queue)))"

definition sq_remafter :: "addr \<Rightarrow> links \<Rightarrow> sq_queue \<Rightarrow> (ptr \<times> links \<times> sq_queue) option" where
  "sq_remafter node s queue =
     (case flink s node of
        None \<Rightarrow> Some (None, s, queue)
      | Some ret \<Rightarrow>
          if sq_head queue = None then Some (Some ret, s, queue)
          else (let (s, queue) =
                  (if sq_tail queue = Some ret
                   then (set_flink node None s, queue\<lparr>sq_tail := Some node\<rparr>)
                   else (set_flink node (flink s ret) s, queue))
                in Some (Some ret, set_flink ret None s, queue)))"

text \<open>
  \<open>for (prev = queue->head; prev && prev->flink != node; prev = prev->flink);\<close> The result \<open>None\<close>
  is a walk that does not end.
\<close>

partial_function (option) sq_findprev :: "links \<Rightarrow> addr \<Rightarrow> ptr \<Rightarrow> ptr option" where
  "sq_findprev s node prev =
     (case prev of
        None \<Rightarrow> Some None
      | Some p \<Rightarrow> if flink s p = Some node then Some (Some p)
                  else sq_findprev s node (flink s p))"

definition sq_rem :: "ptr \<Rightarrow> links \<Rightarrow> sq_queue \<Rightarrow> (links \<times> sq_queue) option" where
  "sq_rem pnode s queue =
     (case pnode of
        None \<Rightarrow> Some (s, queue)
      | Some node \<Rightarrow>
          if sq_head queue = None then Some (s, queue)
          else if Some node = sq_head queue
          then (let queue = queue\<lparr>sq_head := flink s node\<rparr>
                in Some (s, if Some node = sq_tail queue then queue\<lparr>sq_tail := None\<rparr> else queue))
          else do {
            prev \<leftarrow> sq_findprev s node (sq_head queue);
            case prev of
              None \<Rightarrow> Some (s, queue)
            | Some p \<Rightarrow> do {
                (_, s, queue) \<leftarrow> sq_remafter p s queue;
                Some (s, queue)
              }
          })"

definition sq_remfirst :: "links \<Rightarrow> sq_queue \<Rightarrow> (ptr \<times> links \<times> sq_queue) option" where
  "sq_remfirst s queue =
     (case sq_head queue of
        None \<Rightarrow> Some (None, s, queue)
      | Some ret \<Rightarrow>
          (let queue = queue\<lparr>sq_head := flink s ret\<rparr>;
               queue = (if sq_head queue = None then queue\<lparr>sq_tail := None\<rparr> else queue)
           in Some (Some ret, set_flink ret None s, queue)))"

definition sq_remlast :: "links \<Rightarrow> sq_queue \<Rightarrow> (ptr \<times> links \<times> sq_queue) option" where
  "sq_remlast s queue =
     (case sq_tail queue of
        None \<Rightarrow> Some (None, s, queue)
      | Some ret \<Rightarrow>
          if sq_head queue = sq_tail queue
          then Some (Some ret, set_flink ret None s, queue\<lparr>sq_head := None, sq_tail := None\<rparr>)
          else do {
            prev \<leftarrow> sq_findprev s ret (sq_head queue);
            let (s, queue) = (case prev of
                None \<Rightarrow> (s, queue)
              | Some p \<Rightarrow> (set_flink p None s, queue\<lparr>sq_tail := Some p\<rparr>));
            Some (Some ret, set_flink ret None s, queue)
          })"

section \<open>Representation\<close>

text \<open>\<open>dseg s p xs n\<close>: the nodes \<open>xs\<close> are linked in order, between the pointers \<open>p\<close> and \<open>n\<close>.\<close>

fun dseg :: "links \<Rightarrow> ptr \<Rightarrow> addr list \<Rightarrow> ptr \<Rightarrow> bool" where
  "dseg s p [] n = True"
| "dseg s p (x # xs) n = (blink s x = p \<and> flink s x = firstp n xs \<and> dseg s (Some x) xs n)"

fun sseg :: "links \<Rightarrow> addr list \<Rightarrow> ptr \<Rightarrow> bool" where
  "sseg s [] n = True"
| "sseg s (x # xs) n = (flink s x = firstp n xs \<and> sseg s xs n)"

definition dq_rep :: "links \<Rightarrow> dq_queue \<Rightarrow> addr list \<Rightarrow> bool" where
  "dq_rep s q xs =
     (distinct xs \<and> dq_head q = firstp None xs \<and> dq_tail q = lastp None xs \<and> dseg s None xs None)"

definition sq_rep :: "links \<Rightarrow> sq_queue \<Rightarrow> addr list \<Rightarrow> bool" where
  "sq_rep s q xs =
     (distinct xs \<and> sq_head q = firstp None xs \<and> sq_tail q = lastp None xs \<and> sseg s xs None)"

text \<open>\<open>unlinked s a\<close>: the links of a removed node have been cleared.\<close>

definition unlinked :: "links \<Rightarrow> addr \<Rightarrow> bool" where
  "unlinked s a = (flink s a = None \<and> blink s a = None)"

lemma links_upd [simp]:
  "flink (set_flink a p s) = (flink s)(a := p)" "blink (set_flink a p s) = blink s"
  "blink (set_blink a p s) = (blink s)(a := p)" "flink (set_blink a p s) = flink s"
  by (simp_all add: set_flink_def set_blink_def)

lemma dseg_append [simp]:
  "dseg s p (xs @ ys) n = (dseg s p xs (firstp n ys) \<and> dseg s (lastp p xs) ys n)"
  by (induction xs arbitrary: p) auto

lemma sseg_append [simp]: "sseg s (xs @ ys) n = (sseg s xs (firstp n ys) \<and> sseg s ys n)"
  by (induction xs) auto

lemma dseg_frame:
  "(\<And>a. a \<in> set xs \<Longrightarrow> flink t a = flink s a \<and> blink t a = blink s a) \<Longrightarrow>
     dseg t p xs n = dseg s p xs n"
  by (induction xs arbitrary: p) auto

lemma sseg_frame: "(\<And>a. a \<in> set xs \<Longrightarrow> flink t a = flink s a) \<Longrightarrow> sseg t xs n = sseg s xs n"
  by (induction xs) auto

lemma dseg_upd [simp]:
  "a \<notin> set xs \<Longrightarrow> dseg (set_flink a q s) p xs n = dseg s p xs n"
  "a \<notin> set xs \<Longrightarrow> dseg (set_blink a q s) p xs n = dseg s p xs n"
  by (rule dseg_frame; auto)+

lemma sseg_upd [simp]: "a \<notin> set xs \<Longrightarrow> sseg (set_flink a q s) xs n = sseg s xs n"
  by (rule sseg_frame) auto

text \<open>Relinking the last node of a segment to a new successor, the first to a new predecessor.\<close>

lemma dseg_relink_last:
  assumes "dseg s p xs n" "distinct xs" "lastp None xs = Some l"
  shows "dseg (set_flink l m s) p xs m"
  using assms
proof (induction xs rule: rev_induct)
  case (snoc x xs)
  then show ?case by (auto simp: lastp_def)
qed simp

lemma sseg_relink_last:
  assumes "sseg s xs n" "distinct xs" "lastp None xs = Some l"
  shows "sseg (set_flink l m s) xs m"
  using assms
proof (induction xs rule: rev_induct)
  case (snoc x xs)
  then show ?case by (auto simp: lastp_def)
qed simp

lemma dseg_relink_first:
  assumes "dseg s p (x # xs) n" "distinct (x # xs)"
  shows "dseg (set_blink x q s) q (x # xs) n"
  using assms by auto

section \<open>Correctness of the doubly linked queue\<close>

text \<open>
  \<open>dq_result s A r ys\<close>: the operation returned, the queue now represents \<open>ys\<close>, and no link of a node
  outside \<open>A\<close> has changed, so every queue disjoint from \<open>A\<close> is as before.
\<close>

definition same_outside :: "addr set \<Rightarrow> links \<Rightarrow> links \<Rightarrow> bool" where
  "same_outside A s t = (\<forall>a. a \<notin> A \<longrightarrow> flink t a = flink s a \<and> blink t a = blink s a)"

definition dq_result :: "links \<Rightarrow> addr set \<Rightarrow> (links \<times> dq_queue) option \<Rightarrow> addr list \<Rightarrow> bool" where
  "dq_result s A r ys =
     (case r of None \<Rightarrow> False | Some (t, q) \<Rightarrow> dq_rep t q ys \<and> same_outside A s t)"

definition sq_result :: "links \<Rightarrow> addr set \<Rightarrow> (links \<times> sq_queue) option \<Rightarrow> addr list \<Rightarrow> bool" where
  "sq_result s A r ys =
     (case r of None \<Rightarrow> False | Some (t, q) \<Rightarrow> sq_rep t q ys \<and> same_outside A s t)"

lemma dq_rep_frame:
  "dq_rep s q xs \<Longrightarrow> same_outside A s t \<Longrightarrow> set xs \<inter> A = {} \<Longrightarrow> dq_rep t q xs"
  unfolding dq_rep_def same_outside_def
  by (subst dseg_frame [of _ t s]) (auto simp: disjoint_iff)

lemma sq_rep_frame:
  "sq_rep s q xs \<Longrightarrow> same_outside A s t \<Longrightarrow> set xs \<inter> A = {} \<Longrightarrow> sq_rep t q xs"
  unfolding sq_rep_def same_outside_def
  by (subst sseg_frame [of _ t s]) (auto simp: disjoint_iff)

lemmas dq_defs = dq_rep_def dq_result_def same_outside_def
lemmas sq_defs = sq_rep_def sq_result_def same_outside_def

lemma dq_init_rep: "dq_rep s dq_init []"
  by (simp add: dq_rep_def dq_init_def)

lemma sq_init_rep: "sq_rep s sq_init []"
  by (simp add: sq_rep_def sq_init_def)

lemma dq_addfirst_result:
  assumes "dq_rep s q xs" "node \<notin> set xs"
  shows "dq_result s (insert node (set xs)) (dq_addfirst node s q) (node # xs)"
  using assms by (cases xs) (auto simp: dq_defs dq_addfirst_def)

lemma dq_addlast_result:
  assumes "dq_rep s q xs" "node \<notin> set xs"
  shows "dq_result s (insert node (set xs)) (dq_addlast node s q) (xs @ [node])"
proof (cases xs rule: rev_cases)
  case Nil
  with assms show ?thesis by (auto simp: dq_defs dq_addlast_def)
next
  case (snoc ys l)
  with assms show ?thesis by (auto simp: dq_defs dq_addlast_def)
qed

lemma dq_addafter_result:
  assumes rep: "dq_rep s q (as @ prev # bs)" and new: "node \<notin> set (as @ prev # bs)"
  shows "dq_result s (insert node (set (as @ prev # bs))) (dq_addafter prev node s q)
           (as @ prev # node # bs)"
proof (cases bs)
  case Nil
  with rep have "dq_tail q = Some prev" by (simp add: dq_rep_def)
  with Nil dq_addlast_result [OF rep new] show ?thesis by (simp add: dq_addafter_def)
next
  case (Cons b bs')
  with rep have "dq_tail q \<noteq> Some prev" "dq_head q \<noteq> None"
    by (auto simp: dq_rep_def dest: lastp_Some_in')
  with rep new Cons show ?thesis by (auto simp: dq_defs dq_addafter_def)
qed

lemma dq_addbefore_result:
  assumes rep: "dq_rep s q (as @ nxt # bs)" and new: "node \<notin> set (as @ nxt # bs)"
  shows "dq_result s (insert node (set (as @ nxt # bs))) (dq_addbefore nxt node s q)
           (as @ node # nxt # bs)"
proof (cases as rule: rev_cases)
  case Nil
  with rep have "dq_head q = Some nxt" by (simp add: dq_rep_def)
  with Nil dq_addfirst_result [OF rep new] show ?thesis by (simp add: dq_addbefore_def)
next
  case (snoc as' a)
  with rep have "dq_head q \<noteq> Some nxt" "dq_head q \<noteq> None"
    by (auto simp: dq_rep_def dest: firstp_Some_in)
  with rep new snoc show ?thesis by (auto simp: dq_defs dq_addbefore_def)
qed

lemma dq_rem_result:
  assumes "dq_rep s q (as @ node # bs)"
  shows "dq_result s (set (as @ node # bs)) (dq_rem node s q) (as @ bs)
     \<and> (\<forall>t r. dq_rem node s q = Some (t, r) \<longrightarrow> unlinked t node)"
proof (cases as rule: rev_cases)
  case Nil
  with assms show ?thesis
    by (cases bs) (auto simp: dq_defs dq_rem_def unlinked_def)
next
  case (snoc as' a)
  with assms show ?thesis
    by (cases bs) (auto simp: dq_defs dq_rem_def unlinked_def)
qed

lemma dq_rem_remove1:
  assumes "dq_rep s q xs" "node \<in> set xs"
  shows "dq_result s (set xs) (dq_rem node s q) (remove1 node xs)"
proof -
  obtain as bs where "xs = as @ node # bs" "node \<notin> set as"
    using split_list_first [OF assms(2)] by blast
  with dq_rem_result [of s q as node bs] assms show ?thesis
    by (simp add: remove1_append)
qed

lemma dq_remfirst_result:
  assumes "dq_rep s q xs"
  shows "case xs of
      [] \<Rightarrow> dq_remfirst s q = Some (None, s, q)
    | x # ys \<Rightarrow> (\<exists>t r. dq_remfirst s q = Some (Some x, t, r) \<and> dq_rep t r ys
                     \<and> same_outside (set xs) s t \<and> unlinked t x)"
  using assms by (cases xs; cases "tl xs") (auto simp: dq_defs dq_remfirst_def unlinked_def)

lemma dq_remlast_result:
  assumes "dq_rep s q (ys @ [x])"
  shows "\<exists>t r. dq_remlast s q = Some (Some x, t, r) \<and> dq_rep t r ys
           \<and> same_outside (set (ys @ [x])) s t \<and> unlinked t x"
proof (cases ys rule: rev_cases)
  case Nil
  with assms show ?thesis by (auto simp: dq_defs dq_remlast_def unlinked_def)
next
  case (snoc zs z)
  with assms show ?thesis
    by (auto simp: dq_defs dq_remlast_def unlinked_def)
qed

section \<open>Correctness of the singly linked queue\<close>

lemma sq_addfirst_result:
  assumes "sq_rep s q xs" "node \<notin> set xs"
  shows "sq_result s (insert node (set xs)) (sq_addfirst node s q) (node # xs)"
  using assms by (cases xs) (auto simp: sq_defs sq_addfirst_def)

lemma sq_addlast_result:
  assumes "sq_rep s q xs" "node \<notin> set xs"
  shows "sq_result s (insert node (set xs)) (sq_addlast node s q) (xs @ [node])"
proof (cases xs rule: rev_cases)
  case Nil
  with assms show ?thesis by (auto simp: sq_defs sq_addlast_def)
next
  case (snoc ys l)
  with assms show ?thesis by (auto simp: sq_defs sq_addlast_def)
qed

lemma sq_addafter_result:
  assumes rep: "sq_rep s q (as @ prev # bs)" and new: "node \<notin> set (as @ prev # bs)"
  shows "sq_result s (insert node (set (as @ prev # bs))) (sq_addafter prev node s q)
           (as @ prev # node # bs)"
proof (cases bs)
  case Nil
  with rep have "sq_tail q = Some prev" by (simp add: sq_rep_def)
  with Nil sq_addlast_result [OF rep new] show ?thesis by (simp add: sq_addafter_def)
next
  case (Cons b bs')
  with rep have "sq_tail q \<noteq> Some prev" "sq_head q \<noteq> None"
    by (auto simp: sq_rep_def dest: lastp_Some_in')
  with rep new Cons show ?thesis by (auto simp: sq_defs sq_addafter_def)
qed

lemma sq_remafter_result:
  assumes "sq_rep s q (as @ p # node # bs)"
  shows "\<exists>t r. sq_remafter p s q = Some (Some node, t, r) \<and> sq_rep t r (as @ p # bs)
           \<and> same_outside (set (as @ p # node # bs)) s t \<and> flink t node = None"
  using assms
  by (cases bs) (auto simp: sq_defs sq_remafter_def split: if_splits dest: lastp_Some_in')

text \<open>The walk ends on every represented chain: at the predecessor of the node, or at the end.\<close>

lemma sq_findprev_found:
  "sseg s (as @ p # node # bs) n \<Longrightarrow> node \<notin> set as \<Longrightarrow> node \<noteq> p \<Longrightarrow>
     sq_findprev s node (firstp (Some p) as) = Some (Some p)"
proof (induction as)
  case Nil
  then show ?case by (simp add: sq_findprev.simps)
next
  case (Cons a as)
  then have "flink s a = firstp (Some p) as" "flink s a \<noteq> Some node"
    by (auto dest: firstp_Some_in)
  with Cons show ?case by (subst sq_findprev.simps) simp
qed

lemma sq_findprev_absent:
  "sseg s xs None \<Longrightarrow> node \<notin> set xs \<Longrightarrow> sq_findprev s node (firstp None xs) = Some None"
proof (induction xs)
  case Nil
  then show ?case by (simp add: sq_findprev.simps)
next
  case (Cons a as)
  then have "flink s a = firstp None as" "flink s a \<noteq> Some node"
    by (auto simp: firstp_def split: list.splits)
  with Cons show ?case by (subst sq_findprev.simps) simp
qed

lemma sq_rem_result:
  assumes rep: "sq_rep s q (as @ node # bs)"
  shows "sq_result s (set (as @ node # bs)) (sq_rem (Some node) s q) (as @ bs)"
proof (cases as rule: rev_cases)
  case Nil
  with rep show ?thesis by (cases bs) (auto simp: sq_defs sq_rem_def Let_def dest: lastp_Some_in' [OF sym])
next
  case (snoc as' p)
  with rep have hd: "sq_head q = firstp (Some p) as'" "sq_head q \<noteq> Some node" "sq_head q \<noteq> None"
    by (auto simp: sq_rep_def dest: firstp_Some_in)
  from rep snoc have "sq_findprev s node (sq_head q) = Some (Some p)"
    unfolding hd(1) by (intro sq_findprev_found [where bs = bs and n = None]) (auto simp: sq_rep_def)
  with rep snoc hd sq_remafter_result [of s q as' p node bs] show ?thesis
    by (auto simp: sq_rem_def sq_result_def)
qed

lemma sq_rem_absent:
  assumes "sq_rep s q xs" "node \<notin> set xs"
  shows "sq_rem (Some node) s q = Some (s, q)"
proof (cases xs)
  case Nil
  with assms show ?thesis by (simp add: sq_rep_def sq_rem_def)
next
  case (Cons x ys)
  with assms have "sq_findprev s node (sq_head q) = Some None" "sq_head q = Some x" "x \<noteq> node"
    using sq_findprev_absent [of s xs node] by (auto simp: sq_rep_def)
  then show ?thesis by (simp add: sq_rem_def)
qed

lemma sq_remfirst_result:
  assumes "sq_rep s q xs"
  shows "case xs of
      [] \<Rightarrow> sq_remfirst s q = Some (None, s, q)
    | x # ys \<Rightarrow> (\<exists>t r. sq_remfirst s q = Some (Some x, t, r) \<and> sq_rep t r ys
                     \<and> same_outside (set xs) s t \<and> flink t x = None)"
  using assms by (cases xs; cases "tl xs") (auto simp: sq_defs sq_remfirst_def)

lemma sq_remlast_result:
  assumes rep: "sq_rep s q (ys @ [x])"
  shows "\<exists>t r. sq_remlast s q = Some (Some x, t, r) \<and> sq_rep t r ys
           \<and> same_outside (set (ys @ [x])) s t \<and> flink t x = None"
proof (cases ys rule: rev_cases)
  case Nil
  with rep show ?thesis by (auto simp: sq_defs sq_remlast_def)
next
  case (snoc zs p)
  with rep have hd: "sq_head q = firstp (Some p) zs" "sq_head q \<noteq> Some x" "sq_tail q = Some x"
    by (auto simp: sq_rep_def dest: firstp_Some_in)
  from rep snoc have "sq_findprev s x (sq_head q) = Some (Some p)"
    unfolding hd(1) by (intro sq_findprev_found [where bs = "[]" and n = None]) (auto simp: sq_rep_def)
  with rep snoc hd show ?thesis
    by (auto simp: sq_defs sq_remlast_def)
qed

section \<open>Queues as FIFOs\<close>

text \<open>
  The contract both kinds of queue promise to a client that adds at the tail and removes at the
  head: nodes leave in the order in which they came.
\<close>

fun addall :: "(addr \<Rightarrow> links \<Rightarrow> 'q \<Rightarrow> (links \<times> 'q) option) \<Rightarrow> addr list \<Rightarrow> links \<Rightarrow> 'q
    \<Rightarrow> (links \<times> 'q) option" where
  "addall add [] s q = Some (s, q)"
| "addall add (x # xs) s q = do { (s, q) \<leftarrow> add x s q; addall add xs s q }"

fun drain :: "(links \<Rightarrow> 'q \<Rightarrow> (ptr \<times> links \<times> 'q) option) \<Rightarrow> nat \<Rightarrow> links \<Rightarrow> 'q
    \<Rightarrow> (ptr list \<times> links \<times> 'q) option" where
  "drain rem 0 s q = Some ([], s, q)"
| "drain rem (Suc n) s q = do {
     (x, s, q) \<leftarrow> rem s q;
     (xs, s, q) \<leftarrow> drain rem n s q;
     Some (x # xs, s, q)
   }"

locale fifo_queue =
  fixes rep :: "links \<Rightarrow> 'q \<Rightarrow> addr list \<Rightarrow> bool"
    and addlast :: "addr \<Rightarrow> links \<Rightarrow> 'q \<Rightarrow> (links \<times> 'q) option"
    and remfirst :: "links \<Rightarrow> 'q \<Rightarrow> (ptr \<times> links \<times> 'q) option"
  assumes rep_distinct: "rep s q xs \<Longrightarrow> distinct xs"
    and addlast_law: "rep s q xs \<Longrightarrow> node \<notin> set xs \<Longrightarrow>
      \<exists>t r. addlast node s q = Some (t, r) \<and> rep t r (xs @ [node])"
    and remfirst_law: "rep s q (x # xs) \<Longrightarrow>
      \<exists>t r. remfirst s q = Some (Some x, t, r) \<and> rep t r xs"
begin

lemma addall_law:
  "rep s q xs \<Longrightarrow> distinct ns \<Longrightarrow> set ns \<inter> set xs = {} \<Longrightarrow>
     \<exists>t r. addall addlast ns s q = Some (t, r) \<and> rep t r (xs @ ns)"
proof (induction ns arbitrary: s q xs)
  case (Cons n ns)
  then obtain t r where "addlast n s q = Some (t, r)" "rep t r (xs @ [n])"
    using addlast_law [of s q xs n] by auto
  with Cons.IH [of t r "xs @ [n]"] Cons.prems show ?case by auto
qed simp

lemma drain_law:
  "rep s q (xs @ ys) \<Longrightarrow>
     \<exists>t r. drain remfirst (length xs) s q = Some (map Some xs, t, r) \<and> rep t r ys"
proof (induction xs arbitrary: s q)
  case (Cons x xs)
  then obtain t r where "remfirst s q = Some (Some x, t, r)" "rep t r (xs @ ys)"
    using remfirst_law [of s q x "xs @ ys"] by auto
  with Cons.IH [of t r] show ?case by auto
qed simp

theorem fifo:
  assumes "rep s q xs" "distinct ns" "set ns \<inter> set xs = {}"
  shows "\<exists>t r t' r'. addall addlast ns s q = Some (t, r)
     \<and> drain remfirst (length (xs @ ns)) t r = Some (map Some (xs @ ns), t', r') \<and> rep t' r' []"
  using addall_law [OF assms] drain_law [of _ _ "xs @ ns" "[]"] by force

end

interpretation dqf: fifo_queue dq_rep dq_addlast dq_remfirst
proof unfold_locales
  fix s q xs
  show "dq_rep s q xs \<Longrightarrow> distinct xs" by (simp add: dq_rep_def)
next
  fix s q xs node
  assume "dq_rep s q xs" "node \<notin> set xs"
  from dq_addlast_result [OF this] show "\<exists>t r. dq_addlast node s q = Some (t, r) \<and> dq_rep t r (xs @ [node])"
    by (auto simp: dq_result_def split: option.splits)
next
  fix s q x xs
  assume "dq_rep s q (x # xs)"
  from dq_remfirst_result [OF this] show "\<exists>t r. dq_remfirst s q = Some (Some x, t, r) \<and> dq_rep t r xs"
    by auto
qed

interpretation sqf: fifo_queue sq_rep sq_addlast sq_remfirst
proof unfold_locales
  fix s q xs
  show "sq_rep s q xs \<Longrightarrow> distinct xs" by (simp add: sq_rep_def)
next
  fix s q xs node
  assume "sq_rep s q xs" "node \<notin> set xs"
  from sq_addlast_result [OF this] show "\<exists>t r. sq_addlast node s q = Some (t, r) \<and> sq_rep t r (xs @ [node])"
    by (auto simp: sq_result_def split: option.splits)
next
  fix s q x xs
  assume "sq_rep s q (x # xs)"
  from sq_remfirst_result [OF this] show "\<exists>t r. sq_remfirst s q = Some (Some x, t, r) \<and> sq_rep t r xs"
    by auto
qed

end
