(* ===== verification/Sched.thy ===== *)
theory Sched
  imports Lib_Queue "HOL-Library.Word"
begin

text \<open>
  The scheduler of the kernel: src/os/kernel/sched, the task lists of src/os/kernel/init/os_start.c
  and the context-switch entry points of src/os/arch/arm/src/armv7-r (\<open>up_block_task\<close>,
  \<open>up_unblock_task\<close>, \<open>up_release_pending\<close>, \<open>up_reprioritize_rtr\<close>).

  A TCB is an address; the state maps it to its fields. A task list is a doubly linked queue threaded
  through the TCBs; here it is the list of the addresses in order, the abstraction \<open>dq_rep\<close> of theory
  \<open>Lib_Queue\<close>. The pointer code of \<open>sched_addprioritized\<close> is modelled as well and refines the list
  version used by the rest. The head of the ready-to-run list is the running task, so a context switch
  is the change of that head; saving and restoring registers is not modelled. The configuration is
  \<open>artik053/ra8875\<close>: priority inheritance with \<open>CONFIG_SEM_NNESTPRIO = 16\<close>, signals and message queues
  enabled, \<open>CONFIG_RR_INTERVAL = 100\<close>, no tickless mode and no SMP. Tracing and instrumentation calls
  have no effect on the modelled state. Interrupts are disabled in all of this code, so each operation
  is one atomic step.
\<close>

unbundle bit_operations_syntax

section \<open>Data\<close>

datatype tstate =
    TSTATE_TASK_INVALID
  | TSTATE_TASK_PENDING
  | TSTATE_TASK_READYTORUN
  | TSTATE_TASK_RUNNING
  | TSTATE_TASK_INACTIVE
  | TSTATE_WAIT_SEM
  | TSTATE_WAIT_SIG
  | TSTATE_WAIT_MQNOTEMPTY
  | TSTATE_WAIT_MQNOTFULL

text \<open>The static task lists of \<open>os_start.c\<close>.\<close>

datatype tasklist =
    PendingTasks
  | ReadyToRun
  | InactiveTasks
  | WaitingForSemaphore
  | WaitingForSignal
  | WaitingForMqNotEmpty
  | WaitingForMqNotFull

text \<open>
  The members of \<open>struct tcb_s\<close> the scheduler, the semaphores and the message queues use.
  \<open>pend_reprios\<close> is the array of \<open>CONFIG_SEM_NNESTPRIO\<close> bytes.
\<close>

record tcb =
  pid :: int
  sched_priority :: nat
  npend_reprio :: nat
  pend_reprios :: "nat list"
  base_priority :: nat
  task_state :: tstate
  flags :: "16 word"
  lockcount :: int
  timeslice :: int
  waitdog :: ptr
  waitsem :: ptr
  msgwaitq :: ptr
  pterrno :: int

record pidhash =
  ph_tcb :: ptr
  ph_pid :: int

record kstate =
  tcbs :: "addr \<Rightarrow> tcb"
  lists :: "tasklist \<Rightarrow> addr list"
  g_lastpid :: int
  g_pidhash :: "nat \<Rightarrow> pidhash"
  current_regs :: bool
  g_irqerrno :: int

definition SCHED_PRIORITY_MIN :: nat where "SCHED_PRIORITY_MIN = 1"
definition SCHED_PRIORITY_MAX :: nat where "SCHED_PRIORITY_MAX = 255"
definition MAX_LOCK_COUNT :: int where "MAX_LOCK_COUNT = 127"
definition CONFIG_MAX_TASKS :: nat where "CONFIG_MAX_TASKS = 16"
definition CONFIG_SEM_NNESTPRIO :: nat where "CONFIG_SEM_NNESTPRIO = 16"
definition CONFIG_RR_INTERVAL :: int where "CONFIG_RR_INTERVAL = 100"
definition TCB_FLAG_ROUND_ROBIN :: "16 word" where "TCB_FLAG_ROUND_ROBIN = 32"
definition EINVAL :: int where "EINVAL = 22"
definition ESRCH :: int where "ESRCH = 3"

text \<open>\<open>MSEC2TICK\<close> with \<open>CONFIG_USEC_PER_TICK = 10000\<close>: ten milliseconds a tick, rounded.\<close>

definition MSEC2TICK :: "int \<Rightarrow> int" where
  "MSEC2TICK msec = (msec + 10 div 2) div 10"

fun g_tasklisttable :: "tstate \<Rightarrow> tasklist option \<times> bool" where
  "g_tasklisttable TSTATE_TASK_INVALID = (None, False)"
| "g_tasklisttable TSTATE_TASK_PENDING = (Some PendingTasks, True)"
| "g_tasklisttable TSTATE_TASK_READYTORUN = (Some ReadyToRun, True)"
| "g_tasklisttable TSTATE_TASK_RUNNING = (Some ReadyToRun, True)"
| "g_tasklisttable TSTATE_TASK_INACTIVE = (Some InactiveTasks, False)"
| "g_tasklisttable TSTATE_WAIT_SEM = (Some WaitingForSemaphore, True)"
| "g_tasklisttable TSTATE_WAIT_SIG = (Some WaitingForSignal, False)"
| "g_tasklisttable TSTATE_WAIT_MQNOTEMPTY = (Some WaitingForMqNotEmpty, True)"
| "g_tasklisttable TSTATE_WAIT_MQNOTFULL = (Some WaitingForMqNotFull, True)"

text \<open>\<open>FIRST_READY_TO_RUN_STATE .. LAST_READY_TO_RUN_STATE\<close> and \<open>FIRST_BLOCKED_STATE .. LAST_BLOCKED_STATE\<close>.\<close>

fun ready_state :: "tstate \<Rightarrow> bool" where
  "ready_state TSTATE_TASK_READYTORUN = True"
| "ready_state TSTATE_TASK_RUNNING = True"
| "ready_state _ = False"

fun blocked_state :: "tstate \<Rightarrow> bool" where
  "blocked_state TSTATE_TASK_INVALID = False"
| "blocked_state TSTATE_TASK_PENDING = False"
| "blocked_state TSTATE_TASK_READYTORUN = False"
| "blocked_state TSTATE_TASK_RUNNING = False"
| "blocked_state _ = True"

section \<open>State access\<close>

definition upd_tcb :: "addr \<Rightarrow> (tcb \<Rightarrow> tcb) \<Rightarrow> 'z kstate_scheme \<Rightarrow> 'z kstate_scheme" where
  "upd_tcb t f s = s\<lparr>tcbs := (tcbs s)(t := f (tcbs s t))\<rparr>"

definition set_list :: "tasklist \<Rightarrow> addr list \<Rightarrow> 'z kstate_scheme \<Rightarrow> 'z kstate_scheme" where
  "set_list l xs s = s\<lparr>lists := (lists s)(l := xs)\<rparr>"

definition set_state :: "addr \<Rightarrow> tstate \<Rightarrow> 'z kstate_scheme \<Rightarrow> 'z kstate_scheme" where
  "set_state t st s = upd_tcb t (\<lambda>b. b\<lparr>task_state := st\<rparr>) s"

abbreviation prio :: "'z kstate_scheme \<Rightarrow> addr \<Rightarrow> nat" where
  "prio s t \<equiv> sched_priority (tcbs s t)"

abbreviation g_readytorun :: "'z kstate_scheme \<Rightarrow> addr list" where
  "g_readytorun s \<equiv> lists s ReadyToRun"

abbreviation g_pendingtasks :: "'z kstate_scheme \<Rightarrow> addr list" where
  "g_pendingtasks s \<equiv> lists s PendingTasks"

text \<open>\<open>g_readytorun.head\<close>, followed as a pointer: an empty list is a null pointer.\<close>

definition this_task :: "'z kstate_scheme \<Rightarrow> addr option" where
  "this_task s = (case g_readytorun s of [] \<Rightarrow> None | t # _ \<Rightarrow> Some t)"

text \<open>\<open>blink\<close> and \<open>flink\<close> of a node of a list.\<close>

fun next_of :: "addr \<Rightarrow> addr list \<Rightarrow> ptr" where
  "next_of t [] = None"
| "next_of t (x # xs) = (if x = t then firstp None xs else next_of t xs)"

fun prev_of :: "addr \<Rightarrow> addr list \<Rightarrow> ptr" where
  "prev_of t (x # y # xs) = (if x = t then None else if y = t then Some x else prev_of t (y # xs))"
| "prev_of t _ = None"

text \<open>
  \<open>set_errno\<close>: \<open>*get_errno_ptr() = errcode\<close>. In an interrupt handler, and while the head of the
  ready-to-run list is not running, the dummy location is written.
\<close>

definition set_errno :: "int \<Rightarrow> 'z kstate_scheme \<Rightarrow> 'z kstate_scheme" where
  "set_errno e s =
     (case g_readytorun s of
        [] \<Rightarrow> s\<lparr>g_irqerrno := e\<rparr>
      | rtcb # _ \<Rightarrow>
          if \<not> current_regs s \<and> task_state (tcbs s rtcb) = TSTATE_TASK_RUNNING
          then upd_tcb rtcb (\<lambda>b. b\<lparr>pterrno := e\<rparr>) s
          else s\<lparr>g_irqerrno := e\<rparr>)"

section \<open>The task lists\<close>

text \<open>
  \<open>sched_addprioritized\<close>: the search loop stops at the first node of smaller priority; the node goes
  in front of it. The result says whether it became the head.
\<close>

definition sched_addprioritized :: "addr \<Rightarrow> tasklist \<Rightarrow> 'z kstate_scheme \<Rightarrow> (bool \<times> 'z kstate_scheme) option" where
  "sched_addprioritized tcb l s = do {
     ASSERT (sched_priority (tcbs s tcb) \<ge> SCHED_PRIORITY_MIN);
     let before = takeWhile (\<lambda>n. prio s tcb \<le> prio s n) (lists s l);
     let after = dropWhile (\<lambda>n. prio s tcb \<le> prio s n) (lists s l);
     Some (before = [], set_list l (before @ tcb # after) s)
   }"

text \<open>
  The pointer code of \<open>sched_addprioritized\<close> on the linked list itself: the search loop and the four
  ways of linking the TCB in.
\<close>

partial_function (option) addprio_search :: "links \<Rightarrow> (addr \<Rightarrow> bool) \<Rightarrow> ptr \<Rightarrow> ptr option" where
  "addprio_search s cont nxt =
     (case nxt of
        None \<Rightarrow> Some None
      | Some n \<Rightarrow> if cont n then addprio_search s cont (flink s n) else Some (Some n))"

definition dq_addprioritized :: "(addr \<Rightarrow> nat) \<Rightarrow> addr \<Rightarrow> links \<Rightarrow> dq_queue \<Rightarrow> (bool \<times> links \<times> dq_queue) option" where
  "dq_addprioritized pr tcb s queue = do {
     ASSERT (pr tcb \<ge> SCHED_PRIORITY_MIN);
     nxt \<leftarrow> addprio_search s (\<lambda>n. pr tcb \<le> pr n) (dq_head queue);
     case nxt of
       None \<Rightarrow>
         (case dq_tail queue of
            None \<Rightarrow> Some (True, set_blink tcb None (set_flink tcb None s),
                            queue\<lparr>dq_head := Some tcb, dq_tail := Some tcb\<rparr>)
          | Some prev \<Rightarrow>
              let s = set_flink tcb None s;
                  s = set_blink tcb (Some prev) s;
                  s = set_flink prev (Some tcb) s
              in Some (False, s, queue\<lparr>dq_tail := Some tcb\<rparr>))
     | Some n \<Rightarrow>
         (case blink s n of
            None \<Rightarrow>
              let s = set_flink tcb (Some n) s;
                  s = set_blink tcb None s;
                  s = set_blink n (Some tcb) s
              in Some (True, s, queue\<lparr>dq_head := Some tcb\<rparr>)
          | Some prev \<Rightarrow>
              let s = set_flink tcb (Some n) s;
                  s = set_blink tcb (Some prev) s;
                  s = set_flink prev (Some tcb) s;
                  s = set_blink n (Some tcb) s
              in Some (False, s, queue))
   }"

definition sched_addblocked :: "addr \<Rightarrow> tstate \<Rightarrow> 'z kstate_scheme \<Rightarrow> 'z kstate_scheme option" where
  "sched_addblocked btcb st s = do {
     ASSERT (blocked_state st);
     l \<leftarrow> fst (g_tasklisttable st);
     s \<leftarrow> (if snd (g_tasklisttable st)
           then do { (_, s) \<leftarrow> sched_addprioritized btcb l s; Some s }
           else Some (set_list l (lists s l @ [btcb]) s));
     Some (set_state btcb st s)
   }"

definition sched_removeblocked :: "addr \<Rightarrow> 'z kstate_scheme \<Rightarrow> 'z kstate_scheme option" where
  "sched_removeblocked btcb s = do {
     ASSERT (blocked_state (task_state (tcbs s btcb)));
     l \<leftarrow> fst (g_tasklisttable (task_state (tcbs s btcb)));
     let s = set_list l (remove1 btcb (lists s l)) s;
     Some (set_state btcb TSTATE_TASK_INVALID s)
   }"

definition sched_addreadytorun :: "addr \<Rightarrow> 'z kstate_scheme \<Rightarrow> (bool \<times> 'z kstate_scheme) option" where
  "sched_addreadytorun btcb s = do {
     rtcb \<leftarrow> this_task s;
     if lockcount (tcbs s rtcb) \<noteq> 0 \<and> prio s rtcb < prio s btcb
     then do {
       (_, s) \<leftarrow> sched_addprioritized btcb PendingTasks s;
       Some (False, set_state btcb TSTATE_TASK_PENDING s)
     }
     else do {
       (new_head, s) \<leftarrow> sched_addprioritized btcb ReadyToRun s;
       if new_head
       then do {
         ASSERT (lockcount (tcbs s rtcb) = 0 \<and> next_of btcb (g_readytorun s) \<noteq> None);
         let s = set_state btcb TSTATE_TASK_RUNNING s;
         f \<leftarrow> next_of btcb (g_readytorun s);
         Some (True, set_state f TSTATE_TASK_READYTORUN s)
       }
       else Some (False, set_state btcb TSTATE_TASK_READYTORUN s)
     }
   }"

definition sched_removereadytorun :: "addr \<Rightarrow> 'z kstate_scheme \<Rightarrow> (bool \<times> 'z kstate_scheme) option" where
  "sched_removereadytorun rtcb s = do {
     (ret, s) \<leftarrow>
       (if prev_of rtcb (g_readytorun s) = None
        then do {
          ntcb \<leftarrow> next_of rtcb (g_readytorun s);
          Some (True, set_state ntcb TSTATE_TASK_RUNNING s)
        }
        else Some (False, s));
     let s = set_list ReadyToRun (remove1 rtcb (g_readytorun s)) s;
     Some (ret, set_state rtcb TSTATE_TASK_INVALID s)
   }"

text \<open>
  \<open>sched_mergepending\<close> walks the ready-to-run list once: \<open>before\<close> are the nodes in front of the cursor
  \<open>rtrtcb\<close> and \<open>rest\<close> the list from it on. The search for the next pending task resumes at the task
  inserted last. An empty \<open>rest\<close> fails \<open>ASSERT(rtrtcb)\<close>.
\<close>

fun mergepending_loop :: "addr list \<Rightarrow> addr list \<Rightarrow> addr list \<Rightarrow> bool \<Rightarrow> 'z kstate_scheme
    \<Rightarrow> (bool \<times> 'z kstate_scheme) option" where
  "mergepending_loop [] before rest ret s = Some (ret, set_list ReadyToRun (before @ rest) s)"
| "mergepending_loop (pndtcb # pnds) before rest ret s =
     (let before = before @ takeWhile (\<lambda>r. prio s pndtcb \<le> prio s r) rest;
          rest = dropWhile (\<lambda>r. prio s pndtcb \<le> prio s r) rest
      in case rest of
           [] \<Rightarrow> None
         | rtrtcb # _ \<Rightarrow>
             if before = []
             then mergepending_loop pnds before (pndtcb # rest) True
                    (set_state pndtcb TSTATE_TASK_RUNNING (set_state rtrtcb TSTATE_TASK_READYTORUN s))
             else mergepending_loop pnds before (pndtcb # rest) ret
                    (set_state pndtcb TSTATE_TASK_READYTORUN s))"

definition sched_mergepending :: "'z kstate_scheme \<Rightarrow> (bool \<times> 'z kstate_scheme) option" where
  "sched_mergepending s = do {
     (ret, s) \<leftarrow> mergepending_loop (g_pendingtasks s) [] (g_readytorun s) False s;
     Some (ret, set_list PendingTasks [] s)
   }"

section \<open>Context switches\<close>

definition up_block_task :: "addr \<Rightarrow> tstate \<Rightarrow> 'z kstate_scheme \<Rightarrow> (bool \<times> 'z kstate_scheme) option" where
  "up_block_task tcb st s = do {
     ASSERT (ready_state (task_state (tcbs s tcb)));
     (switch_needed, s) \<leftarrow> sched_removereadytorun tcb s;
     s \<leftarrow> sched_addblocked tcb st s;
     (merged, s) \<leftarrow> (if g_pendingtasks s \<noteq> [] then sched_mergepending s else Some (False, s));
     Some (switch_needed \<or> merged, s)
   }"

definition up_unblock_task :: "addr \<Rightarrow> 'z kstate_scheme \<Rightarrow> (bool \<times> 'z kstate_scheme) option" where
  "up_unblock_task tcb s = do {
     ASSERT (blocked_state (task_state (tcbs s tcb)));
     s \<leftarrow> sched_removeblocked tcb s;
     sched_addreadytorun tcb s
   }"

definition up_release_pending :: "'z kstate_scheme \<Rightarrow> (bool \<times> 'z kstate_scheme) option" where
  "up_release_pending s = sched_mergepending s"

definition up_reprioritize_rtr :: "addr \<Rightarrow> nat \<Rightarrow> 'z kstate_scheme \<Rightarrow> (bool \<times> 'z kstate_scheme) option" where
  "up_reprioritize_rtr tcb priority s =
     (if \<not> ready_state (task_state (tcbs s tcb)) \<or> priority < SCHED_PRIORITY_MIN then None
      else do {
        (removed, s) \<leftarrow> sched_removereadytorun tcb s;
        let s = upd_tcb tcb (\<lambda>b. b\<lparr>sched_priority := priority\<rparr>) s;
        (added, s) \<leftarrow> sched_addreadytorun tcb s;
        let switch_needed = (removed \<noteq> added);
        (_, s) \<leftarrow> (if switch_needed \<and> g_pendingtasks s \<noteq> [] then sched_mergepending s else Some (False, s));
        Some (switch_needed, s)
      })"

section \<open>Preemption lock, priorities, time slices\<close>

text \<open>
  The outcome of a call made by a task: it returned a value, or the task lost the processor inside the
  call. In the second case the rest of the caller runs when the task is the head of the ready-to-run
  list again; it is a separate operation, named \<open>_resume\<close>. In an interrupt handler a switch takes
  effect on return from the interrupt, so the call returns.
\<close>

datatype 'r outcome = Done 'r | Switched

definition OK :: int where "OK = 0"
definition ERROR :: int where "ERROR = -1"

definition sched_lock :: "'z kstate_scheme \<Rightarrow> 'z kstate_scheme option" where
  "sched_lock s =
     (case g_readytorun s of
        [] \<Rightarrow> Some s
      | rtcb # _ \<Rightarrow>
          if current_regs s then Some s
          else do {
            ASSERT (lockcount (tcbs s rtcb) < MAX_LOCK_COUNT);
            Some (upd_tcb rtcb (\<lambda>b. b\<lparr>lockcount := lockcount b + 1\<rparr>) s)
          })"

text \<open>The end of \<open>sched_unlock\<close>: the round-robin check, run by \<open>rtcb\<close>.\<close>

definition sched_unlock_rr :: "addr \<Rightarrow> 'z kstate_scheme \<Rightarrow> 'z kstate_scheme" where
  "sched_unlock_rr rtcb s =
     (if flags (tcbs s rtcb) AND TCB_FLAG_ROUND_ROBIN \<noteq> 0 \<and> timeslice (tcbs s rtcb) = 0
         \<and> Some rtcb \<noteq> this_task s
      then upd_tcb rtcb (\<lambda>b. b\<lparr>timeslice := MSEC2TICK CONFIG_RR_INTERVAL\<rparr>) s
      else s)"

definition sched_unlock :: "'z kstate_scheme \<Rightarrow> (int outcome \<times> 'z kstate_scheme) option" where
  "sched_unlock s =
     (case g_readytorun s of
        [] \<Rightarrow> Some (Done OK, s)
      | rtcb # _ \<Rightarrow>
          if current_regs s then Some (Done OK, s)
          else
            let s = (if lockcount (tcbs s rtcb) \<noteq> 0
                     then upd_tcb rtcb (\<lambda>b. b\<lparr>lockcount := lockcount b - 1\<rparr>) s else s)
            in if lockcount (tcbs s rtcb) \<le> 0
               then do {
                 let s = upd_tcb rtcb (\<lambda>b. b\<lparr>lockcount := 0\<rparr>) s;
                 (sw, s) \<leftarrow> (if g_pendingtasks s \<noteq> [] then up_release_pending s else Some (False, s));
                 if sw then Some (Switched, s) else Some (Done OK, sched_unlock_rr rtcb s)
               }
               else Some (Done OK, s))"

definition sched_unlock_resume :: "addr \<Rightarrow> 'z kstate_scheme \<Rightarrow> (int outcome \<times> 'z kstate_scheme) option" where
  "sched_unlock_resume rtcb s = Some (Done OK, sched_unlock_rr rtcb s)"

definition sched_lockcount :: "'z kstate_scheme \<Rightarrow> int option" where
  "sched_lockcount s = do { rtcb \<leftarrow> this_task s; Some (lockcount (tcbs s rtcb)) }"

definition switch_outcome :: "bool \<Rightarrow> 'z kstate_scheme \<Rightarrow> int outcome" where
  "switch_outcome sw s = (if sw \<and> \<not> current_regs s then Switched else Done OK)"

definition set_prio :: "addr \<Rightarrow> nat \<Rightarrow> 'z kstate_scheme \<Rightarrow> 'z kstate_scheme" where
  "set_prio t p s = upd_tcb t (\<lambda>b. b\<lparr>sched_priority := p\<rparr>) s"

definition sched_setpriority :: "addr \<Rightarrow> int \<Rightarrow> 'z kstate_scheme \<Rightarrow> (int outcome \<times> 'z kstate_scheme) option" where
  "sched_setpriority tcb p s =
     (if p < int SCHED_PRIORITY_MIN \<or> p > int SCHED_PRIORITY_MAX
      then Some (Done ERROR, set_errno EINVAL s)
      else case task_state (tcbs s tcb) of
        TSTATE_TASK_RUNNING \<Rightarrow> do {
          nxt \<leftarrow> next_of tcb (g_readytorun s);
          if p \<le> int (prio s nxt)
          then do {
            (sw, s) \<leftarrow> up_reprioritize_rtr tcb (nat p) s;
            Some (switch_outcome sw s, s)
          }
          else Some (Done OK, set_prio tcb (nat p) s)
        }
      | TSTATE_TASK_READYTORUN \<Rightarrow> do {
          rtcb \<leftarrow> this_task s;
          if p > int (prio s rtcb)
          then do {
            (sw, s) \<leftarrow> up_reprioritize_rtr tcb (nat p) s;
            Some (switch_outcome sw s, s)
          }
          else do {
            (removed, s) \<leftarrow> sched_removereadytorun tcb s;
            ASSERT (\<not> removed);
            let s = set_prio tcb (nat p) s;
            (added, s) \<leftarrow> sched_addreadytorun tcb s;
            ASSERT (\<not> added);
            Some (Done OK, s)
          }
        }
      | st \<Rightarrow>
          if snd (g_tasklisttable st)
          then do {
            l \<leftarrow> fst (g_tasklisttable st);
            let s = set_list l (remove1 tcb (lists s l)) s;
            let s = set_prio tcb (nat p) s;
            (_, s) \<leftarrow> sched_addprioritized tcb l s;
            Some (Done OK, s)
          }
          else Some (Done OK, set_prio tcb (nat p) s))"

text \<open>\<open>sched_reprioritize\<close> also discards the priority inheritance history.\<close>

definition sched_reprioritize_resume :: "addr \<Rightarrow> int \<Rightarrow> 'z kstate_scheme \<Rightarrow> 'z kstate_scheme" where
  "sched_reprioritize_resume tcb p s = upd_tcb tcb (\<lambda>b. b\<lparr>base_priority := nat p, npend_reprio := 0\<rparr>) s"

definition sched_reprioritize :: "addr \<Rightarrow> int \<Rightarrow> 'z kstate_scheme \<Rightarrow> (int outcome \<times> 'z kstate_scheme) option" where
  "sched_reprioritize tcb p s = do {
     (r, s) \<leftarrow> sched_setpriority tcb p s;
     Some (r, if r = Done OK then sched_reprioritize_resume tcb p s else s)
   }"

definition sched_yield :: "'z kstate_scheme \<Rightarrow> (int outcome \<times> 'z kstate_scheme) option" where
  "sched_yield s = do {
     rtcb \<leftarrow> this_task s;
     sched_setpriority rtcb (int (prio s rtcb)) s
   }"

definition sched_process_timeslice :: "'z kstate_scheme \<Rightarrow> 'z kstate_scheme option" where
  "sched_process_timeslice s = do {
     rtcb \<leftarrow> this_task s;
     if flags (tcbs s rtcb) AND TCB_FLAG_ROUND_ROBIN \<noteq> 0
     then
       if timeslice (tcbs s rtcb) \<le> 1
       then
         if lockcount (tcbs s rtcb) = 0
         then
           let s = upd_tcb rtcb (\<lambda>b. b\<lparr>timeslice := MSEC2TICK CONFIG_RR_INTERVAL\<rparr>) s
           in case next_of rtcb (g_readytorun s) of
                None \<Rightarrow> Some s
              | Some f \<Rightarrow>
                  if prio s f \<ge> prio s rtcb
                  then do { (_, s) \<leftarrow> up_reprioritize_rtr rtcb (prio s rtcb) s; Some s }
                  else Some s
         else Some s
       else Some (upd_tcb rtcb (\<lambda>b. b\<lparr>timeslice := timeslice b - 1\<rparr>) s)
     else Some s
   }"

section \<open>Task identifiers\<close>

definition PIDHASH :: "int \<Rightarrow> nat" where
  "PIDHASH p = nat (p AND int (CONFIG_MAX_TASKS - 1))"

definition sched_gettcb :: "int \<Rightarrow> 'z kstate_scheme \<Rightarrow> ptr" where
  "sched_gettcb p s =
     (if p \<ge> 0 \<and> p = ph_pid (g_pidhash s (PIDHASH p)) then ph_tcb (g_pidhash s (PIDHASH p)) else None)"

definition sched_verifytcb :: "addr \<Rightarrow> 'z kstate_scheme \<Rightarrow> bool" where
  "sched_verifytcb tcb s = (Some tcb = ph_tcb (g_pidhash s (PIDHASH (pid (tcbs s tcb)))))"

definition sched_setparam :: "int \<Rightarrow> int option \<Rightarrow> 'z kstate_scheme \<Rightarrow> (int outcome \<times> 'z kstate_scheme) option" where
  "sched_setparam p param s =
     (case param of
        None \<Rightarrow> Some (Done ERROR, set_errno EINVAL s)
      | Some pr \<Rightarrow> do {
          s \<leftarrow> sched_lock s;
          rtcb \<leftarrow> this_task s;
          (case (if p = 0 \<or> p = pid (tcbs s rtcb) then Some rtcb else sched_gettcb p s) of
             None \<Rightarrow> do {
               let s = set_errno ESRCH s;
               (r, s) \<leftarrow> sched_unlock s;
               Some (case r of Done _ \<Rightarrow> Done ERROR | Switched \<Rightarrow> Switched, s)
             }
           | Some tcb \<Rightarrow> do {
               (ret, s) \<leftarrow> sched_reprioritize tcb pr s;
               case ret of
                 Switched \<Rightarrow> Some (Switched, s)
               | Done r \<Rightarrow> do {
                   (u, s) \<leftarrow> sched_unlock s;
                   Some (case u of Done _ \<Rightarrow> Done r | Switched \<Rightarrow> Switched, s)
                 }
             })
        })"

definition sched_getparam :: "int \<Rightarrow> 'z kstate_scheme \<Rightarrow> (int option outcome \<times> 'z kstate_scheme) option" where
  "sched_getparam p s = do {
     rtcb \<leftarrow> this_task s;
     if p = 0 \<or> p = pid (tcbs s rtcb) then Some (Done (Some (int (prio s rtcb))), s)
     else do {
       s \<leftarrow> sched_lock s;
       let ret = (case sched_gettcb p s of None \<Rightarrow> None | Some tcb \<Rightarrow> Some (int (prio s tcb)));
       (u, s) \<leftarrow> sched_unlock s;
       Some (case u of Done _ \<Rightarrow> Done ret | Switched \<Rightarrow> Switched, s)
     }
   }"

section \<open>The pointer code refines the list code\<close>

lemma addprio_search_dseg:
  "dseg s p xs None \<Longrightarrow>
     addprio_search s cont (firstp None xs) = Some (firstp None (dropWhile cont xs))"
proof (induction xs arbitrary: p)
  case Nil
  then show ?case by (simp add: addprio_search.simps)
next
  case (Cons x xs)
  then show ?case by (subst addprio_search.simps) auto
qed

lemma dq_addprioritized_result:
  assumes rep: "dq_rep s q xs" and new: "tcb \<notin> set xs" and "SCHED_PRIORITY_MIN \<le> pr tcb"
  shows "\<exists>t r. dq_addprioritized pr tcb s q = Some (takeWhile (\<lambda>n. pr tcb \<le> pr n) xs = [], t, r)
     \<and> dq_rep t r (prio_insert pr tcb xs) \<and> same_outside (insert tcb (set xs)) s t"
proof -
  define as bs where "as = takeWhile (\<lambda>n. pr tcb \<le> pr n) xs"
    and "bs = dropWhile (\<lambda>n. pr tcb \<le> pr n) xs"
  then have xs: "xs = as @ bs" and ins: "prio_insert pr tcb xs = as @ tcb # bs"
    by (simp_all add: prio_insert_def)
  have search: "addprio_search s (\<lambda>n. pr tcb \<le> pr n) (dq_head q) = Some (firstp None bs)"
    using rep addprio_search_dseg [of s None xs] by (simp add: dq_rep_def bs_def)
  from rep new have "dq_rep s q (as @ bs)" "tcb \<notin> set (as @ bs)" by (simp_all add: xs)
  then have "\<exists>t r. dq_addprioritized pr tcb s q = Some (as = [], t, r)
     \<and> dq_rep t r (as @ tcb # bs) \<and> same_outside (insert tcb (set (as @ bs))) s t"
    using assms(3) search
    by (cases bs; cases as rule: rev_cases) (auto simp: dq_defs dq_addprioritized_def)
  with xs ins show ?thesis by (simp add: as_def)
qed

end
