(* ===== verification/Sched_Inv.thy ===== *)
theory Sched_Inv
  imports Sched
begin

text \<open>
  The invariant of the scheduler and the lemmas that every operation of theory \<open>Sched\<close> keeps it:
  which list a task is in, the order of the lists, the idle task at the end of the ready-to-run list,
  the running task at its head, and pending tasks only while preemption is locked. Each operation is
  also shown to return, so that no assertion of the code fails and no null pointer is followed.
\<close>

section \<open>Invariant\<close>

definition prioritized :: "tasklist \<Rightarrow> bool" where
  "prioritized l = (l \<noteq> InactiveTasks \<and> l \<noteq> WaitingForSignal)"

text \<open>Every task is in exactly the list its state names, and prioritized lists are in order.\<close>

definition lists_ok :: "'z kstate_scheme \<Rightarrow> bool" where
  "lists_ok s =
     ((\<forall>l. distinct (lists s l))
      \<and> (\<forall>l t. t \<in> set (lists s l) \<longleftrightarrow> fst (g_tasklisttable (task_state (tcbs s t))) = Some l)
      \<and> (\<forall>l. prioritized l \<longrightarrow> descending (prio s) (lists s l)))"

text \<open>The idle task is the last ready task, and exactly the first ready task is running.\<close>

definition ready_ok :: "addr \<Rightarrow> 'z kstate_scheme \<Rightarrow> bool" where
  "ready_ok idle s =
     (g_readytorun s \<noteq> [] \<and> last (g_readytorun s) = idle \<and> prio s idle = 0
      \<and> (\<forall>t \<in> set (g_readytorun s). task_state (tcbs s t) = TSTATE_TASK_RUNNING \<longleftrightarrow> t = hd (g_readytorun s)))"

definition prios_ok :: "addr \<Rightarrow> 'z kstate_scheme \<Rightarrow> bool" where
  "prios_ok idle s =
     (\<forall>t. t \<noteq> idle \<longrightarrow> task_state (tcbs s t) \<noteq> TSTATE_TASK_INVALID \<longrightarrow>
        SCHED_PRIORITY_MIN \<le> prio s t \<and> prio s t \<le> SCHED_PRIORITY_MAX)"

definition locks_ok :: "'z kstate_scheme \<Rightarrow> bool" where
  "locks_ok s = (\<forall>t. 0 \<le> lockcount (tcbs s t))"

definition sched_core :: "addr \<Rightarrow> 'z kstate_scheme \<Rightarrow> bool" where
  "sched_core idle s = (lists_ok s \<and> ready_ok idle s \<and> prios_ok idle s \<and> locks_ok s)"

text \<open>Tasks wait in the pending list only while the running task holds the preemption lock.\<close>

definition pend_ok :: "'z kstate_scheme \<Rightarrow> bool" where
  "pend_ok s = (g_pendingtasks s \<noteq> [] \<longrightarrow> 0 < lockcount (tcbs s (hd (g_readytorun s))))"

definition sched_inv :: "addr \<Rightarrow> 'z kstate_scheme \<Rightarrow> bool" where
  "sched_inv idle s = (sched_core idle s \<and> pend_ok s)"

lemma upd_simps [simp]:
  "tcbs (upd_tcb t f s) = (tcbs s)(t := f (tcbs s t))"
  "lists (upd_tcb t f s) = lists s"
  "tcbs (set_list l xs s) = tcbs s"
  "lists (set_list l xs s) = (lists s)(l := xs)"
  "lists (set_state t st s) = lists s"
  "lists (set_prio t p s) = lists s"
  "current_regs (upd_tcb t f s) = current_regs s"
  "current_regs (set_list l xs s) = current_regs s"
  "current_regs (set_state t st s) = current_regs s"
  "current_regs (set_prio t p s) = current_regs s"
  "g_pidhash (upd_tcb t f s) = g_pidhash s"
  "g_pidhash (set_list l xs s) = g_pidhash s"
  "g_pidhash (set_state t st s) = g_pidhash s"
  "g_pidhash (set_prio t p s) = g_pidhash s"
  by (simp_all add: upd_tcb_def set_list_def set_state_def set_prio_def)

text \<open>Reading a member of a TCB after a state or a priority has been written.\<close>

lemma set_state_obs [simp]:
  "task_state (tcbs (set_state t st s) a) = (if a = t then st else task_state (tcbs s a))"
  "sched_priority (tcbs (set_state t st s) a) = sched_priority (tcbs s a)"
  "pid (tcbs (set_state t st s) a) = pid (tcbs s a)"
  "npend_reprio (tcbs (set_state t st s) a) = npend_reprio (tcbs s a)"
  "pend_reprios (tcbs (set_state t st s) a) = pend_reprios (tcbs s a)"
  "base_priority (tcbs (set_state t st s) a) = base_priority (tcbs s a)"
  "flags (tcbs (set_state t st s) a) = flags (tcbs s a)"
  "lockcount (tcbs (set_state t st s) a) = lockcount (tcbs s a)"
  "timeslice (tcbs (set_state t st s) a) = timeslice (tcbs s a)"
  "waitsem (tcbs (set_state t st s) a) = waitsem (tcbs s a)"
  "msgwaitq (tcbs (set_state t st s) a) = msgwaitq (tcbs s a)"
  "pterrno (tcbs (set_state t st s) a) = pterrno (tcbs s a)"
  "waitdog (tcbs (set_state t st s) a) = waitdog (tcbs s a)"
  by (simp_all add: set_state_def)

lemma set_prio_obs [simp]:
  "sched_priority (tcbs (set_prio t p s) a) = (if a = t then p else sched_priority (tcbs s a))"
  "task_state (tcbs (set_prio t p s) a) = task_state (tcbs s a)"
  "pid (tcbs (set_prio t p s) a) = pid (tcbs s a)"
  "npend_reprio (tcbs (set_prio t p s) a) = npend_reprio (tcbs s a)"
  "pend_reprios (tcbs (set_prio t p s) a) = pend_reprios (tcbs s a)"
  "base_priority (tcbs (set_prio t p s) a) = base_priority (tcbs s a)"
  "flags (tcbs (set_prio t p s) a) = flags (tcbs s a)"
  "lockcount (tcbs (set_prio t p s) a) = lockcount (tcbs s a)"
  "timeslice (tcbs (set_prio t p s) a) = timeslice (tcbs s a)"
  "waitsem (tcbs (set_prio t p s) a) = waitsem (tcbs s a)"
  "msgwaitq (tcbs (set_prio t p s) a) = msgwaitq (tcbs s a)"
  "pterrno (tcbs (set_prio t p s) a) = pterrno (tcbs s a)"
  "waitdog (tcbs (set_prio t p s) a) = waitdog (tcbs s a)"
  by (simp_all add: set_prio_def)

lemma table_prioritized:
  "fst (g_tasklisttable st) = Some l \<Longrightarrow> snd (g_tasklisttable st) = prioritized l"
  by (cases st) (auto simp: prioritized_def)

lemma blocked_table:
  "blocked_state st \<Longrightarrow>
     \<exists>l. fst (g_tasklisttable st) = Some l \<and> l \<noteq> ReadyToRun \<and> l \<noteq> PendingTasks"
  by (cases st) auto

lemma ready_table: "ready_state st = (fst (g_tasklisttable st) = Some ReadyToRun)"
  by (cases st) auto

lemma pending_table: "(fst (g_tasklisttable st) = Some PendingTasks) = (st = TSTATE_TASK_PENDING)"
  by (cases st) auto

lemma invalid_table: "(fst (g_tasklisttable st) = None) = (st = TSTATE_TASK_INVALID)"
  by (cases st) auto

text \<open>Moving a task that is in no list into a list, and out of its list.\<close>

lemma lists_ok_member:
  "lists_ok s \<Longrightarrow> t \<in> set (lists s l) \<longleftrightarrow> fst (g_tasklisttable (task_state (tcbs s t))) = Some l"
  by (simp add: lists_ok_def)

lemma lists_ok_invalid:
  "lists_ok s \<Longrightarrow> task_state (tcbs s t) = TSTATE_TASK_INVALID \<Longrightarrow> t \<notin> set (lists s l)"
  by (simp add: lists_ok_def)

lemma lists_ok_enter:
  assumes ok: "lists_ok s" and inv: "task_state (tcbs s t) = TSTATE_TASK_INVALID"
    and st: "fst (g_tasklisttable st) = Some l"
    and xs: "set xs = insert t (set (lists s l))" "distinct xs"
    and desc: "prioritized l \<Longrightarrow> descending (prio s) xs"
  shows "lists_ok (set_state t st (set_list l xs s))"
proof -
  have "descending (prio (set_state t st (set_list l xs s))) ys = descending (prio s) ys" for ys
    by (rule descending_cong) simp
  with assms show ?thesis
    by (auto simp: lists_ok_def)
qed

lemma lists_ok_leave:
  assumes ok: "lists_ok s" and l: "fst (g_tasklisttable (task_state (tcbs s t))) = Some l"
  shows "lists_ok (set_state t TSTATE_TASK_INVALID (set_list l (remove1 t (lists s l)) s))"
proof -
  let ?s = "set_state t TSTATE_TASK_INVALID (set_list l (remove1 t (lists s l)) s)"
  have "descending (prio ?s) ys = descending (prio s) ys" for ys
    by (rule descending_cong) simp
  with assms show ?thesis
    by (auto simp: lists_ok_def descending_remove1)
qed

lemma lists_ok_restate:
  assumes "lists_ok s" "fst (g_tasklisttable st) = fst (g_tasklisttable (task_state (tcbs s t)))"
  shows "lists_ok (set_state t st s)"
proof -
  have "descending (prio (set_state t st s)) ys = descending (prio s) ys" for ys
    by (rule descending_cong) simp
  with assms show ?thesis by (auto simp: lists_ok_def)
qed

lemma lists_ok_set_prio:
  assumes "lists_ok s" "task_state (tcbs s t) = TSTATE_TASK_INVALID"
  shows "lists_ok (set_prio t p s)"
proof -
  have "descending (prio (set_prio t p s)) (lists s l) = descending (prio s) (lists s l)" for l
    by (rule descending_cong) (use lists_ok_invalid [OF assms, of l] in auto)
  with assms show ?thesis by (auto simp: lists_ok_def)
qed

section \<open>The operations on the task lists keep the invariant\<close>

lemmas core_defs = sched_core_def ready_ok_def prios_ok_def locks_ok_def

lemma prev_of_None: "t \<in> set xs \<Longrightarrow> distinct xs \<Longrightarrow> (prev_of t xs = None) = (t = hd xs)"
  by (induction t xs rule: prev_of.induct) auto

lemma next_of_hd [simp]: "next_of t (t # xs) = firstp None xs"
  by simp

lemma this_task_Cons [simp]: "g_readytorun s = t # ts \<Longrightarrow> this_task s = Some t"
  by (simp add: this_task_def)

lemma this_task_hd: "g_readytorun s \<noteq> [] \<Longrightarrow> this_task s = Some (hd (g_readytorun s))"
  by (simp add: this_task_def split: list.split)

lemma sched_addprioritized_eq:
  "SCHED_PRIORITY_MIN \<le> prio s tcb \<Longrightarrow>
     sched_addprioritized tcb l s =
       Some (lists s l = [] \<or> prio s (hd (lists s l)) < prio s tcb,
             set_list l (prio_insert (prio s) tcb (lists s l)) s)"
  by (cases "lists s l") (auto simp: sched_addprioritized_def prio_insert_def Let_def not_le)

text \<open>What becomes of the ready-to-run list when one task is made ready.\<close>

definition release_one :: "addr \<Rightarrow> 'z kstate_scheme \<Rightarrow> 'z kstate_scheme" where
  "release_one p s =
     (let xs = g_readytorun s
      in if prio s (hd xs) < prio s p
         then set_state p TSTATE_TASK_RUNNING
                (set_state (hd xs) TSTATE_TASK_READYTORUN (set_list ReadyToRun (p # xs) s))
         else set_state p TSTATE_TASK_READYTORUN
                (set_list ReadyToRun (prio_insert (prio s) p xs) s))"

lemma set_state_swap:
  "t \<noteq> u \<Longrightarrow> set_state t st (set_state u su s) = set_state u su (set_state t st s)"
  by (simp add: set_state_def upd_tcb_def fun_upd_twist)

lemma set_list_set_state [simp]:
  "set_list l xs (set_state t st s) = set_state t st (set_list l xs s)"
  by (simp add: set_state_def upd_tcb_def set_list_def)

lemma set_list_set_list [simp]: "set_list l xs (set_list l ys s) = set_list l xs s"
  by (simp add: set_list_def)

lemma set_list_swap: "l \<noteq> m \<Longrightarrow> set_list l xs (set_list m ys s) = set_list m ys (set_list l xs s)"
  by (simp add: set_list_def fun_upd_twist)

lemma set_list_id [simp]: "set_list l (lists s l) s = s"
  by (simp add: set_list_def)

lemma set_state_twice [simp]: "set_state t st (set_state t su s) = set_state t st s"
  by (simp add: set_state_def upd_tcb_def)

lemma sched_addreadytorun_eq:
  assumes "SCHED_PRIORITY_MIN \<le> prio s btcb" "g_readytorun s \<noteq> []" "btcb \<notin> set (g_readytorun s)"
  shows "sched_addreadytorun btcb s =
     (if lockcount (tcbs s (hd (g_readytorun s))) \<noteq> 0 \<and> prio s (hd (g_readytorun s)) < prio s btcb
      then Some (False, set_state btcb TSTATE_TASK_PENDING
                   (set_list PendingTasks (prio_insert (prio s) btcb (g_pendingtasks s)) s))
      else Some (prio s (hd (g_readytorun s)) < prio s btcb, release_one btcb s))"
proof -
  obtain r rs where r: "g_readytorun s = r # rs" "btcb \<noteq> r"
    using assms by (cases "g_readytorun s") auto
  show ?thesis
  proof (cases "prio s r < prio s btcb")
    case True
    with r assms(1) show ?thesis
      by (auto simp: sched_addreadytorun_def this_task_def sched_addprioritized_eq release_one_def
          Let_def prio.ins_head set_state_swap)
  next
    case False
    with r assms(1) show ?thesis
      by (auto simp: sched_addreadytorun_def this_task_def sched_addprioritized_eq release_one_def
          Let_def)
  qed
qed

lemma core_leave:
  assumes "sched_core idle s" "fst (g_tasklisttable (task_state (tcbs s t))) = Some l" "l \<noteq> ReadyToRun"
  shows "sched_core idle (set_state t TSTATE_TASK_INVALID (set_list l (remove1 t (lists s l)) s))"
proof -
  from assms have "t \<notin> set (g_readytorun s)" by (auto simp: sched_core_def lists_ok_member)
  moreover from assms have "lists_ok (set_state t TSTATE_TASK_INVALID (set_list l (remove1 t (lists s l)) s))"
    by (intro lists_ok_leave) (auto simp: sched_core_def)
  ultimately show ?thesis using assms by (auto simp: core_defs)
qed

lemma core_enter:
  assumes core: "sched_core idle s" and inv: "task_state (tcbs s t) = TSTATE_TASK_INVALID"
    and st: "fst (g_tasklisttable st) = Some l" "l \<noteq> ReadyToRun"
    and pr: "SCHED_PRIORITY_MIN \<le> prio s t" "prio s t \<le> SCHED_PRIORITY_MAX"
    and xs: "set xs = insert t (set (lists s l))" "distinct xs"
    and desc: "prioritized l \<Longrightarrow> descending (prio s) xs"
  shows "sched_core idle (set_state t st (set_list l xs s))"
proof -
  from core have ok: "lists_ok s" by (simp add: sched_core_def)
  have "lists_ok (set_state t st (set_list l xs s))"
    using ok inv st(1) xs desc by (rule lists_ok_enter)
  moreover have "t \<notin> set (g_readytorun s)" using lists_ok_invalid [OF ok inv] .
  ultimately show ?thesis using assms by (auto simp: core_defs)
qed

lemma core_set_prio:
  assumes core: "sched_core idle s" and inv: "task_state (tcbs s t) = TSTATE_TASK_INVALID"
  shows "sched_core idle (set_prio t p s)"
proof -
  from core have ok: "lists_ok s" by (simp add: sched_core_def)
  from lists_ok_invalid [OF ok inv] have "t \<notin> set (g_readytorun s)" .
  moreover from this core have "t \<noteq> idle" by (auto simp: core_defs)
  ultimately show ?thesis using core lists_ok_set_prio [OF ok inv] inv by (auto simp: core_defs)
qed

lemma core_release_one:
  assumes core: "sched_core idle s" and inv: "task_state (tcbs s t) = TSTATE_TASK_INVALID"
    and pr: "SCHED_PRIORITY_MIN \<le> prio s t" "prio s t \<le> SCHED_PRIORITY_MAX"
  shows "sched_core idle (release_one t s)"
proof -
  from core have ok: "lists_ok s" by (simp add: sched_core_def)
  from lists_ok_invalid [OF ok inv] have t: "t \<notin> set (g_readytorun s)" .
  obtain r rs where r: "g_readytorun s = r # rs" using core by (cases "g_readytorun s") (auto simp: core_defs)
  have desc: "descending (prio s) (g_readytorun s)" "distinct (g_readytorun s)"
    using ok by (auto simp: lists_ok_def prioritized_def)
  have idle: "last (g_readytorun s) = idle" "prio s idle = 0" using core by (auto simp: core_defs)
  have rt: "task_state (tcbs s r) = TSTATE_TASK_RUNNING" using core r by (auto simp: core_defs)
  show ?thesis
  proof (cases "prio s r < prio s t")
    case True
    have "lists_ok (set_state r TSTATE_TASK_READYTORUN s)"
      using ok by (rule lists_ok_restate) (simp add: rt)
    then have "lists_ok (set_state t TSTATE_TASK_RUNNING
        (set_list ReadyToRun (t # r # rs) (set_state r TSTATE_TASK_READYTORUN s)))"
      by (rule lists_ok_enter) (use t r inv desc True in \<open>auto intro: order.trans less_imp_le\<close>)
    with True r core t pr inv show ?thesis
      by (auto simp: release_one_def Let_def core_defs)
  next
    case False
    have "lists_ok (set_state t TSTATE_TASK_READYTORUN
        (set_list ReadyToRun (prio_insert (prio s) t (g_readytorun s)) s))"
      using ok inv by (rule lists_ok_enter)
        (simp_all add: prio.set_ins prio.distinct_ins prio.descending_ins t desc)
    moreover have "last (prio_insert (prio s) t (g_readytorun s)) = idle"
      using prio.last_ins [of "g_readytorun s" "prio s" t] idle pr r by (simp add: SCHED_PRIORITY_MIN_def)
    moreover have "hd (prio_insert (prio s) t (g_readytorun s)) = r"
      using False r by (simp add: prio.hd_ins)
    ultimately show ?thesis using False r core t pr inv
      by (auto simp: release_one_def Let_def core_defs prio.set_ins prio.ins_neq_Nil)
  qed
qed

section \<open>Merging the pending tasks\<close>

lemma release_one_obs [simp]:
  "prio (release_one p s) t = prio s t"
  "lockcount (tcbs (release_one p s) t) = lockcount (tcbs s t)"
  "g_readytorun (release_one p s) =
     (if prio s (hd (g_readytorun s)) < prio s p then p # g_readytorun s
      else prio_insert (prio s) p (g_readytorun s))"
  "l \<noteq> ReadyToRun \<Longrightarrow> lists (release_one p s) l = lists s l"
  "current_regs (release_one p s) = current_regs s"
  by (auto simp: release_one_def Let_def)

lemma release_one_set_list:
  "release_one p (set_list PendingTasks xs s) = set_list PendingTasks xs (release_one p s)"
  by (simp add: release_one_def Let_def set_list_swap [of PendingTasks ReadyToRun])

lemma fold_release_one_set_list:
  "fold release_one ps (set_list PendingTasks xs s) = set_list PendingTasks xs (fold release_one ps s)"
  by (induction ps arbitrary: s) (simp_all add: release_one_set_list)

lemma release_one_invalid:
  "p \<noteq> hd (g_readytorun s) \<Longrightarrow> release_one p (set_state p TSTATE_TASK_INVALID s) = release_one p s"
  by (simp add: release_one_def Let_def set_state_swap)

lemma prio_insert_split:
  assumes "\<forall>b \<in> set bs. key p \<le> key b"
  shows "prio_insert key p (bs @ xs) =
     bs @ takeWhile (\<lambda>y. key p \<le> key y) xs @ p # dropWhile (\<lambda>y. key p \<le> key y) xs"
  using assms by (simp add: prio_insert_def takeWhile_append2 dropWhile_append2)

text \<open>
  One iteration: the task goes where a search from the head of the list would have put it, and its
  state and that of the old head change as in \<open>release_one\<close>.
\<close>

lemma mergepending_step:
  assumes low: "rest \<noteq> []" "prio s (last rest) < prio s p"
    and bef: "\<forall>b \<in> set before. prio s p \<le> prio s b"
    and fresh: "p \<notin> set before" "p \<notin> set rest"
  defines "before' \<equiv> before @ takeWhile (\<lambda>r. prio s p \<le> prio s r) rest"
    and "rest' \<equiv> p # dropWhile (\<lambda>r. prio s p \<le> prio s r) rest"
    and "nh \<equiv> before = [] \<and> prio s (hd rest) < prio s p"
  shows "\<exists>s'. mergepending_loop (p # ps) before rest ret s =
           mergepending_loop ps before' rest' (ret \<or> nh) s'
     \<and> set_list ReadyToRun (before' @ rest') s' = release_one p (set_list ReadyToRun (before @ rest) s)
     \<and> prio s' = prio s \<and> last rest' = last rest"
proof -
  let ?dw = "dropWhile (\<lambda>r. prio s p \<le> prio s r) rest"
  from low have dw: "?dw \<noteq> []" by (auto simp: dropWhile_eq_Nil_conv not_le)
  then have lst: "last rest' = last rest"
    unfolding rest'_def by (metis last_ConsR last_appendR takeWhile_dropWhile_id)
  have ins: "prio_insert (prio s) p (before @ rest) = before' @ rest'"
    unfolding before'_def rest'_def using prio_insert_split [OF bef, of rest] by simp
  show ?thesis
  proof (cases "before' = []")
    case True
    then have "before = []" "?dw = rest" "prio s (hd rest) < prio s p" "nh"
      using low(1) by (auto simp: before'_def nh_def neq_Nil_conv not_le split: if_splits)
    then show ?thesis
      using low(1) fresh True dw lst
      by (intro exI [of _ "set_state p TSTATE_TASK_RUNNING (set_state (hd rest) TSTATE_TASK_READYTORUN s)"])
        (auto simp: release_one_def Let_def before'_def rest'_def neq_Nil_conv split: list.split)
  next
    case False
    then have "\<not> prio s (hd (before @ rest)) < prio s p" "\<not> nh"
      using bef low(1) unfolding before'_def nh_def
      by (cases before; cases rest; auto simp: not_less split: if_splits)+
    then show ?thesis
      using False dw lst ins
      by (intro exI [of _ "set_state p TSTATE_TASK_READYTORUN s"])
        (auto simp: release_one_def Let_def before'_def rest'_def split: list.split)
  qed
qed

lemma mergepending_loop_eq:
  "rest \<noteq> [] \<Longrightarrow> \<forall>p \<in> set ps. prio s (last rest) < prio s p \<Longrightarrow> descending (prio s) ps \<Longrightarrow>
     \<forall>b \<in> set before. \<forall>p \<in> set ps. prio s p \<le> prio s b \<Longrightarrow> distinct ps \<Longrightarrow>
     set ps \<inter> set (before @ rest) = {} \<Longrightarrow>
     mergepending_loop ps before rest ret s =
       Some (ret \<or> (ps \<noteq> [] \<and> before = [] \<and> prio s (hd rest) < prio s (hd ps)),
             fold release_one ps (set_list ReadyToRun (before @ rest) s))"
proof (induction ps arbitrary: before rest ret s)
  case Nil
  then show ?case by simp
next
  case (Cons p ps)
  let ?before = "before @ takeWhile (\<lambda>r. prio s p \<le> prio s r) rest"
  let ?rest = "p # dropWhile (\<lambda>r. prio s p \<le> prio s r) rest"
  let ?nh = "before = [] \<and> prio s (hd rest) < prio s p"
  obtain s' where s': "mergepending_loop (p # ps) before rest ret s =
        mergepending_loop ps ?before ?rest (ret \<or> ?nh) s'"
      "set_list ReadyToRun (?before @ ?rest) s' = release_one p (set_list ReadyToRun (before @ rest) s)"
      "prio s' = prio s" "last ?rest = last rest"
    using mergepending_step [of rest s p before ps ret] Cons.prems by auto
  have pr: "\<And>x. prio s' x = prio s x" using s'(3) by (metis (full_types))
  have sub: "set (takeWhile (\<lambda>r. prio s p \<le> prio s r) rest) \<subseteq> set rest"
    "set (dropWhile (\<lambda>r. prio s p \<le> prio s r) rest) \<subseteq> set rest"
    by (auto dest: set_takeWhileD set_dropWhileD)
  have "mergepending_loop ps ?before ?rest (ret \<or> ?nh) s' =
      Some ((ret \<or> ?nh) \<or> (ps \<noteq> [] \<and> ?before = [] \<and> prio s' (hd ?rest) < prio s' (hd ps)),
        fold release_one ps (set_list ReadyToRun (?before @ ?rest) s'))"
  proof (rule Cons.IH)
    show "\<forall>q \<in> set ps. prio s' (last ?rest) < prio s' q"
      using Cons.prems(2) by (simp only: pr s'(4)) simp
    show "descending (prio s') ps" using Cons.prems(3) by (simp add: s'(3))
    show "\<forall>b \<in> set ?before. \<forall>q \<in> set ps. prio s' q \<le> prio s' b"
      using Cons.prems(3,4) by (auto simp: pr dest!: set_takeWhileD)
    show "set ps \<inter> set (?before @ ?rest) = {}" using Cons.prems(5,6) sub by auto
  qed (use Cons.prems in auto)
  moreover have "(ps \<noteq> [] \<and> ?before = [] \<and> prio s' (hd ?rest) < prio s' (hd ps)) = False"
    using Cons.prems(3) by (auto simp: pr neq_Nil_conv)
  ultimately show ?case
    by (simp only: s'(1,2) list.sel fold_simps list.distinct not_False_eq_True simp_thms)
qed

lemma core_ready:
  assumes "sched_core idle s"
  shows "g_readytorun s \<noteq> []" "distinct (g_readytorun s)" "descending (prio s) (g_readytorun s)"
    "last (g_readytorun s) = idle" "prio s idle = 0"
  using assms by (auto simp: core_defs lists_ok_def prioritized_def)

lemma core_lists:
  assumes "sched_core idle s"
  shows "lists_ok s" "distinct (lists s l)" "prioritized l \<Longrightarrow> descending (prio s) (lists s l)"
  using assms by (auto simp: core_defs lists_ok_def)

lemma core_prio:
  assumes "sched_core idle s" "task_state (tcbs s t) \<noteq> TSTATE_TASK_INVALID" "t \<noteq> idle"
  shows "SCHED_PRIORITY_MIN \<le> prio s t" "prio s t \<le> SCHED_PRIORITY_MAX"
  using assms by (auto simp: core_defs)

lemma core_idle_ready: "sched_core idle s \<Longrightarrow> idle \<in> set (g_readytorun s)"
  using core_ready [of idle s] last_in_set [of "g_readytorun s"] by simp

lemma core_pending:
  assumes "sched_core idle s" "p \<in> set (g_pendingtasks s)"
  shows "task_state (tcbs s p) = TSTATE_TASK_PENDING" "p \<notin> set (g_readytorun s)" "p \<noteq> idle"
    "SCHED_PRIORITY_MIN \<le> prio s p" "prio s p \<le> SCHED_PRIORITY_MAX"
proof -
  show st: "task_state (tcbs s p) = TSTATE_TASK_PENDING"
    using assms by (auto simp: core_defs lists_ok_member pending_table)
  with assms(1) show "p \<notin> set (g_readytorun s)" by (auto simp: core_defs lists_ok_member)
  with core_idle_ready [OF assms(1)] show "p \<noteq> idle" by auto
  with core_prio [OF assms(1), of p] st
  show "SCHED_PRIORITY_MIN \<le> prio s p" "prio s p \<le> SCHED_PRIORITY_MAX" by simp_all
qed

text \<open>
  The single pass of \<open>sched_mergepending\<close> has the effect of making the pending tasks ready one after
  the other, each by a search from the head of the list.
\<close>

lemma sched_mergepending_eq:
  assumes core: "sched_core idle s"
  shows "sched_mergepending s =
     Some (g_pendingtasks s \<noteq> [] \<and> prio s (hd (g_readytorun s)) < prio s (hd (g_pendingtasks s)),
           set_list PendingTasks [] (fold release_one (g_pendingtasks s) s))"
proof -
  have pend: "distinct (g_pendingtasks s)" "descending (prio s) (g_pendingtasks s)"
    using core_lists [OF core] by (auto simp: prioritized_def)
  have "\<forall>p \<in> set (g_pendingtasks s). prio s (last (g_readytorun s)) < prio s p"
    using core_pending [OF core] core_ready [OF core] by (fastforce simp: SCHED_PRIORITY_MIN_def)
  moreover have "set (g_pendingtasks s) \<inter> set ([] @ g_readytorun s) = {}"
    using core_pending [OF core] by auto
  ultimately have "mergepending_loop (g_pendingtasks s) [] (g_readytorun s) False s =
      Some (False \<or> (g_pendingtasks s \<noteq> [] \<and> ([]::addr list) = [] \<and>
              prio s (hd (g_readytorun s)) < prio s (hd (g_pendingtasks s))),
        fold release_one (g_pendingtasks s) (set_list ReadyToRun ([] @ g_readytorun s) s))"
    using core_ready [OF core] pend by (intro mergepending_loop_eq) auto
  then show ?thesis by (simp add: sched_mergepending_def)
qed

lemma core_release_pending:
  assumes core: "sched_core idle s" and pend: "g_pendingtasks s = p # ps"
  shows "sched_core idle (set_list PendingTasks ps (release_one p s))"
proof -
  let ?t = "set_state p TSTATE_TASK_INVALID (set_list PendingTasks ps s)"
  have p: "task_state (tcbs s p) = TSTATE_TASK_PENDING" "p \<notin> set (g_readytorun s)"
    "SCHED_PRIORITY_MIN \<le> prio s p" "prio s p \<le> SCHED_PRIORITY_MAX"
    using core_pending [OF core, of p] pend by simp_all
  have "sched_core idle ?t"
    using core_leave [OF core, of p PendingTasks] p(1) pend by simp
  then have "sched_core idle (release_one p ?t)"
    by (rule core_release_one) (use p in simp_all)
  moreover have "p \<noteq> hd (g_readytorun s)"
    using p(2) core_ready(1) [OF core] by (metis hd_in_set)
  ultimately show ?thesis
    by (simp add: release_one_invalid release_one_set_list)
qed

lemma core_mergepending:
  "sched_core idle s \<Longrightarrow> sched_core idle (set_list PendingTasks [] (fold release_one (g_pendingtasks s) s))"
proof (induction "g_pendingtasks s" arbitrary: s)
  case Nil
  then have "set_list PendingTasks [] s = s" by (simp add: set_list_def fun_upd_idem)
  with Nil show ?case by (metis fold_simps(1))
next
  case (Cons p ps)
  let ?t = "set_list PendingTasks ps (release_one p s)"
  from Cons have "sched_core idle ?t" by (intro core_release_pending) auto
  with Cons.hyps(1) [of ?t]
  have "sched_core idle (set_list PendingTasks [] (fold release_one ps ?t))" by simp
  with Cons.hyps(2) show ?case by (simp add: fold_release_one_set_list flip: Cons.hyps(2))
qed

section \<open>Leaving the ready-to-run list\<close>

lemma sched_removereadytorun_hd:
  assumes core: "sched_core idle s" and hd: "g_readytorun s = t # ts" and "t \<noteq> idle"
  shows "\<exists>n ns. ts = n # ns
     \<and> sched_removereadytorun t s =
         Some (True, set_state t TSTATE_TASK_INVALID
                      (set_state n TSTATE_TASK_RUNNING (set_list ReadyToRun (n # ns) s)))
     \<and> sched_core idle (set_state t TSTATE_TASK_INVALID
                      (set_state n TSTATE_TASK_RUNNING (set_list ReadyToRun (n # ns) s)))"
proof -
  obtain n ns where ts: "ts = n # ns" using core_ready(4) [OF core] hd assms(3) by (cases ts) auto
  have neq: "t \<noteq> n" "t \<notin> set ns" using core_ready(2) [OF core] hd ts by auto
  let ?s = "set_state t TSTATE_TASK_INVALID (set_state n TSTATE_TASK_RUNNING (set_list ReadyToRun (n # ns) s))"
  have st: "task_state (tcbs s t) = TSTATE_TASK_RUNNING"
    using core hd by (simp add: core_defs)
  have st': "fst (g_tasklisttable (task_state (tcbs s n))) = Some ReadyToRun"
    using hd ts by (simp flip: lists_ok_member [OF core_lists(1) [OF core]])
  have "lists_ok (set_state n TSTATE_TASK_RUNNING s)"
    using core_lists(1) [OF core] by (rule lists_ok_restate) (simp add: st')
  from lists_ok_leave [OF this, of t ReadyToRun] have "lists_ok ?s"
    using hd ts neq st by simp
  moreover have "n \<notin> set ns" using core_ready(2) [OF core] hd ts by simp
  then have "ready_ok idle ?s"
    using core unfolding sched_core_def ready_ok_def by (auto simp add: hd ts neq neq(1) [symmetric])
  moreover have "task_state (tcbs s n) \<noteq> TSTATE_TASK_INVALID" using st' by auto
  then have "prios_ok idle ?s" "locks_ok ?s" using core by (simp_all add: core_defs)
  ultimately have "sched_core idle ?s" by (simp add: sched_core_def)
  moreover have "sched_removereadytorun t s = Some (True, ?s)"
    using hd ts neq by (simp add: sched_removereadytorun_def)
  ultimately show ?thesis using ts by blast
qed

lemma sched_removereadytorun_tl:
  assumes core: "sched_core idle s" and t: "t \<in> set (g_readytorun s)" "t \<noteq> hd (g_readytorun s)" "t \<noteq> idle"
  defines "s' \<equiv> set_state t TSTATE_TASK_INVALID (set_list ReadyToRun (remove1 t (g_readytorun s)) s)"
  shows "sched_removereadytorun t s = Some (False, s')" "sched_core idle s'"
    "hd (g_readytorun s') = hd (g_readytorun s)"
proof -
  have "prev_of t (g_readytorun s) \<noteq> None"
    using prev_of_None [OF t(1) core_ready(2) [OF core]] t(2) by simp
  then show "sched_removereadytorun t s = Some (False, s')"
    by (auto simp: sched_removereadytorun_def s'_def)
  have "lists_ok s'" unfolding s'_def
    using core_lists(1) [OF core] t(1) lists_ok_leave lists_ok_member by blast
  moreover obtain r rs where r: "g_readytorun s = r # rs" "t \<noteq> r" using t by (cases "g_readytorun s") auto
  moreover have "rs \<noteq> []" "last (remove1 t rs) = last rs" "remove1 t rs \<noteq> []"
  proof -
    show "rs \<noteq> []" using t r by auto
    then obtain ys where rs: "rs = ys @ [idle]" using core_ready(4) [OF core] r
      by (metis append_butlast_last_id last_ConsR)
    then show "last (remove1 t rs) = last rs" "remove1 t rs \<noteq> []"
      using t(3) by (auto simp: remove1_append)
  qed
  ultimately show "sched_core idle s'" "hd (g_readytorun s') = hd (g_readytorun s)"
    using core core_ready(2) [OF core] by (auto simp: core_defs s'_def dest: notin_set_remove1)
qed
end
