(* ===== verification/Sched_Ops.thy ===== *)
theory Sched_Ops
  imports Sched_Inv
begin

text \<open>
  The scheduler operations, one by one: each returns from every state that satisfies the invariant, and
  its result satisfies it again. The lemmas also say what the operation leaves alone, so that the
  components on top of the scheduler need no other fact about it.
\<close>

section \<open>What the scheduler leaves alone\<close>

text \<open>
  The state without the task lists, the task states and the priorities. Two states that agree on it
  differ only in what the scheduler itself owns.
\<close>

definition sched_rest :: "'z kstate_scheme \<Rightarrow> 'z kstate_scheme" where
  "sched_rest s =
     s\<lparr>tcbs := (\<lambda>a. (tcbs s a)\<lparr>task_state := TSTATE_TASK_INVALID, sched_priority := 0\<rparr>), lists := (\<lambda>_. [])\<rparr>"

lemma sched_rest_set [simp]:
  "sched_rest (set_list l xs s) = sched_rest s"
  "sched_rest (set_state t st s) = sched_rest s"
  "sched_rest (set_prio t p s) = sched_rest s"
  by (auto simp: sched_rest_def set_list_def set_state_def set_prio_def upd_tcb_def fun_eq_iff)

lemma sched_rest_release_one [simp]: "sched_rest (release_one p s) = sched_rest s"
  by (simp add: release_one_def Let_def)

lemma sched_rest_fold [simp]: "sched_rest (fold release_one ps s) = sched_rest s"
  by (induction ps arbitrary: s) simp_all

lemma sched_rest_obs:
  "pid (tcbs (sched_rest s) a) = pid (tcbs s a)"
  "npend_reprio (tcbs (sched_rest s) a) = npend_reprio (tcbs s a)"
  "pend_reprios (tcbs (sched_rest s) a) = pend_reprios (tcbs s a)"
  "base_priority (tcbs (sched_rest s) a) = base_priority (tcbs s a)"
  "flags (tcbs (sched_rest s) a) = flags (tcbs s a)"
  "lockcount (tcbs (sched_rest s) a) = lockcount (tcbs s a)"
  "timeslice (tcbs (sched_rest s) a) = timeslice (tcbs s a)"
  "waitsem (tcbs (sched_rest s) a) = waitsem (tcbs s a)"
  "msgwaitq (tcbs (sched_rest s) a) = msgwaitq (tcbs s a)"
  "pterrno (tcbs (sched_rest s) a) = pterrno (tcbs s a)"
  "g_pidhash (sched_rest s) = g_pidhash s" "g_lastpid (sched_rest s) = g_lastpid s"
  "current_regs (sched_rest s) = current_regs s" "g_irqerrno (sched_rest s) = g_irqerrno s"
  "kstate.more (sched_rest s) = kstate.more s"
  "waitdog (tcbs (sched_rest s) a) = waitdog (tcbs s a)"
  by (simp_all add: sched_rest_def)

lemma sched_rest_fields:
  assumes "sched_rest s' = sched_rest s"
  shows "pid (tcbs s' a) = pid (tcbs s a)" "npend_reprio (tcbs s' a) = npend_reprio (tcbs s a)"
    "pend_reprios (tcbs s' a) = pend_reprios (tcbs s a)" "base_priority (tcbs s' a) = base_priority (tcbs s a)"
    "flags (tcbs s' a) = flags (tcbs s a)" "lockcount (tcbs s' a) = lockcount (tcbs s a)"
    "timeslice (tcbs s' a) = timeslice (tcbs s a)" "waitsem (tcbs s' a) = waitsem (tcbs s a)"
    "msgwaitq (tcbs s' a) = msgwaitq (tcbs s a)" "pterrno (tcbs s' a) = pterrno (tcbs s a)"
    "g_pidhash s' = g_pidhash s" "g_lastpid s' = g_lastpid s" "current_regs s' = current_regs s"
    "g_irqerrno s' = g_irqerrno s" "kstate.more s' = kstate.more s" "waitdog (tcbs s' a) = waitdog (tcbs s a)"
  by (simp_all only: sched_rest_obs [of s', symmetric] assms sched_rest_obs [of s])

section \<open>Merging, blocking and unblocking\<close>

lemma fold_release_one_obs [simp]:
  "prio (fold release_one ps s) t = prio s t"
  "l \<noteq> ReadyToRun \<Longrightarrow> lists (fold release_one ps s) l = lists s l"
  by (induction ps arbitrary: s) simp_all

lemma mset_fold_release_one:
  "mset (g_readytorun (fold release_one ps s)) = mset ps + mset (g_readytorun s)"
  by (induction ps arbitrary: s) (simp_all add: prio.mset_ins)

lemma hd_fold_release_one:
  "g_readytorun s \<noteq> [] \<Longrightarrow> \<forall>p \<in> set ps. prio s p \<le> prio s (hd (g_readytorun s)) \<Longrightarrow>
     hd (g_readytorun (fold release_one ps s)) = hd (g_readytorun s)"
proof (induction ps arbitrary: s)
  case Nil
  then show ?case by simp
next
  case (Cons p ps)
  then show ?case by (simp add: prio.hd_ins prio.ins_neq_Nil)
qed

text \<open>Two states with the same blocked lists, and what a change of the runnable tasks leaves alone.\<close>

definition same_blocked :: "'z kstate_scheme \<Rightarrow> 'z kstate_scheme \<Rightarrow> bool" where
  "same_blocked s s' = (\<forall>l. l \<noteq> ReadyToRun \<longrightarrow> l \<noteq> PendingTasks \<longrightarrow> lists s' l = lists s l)"

abbreviation runnable :: "'z kstate_scheme \<Rightarrow> addr multiset" where
  "runnable s \<equiv> mset (g_readytorun s) + mset (g_pendingtasks s)"

text \<open>What an operation that moves tasks but sets no priority leaves alone.\<close>

definition sched_kept :: "'z kstate_scheme \<Rightarrow> 'z kstate_scheme \<Rightarrow> bool" where
  "sched_kept s s' = (sched_rest s' = sched_rest s \<and> (\<forall>t. prio s' t = prio s t))"

lemma sched_kept_refl [simp]: "sched_kept s s"
  by (simp add: sched_kept_def)

lemma sched_kept_trans: "sched_kept s s' \<Longrightarrow> sched_kept s' s'' \<Longrightarrow> sched_kept s s''"
  by (simp add: sched_kept_def)

lemma sched_kept_set [simp]:
  "sched_kept s (set_list l xs s)" "sched_kept s (set_state t st s)"
  "sched_kept s s' \<Longrightarrow> sched_kept s (set_list l xs s')"
  "sched_kept s s' \<Longrightarrow> sched_kept s (set_state t st s')"
  by (simp_all add: sched_kept_def)

lemma sched_kept_prio: "sched_kept s s' \<Longrightarrow> prio s' t = prio s t"
  by (simp add: sched_kept_def)

lemma sched_kept_lock: "sched_kept s s' \<Longrightarrow> lockcount (tcbs s' t) = lockcount (tcbs s t)"
  by (rule sched_rest_fields) (simp add: sched_kept_def)

lemma sched_mergepending_post:
  assumes core: "sched_core idle s"
  shows "\<exists>sw s'. sched_mergepending s = Some (sw, s') \<and> sched_core idle s'
     \<and> g_pendingtasks s' = [] \<and> mset (g_readytorun s') = runnable s
     \<and> (sw = (hd (g_readytorun s') \<noteq> hd (g_readytorun s)))
     \<and> same_blocked s s' \<and> sched_kept s s'"
proof -
  let ?s' = "set_list PendingTasks [] (fold release_one (g_pendingtasks s) s)"
  let ?sw = "g_pendingtasks s \<noteq> [] \<and> prio s (hd (g_readytorun s)) < prio s (hd (g_pendingtasks s))"
  have core': "sched_core idle ?s'" by (rule core_mergepending [OF core])
  have m: "mset (g_readytorun ?s') = runnable s" by (simp add: mset_fold_release_one)
  have "?sw = (hd (g_readytorun ?s') \<noteq> hd (g_readytorun s))"
  proof (cases ?sw)
    case True
    then have "hd (g_pendingtasks s) \<in> set (g_readytorun ?s')"
      using m by (metis add.commute hd_in_set set_mset_mset union_iff)
    then have "prio s (hd (g_pendingtasks s)) \<le> prio s (hd (g_readytorun ?s'))"
      using descending_hd_max core_ready(3) [OF core'] by fastforce
    with True show ?thesis by auto
  next
    case False
    then have "\<forall>p \<in> set (g_pendingtasks s). prio s p \<le> prio s (hd (g_readytorun s))"
      using core_lists(3) [OF core, of PendingTasks] descending_hd_max [of "prio s" "g_pendingtasks s"]
      by (fastforce simp: prioritized_def)
    then have "hd (g_readytorun ?s') = hd (g_readytorun s)"
      using core_ready(1) [OF core] by (simp add: hd_fold_release_one)
    with False show ?thesis by simp
  qed
  with core' m show ?thesis
    by (auto simp: sched_mergepending_eq [OF core] same_blocked_def sched_kept_def)
qed

lemma sched_removereadytorun_post:
  assumes core: "sched_core idle s" and t: "t \<in> set (g_readytorun s)" "t \<noteq> idle"
  obtains s' where "sched_removereadytorun t s = Some (t = hd (g_readytorun s), s')" "sched_core idle s'"
    "lists s' = (lists s)(ReadyToRun := remove1 t (g_readytorun s))"
    "task_state (tcbs s' t) = TSTATE_TASK_INVALID" "sched_kept s s'"
proof (cases "t = hd (g_readytorun s)")
  case True
  then obtain ts where ts: "g_readytorun s = t # ts"
    using core_ready(1) [OF core] by (cases "g_readytorun s") auto
  from sched_removereadytorun_hd [OF core ts t(2)] obtain n ns where ns: "ts = n # ns"
    "sched_removereadytorun t s = Some (True, set_state t TSTATE_TASK_INVALID
        (set_state n TSTATE_TASK_RUNNING (set_list ReadyToRun (n # ns) s)))"
    "sched_core idle (set_state t TSTATE_TASK_INVALID
        (set_state n TSTATE_TASK_RUNNING (set_list ReadyToRun (n # ns) s)))" by blast
  show ?thesis by (rule that [OF _ ns(3)]) (use ns ts in simp_all)
next
  case False
  note tl = sched_removereadytorun_tl [OF core t(1) False t(2)]
  show ?thesis by (rule that [OF _ tl(2)]) (use tl(1) False in simp_all)
qed

lemma sched_addblocked_post:
  assumes core: "sched_core idle s" and inv: "task_state (tcbs s t) = TSTATE_TASK_INVALID"
    and st: "blocked_state st" "fst (g_tasklisttable st) = Some l"
    and pr: "SCHED_PRIORITY_MIN \<le> prio s t" "prio s t \<le> SCHED_PRIORITY_MAX"
  obtains s' where "sched_addblocked t st s = Some s'" "sched_core idle s'"
    "lists s' = (lists s)(l := (if prioritized l then prio_insert (prio s) t (lists s l) else lists s l @ [t]))"
    "task_state (tcbs s' t) = st" "sched_kept s s'"
proof -
  let ?xs = "if prioritized l then prio_insert (prio s) t (lists s l) else lists s l @ [t]"
  let ?s' = "set_state t st (set_list l ?xs s)"
  have l: "l \<noteq> ReadyToRun" using st by (cases st) auto
  have "t \<notin> set (lists s l)" using core inv by (simp add: core_defs lists_ok_invalid)
  then have "sched_core idle ?s'"
    using core_lists(2,3) [OF core, of l]
    by (intro core_enter [OF core inv st(2) l pr]) (auto simp: prio.set_ins prio.distinct_ins prio.descending_ins)
  moreover have "sched_addblocked t st s = Some ?s'"
    using st pr by (simp add: sched_addblocked_def table_prioritized sched_addprioritized_eq)
  ultimately show ?thesis using that [of ?s'] by simp
qed

lemma sched_merge_if_pending:
  assumes core: "sched_core idle s"
  obtains sw s' where "(if g_pendingtasks s \<noteq> [] then sched_mergepending s else Some (False, s)) = Some (sw, s')"
    "sched_core idle s'" "g_pendingtasks s' = []" "mset (g_readytorun s') = runnable s"
    "sw = (hd (g_readytorun s') \<noteq> hd (g_readytorun s))" "same_blocked s s'" "sched_kept s s'"
proof (cases "g_pendingtasks s = []")
  case True
  then show ?thesis by (intro that [of False s]) (simp_all add: same_blocked_def core)
next
  case False
  from sched_mergepending_post [OF core] obtain sw s' where s': "sched_mergepending s = Some (sw, s')"
    "sched_core idle s'" "g_pendingtasks s' = []" "mset (g_readytorun s') = runnable s"
    "sw = (hd (g_readytorun s') \<noteq> hd (g_readytorun s))" "same_blocked s s'"
    "sched_kept s s'" by blast
  show ?thesis by (rule that [OF _ s'(2-7)]) (use False s'(1) in simp)
qed

lemma pend_ok_Nil [simp]: "g_pendingtasks s = [] \<Longrightarrow> pend_ok s"
  by (simp add: pend_ok_def)

text \<open>
  \<open>up_block_task\<close>: the task goes to the list of its new state, every pending task becomes ready, and a
  switch is made exactly when the head of the ready-to-run list changes.
\<close>

lemma up_block_task_post:
  assumes inv: "sched_inv idle s" and t: "t \<in> set (g_readytorun s)" "t \<noteq> idle"
    and st: "blocked_state st" "fst (g_tasklisttable st) = Some l"
  obtains sw s' where "up_block_task t st s = Some (sw, s')" "sched_inv idle s'" "g_pendingtasks s' = []"
    "mset (g_readytorun s') = runnable s - {#t#}"
    "sw = (hd (g_readytorun s') \<noteq> hd (g_readytorun s))"
    "lists s' l = (if prioritized l then prio_insert (prio s) t (lists s l) else lists s l @ [t])"
    "\<forall>m. m \<noteq> l \<longrightarrow> m \<noteq> ReadyToRun \<longrightarrow> m \<noteq> PendingTasks \<longrightarrow> lists s' m = lists s m"
    "sched_kept s s'"
proof -
  from inv have core: "sched_core idle s" by (simp add: sched_inv_def)
  have rdy: "ready_state (task_state (tcbs s t))"
    using core t by (simp add: core_defs lists_ok_member ready_table)
  have pr: "SCHED_PRIORITY_MIN \<le> prio s t" "prio s t \<le> SCHED_PRIORITY_MAX"
    by (rule core_prio [OF core _ t(2)]; use rdy in auto)+
  have l: "l \<noteq> ReadyToRun" "l \<noteq> PendingTasks" using st by (cases st; auto)+
  obtain s1 where s1: "sched_removereadytorun t s = Some (t = hd (g_readytorun s), s1)" "sched_core idle s1"
    "lists s1 = (lists s)(ReadyToRun := remove1 t (g_readytorun s))"
    "task_state (tcbs s1 t) = TSTATE_TASK_INVALID" "sched_kept s s1"
    by (rule sched_removereadytorun_post [OF core t])
  have ps1: "prio s1 = prio s" using sched_kept_prio [OF s1(5)] by blast
  obtain s2 where s2: "sched_addblocked t st s1 = Some s2" "sched_core idle s2"
    "lists s2 = (lists s1)(l := (if prioritized l then prio_insert (prio s1) t (lists s1 l) else lists s1 l @ [t]))"
    "task_state (tcbs s2 t) = st" "sched_kept s1 s2"
    by (rule sched_addblocked_post [OF s1(2,4) st]) (simp_all add: sched_kept_prio [OF s1(5)] pr)
  obtain sw s3 where s3: "(if g_pendingtasks s2 \<noteq> [] then sched_mergepending s2 else Some (False, s2)) = Some (sw, s3)"
    "sched_core idle s3" "g_pendingtasks s3 = []" "mset (g_readytorun s3) = runnable s2"
    "sw = (hd (g_readytorun s3) \<noteq> hd (g_readytorun s2))" "same_blocked s2 s3" "sched_kept s2 s3"
    by (rule sched_merge_if_pending [OF s2(2)])
  have l3: "lists s3 l = (if prioritized l then prio_insert (prio s) t (lists s l) else lists s l @ [t])"
    using s3(6) l by (simp add: same_blocked_def s2(3) s1(3) ps1)
  then have "t \<in> set (lists s3 l)" by (simp add: prio.set_ins)
  then have notin: "t \<notin> set (g_readytorun s3)"
    using core_lists(1) [OF s3(2)] l by (simp add: lists_ok_member)
  show ?thesis
  proof (rule that)
    show "up_block_task t st s = Some (t = hd (g_readytorun s) \<or> sw, s3)"
      using rdy s1(1) s2(1) s3(1) by (simp add: up_block_task_def)
    show "sched_inv idle s3" using s3(2,3) by (simp add: sched_inv_def)
    show "g_pendingtasks s3 = []" "lists s3 l = (if prioritized l then prio_insert (prio s) t (lists s l) else lists s l @ [t])"
      by fact+
    show "mset (g_readytorun s3) = runnable s - {#t#}"
      using s3(4) t(1) l by (simp add: s2(3) s1(3))
    show "\<forall>m. m \<noteq> l \<longrightarrow> m \<noteq> ReadyToRun \<longrightarrow> m \<noteq> PendingTasks \<longrightarrow> lists s3 m = lists s m"
      using s3(6) by (simp add: same_blocked_def s2(3) s1(3))
    show "sched_kept s s3" using s1(5) s2(5) s3(7) by (blast intro: sched_kept_trans)
    show "(t = hd (g_readytorun s) \<or> sw) = (hd (g_readytorun s3) \<noteq> hd (g_readytorun s))"
    proof (cases "t = hd (g_readytorun s)")
      case True
      with notin hd_in_set [OF core_ready(1) [OF s3(2)]] show ?thesis by auto
    next
      case False
      then have "hd (remove1 t (g_readytorun s)) = hd (g_readytorun s)"
        using core_ready(1) [OF core] by (cases "g_readytorun s") auto
      with False s3(5) l show ?thesis by (simp add: s2(3) s1(3))
    qed
  qed
qed

section \<open>Making a task ready\<close>

lemma mset_release_one: "mset (g_readytorun (release_one p s)) = add_mset p (mset (g_readytorun s))"
  by (simp add: prio.mset_ins)

lemma sched_addreadytorun_post:
  assumes core: "sched_core idle s" and inv: "task_state (tcbs s t) = TSTATE_TASK_INVALID"
    and pr: "SCHED_PRIORITY_MIN \<le> prio s t" "prio s t \<le> SCHED_PRIORITY_MAX"
  obtains sw s' where "sched_addreadytorun t s = Some (sw, s')" "sched_core idle s'" "sched_kept s s'"
    "same_blocked s s'" "runnable s' = add_mset t (runnable s)"
    "hd (g_readytorun s') = (if sw then t else hd (g_readytorun s))"
    "sw = (lockcount (tcbs s (hd (g_readytorun s))) = 0 \<and> prio s (hd (g_readytorun s)) < prio s t)"
    "g_pendingtasks s' \<noteq> g_pendingtasks s \<Longrightarrow>
       lockcount (tcbs s (hd (g_readytorun s))) \<noteq> 0 \<and> prio s (hd (g_readytorun s)) < prio s t"
proof -
  let ?h = "hd (g_readytorun s)"
  have t: "t \<notin> set (lists s l)" for l using core inv by (simp add: core_defs lists_ok_invalid)
  note eq = sched_addreadytorun_eq [OF pr(1) core_ready(1) [OF core] t]
  show ?thesis
  proof (cases "lockcount (tcbs s ?h) \<noteq> 0 \<and> prio s ?h < prio s t")
    case True
    let ?s = "set_state t TSTATE_TASK_PENDING (set_list PendingTasks (prio_insert (prio s) t (g_pendingtasks s)) s)"
    have "sched_core idle ?s" using core_lists(2,3) [OF core, of PendingTasks]
      by (intro core_enter [OF core inv _ _ pr])
        (auto simp: prio.set_ins prio.distinct_ins prio.descending_ins t prioritized_def)
    then show ?thesis
      by (intro that [of False ?s]) (use True in \<open>simp_all add: eq same_blocked_def prio.mset_ins\<close>)
  next
    case False
    have kept: "sched_kept s (release_one t s)" by (simp add: sched_kept_def)
    have hd: "hd (g_readytorun (release_one t s)) = (if prio s ?h < prio s t then t else ?h)"
      using core_ready(1) [OF core] by (simp add: prio.hd_ins)
    have "same_blocked s (release_one t s)" by (simp add: same_blocked_def)
    then show ?thesis
      by (intro that [OF _ core_release_one [OF core inv pr] kept])
        (use False hd in \<open>auto simp add: eq mset_release_one simp del: release_one_obs(3)\<close>)
  qed
qed

lemma pend_ok_addready:
  assumes "sched_core idle s" "pend_ok s" "sched_kept s s'"
    and hd: "hd (g_readytorun s') = (if sw then t else hd (g_readytorun s))"
    and sw: "sw = (lockcount (tcbs s (hd (g_readytorun s))) = 0 \<and> prio s (hd (g_readytorun s)) < prio s t)"
    and pend: "g_pendingtasks s' \<noteq> g_pendingtasks s \<Longrightarrow>
       lockcount (tcbs s (hd (g_readytorun s))) \<noteq> 0 \<and> prio s (hd (g_readytorun s)) < prio s t"
  shows "pend_ok s'"
proof -
  have "0 \<le> lockcount (tcbs s (hd (g_readytorun s)))" using assms(1) by (simp add: core_defs)
  with assms show ?thesis
    by (cases "g_pendingtasks s' = g_pendingtasks s")
      (auto simp: pend_ok_def sched_kept_lock [OF assms(3)])
qed

lemma up_unblock_task_post:
  assumes inv: "sched_inv idle s" and t: "t \<in> set (lists s l)" "l \<noteq> ReadyToRun" "l \<noteq> PendingTasks"
  obtains sw s' where "up_unblock_task t s = Some (sw, s')" "sched_inv idle s'" "sched_kept s s'"
    "lists s' l = remove1 t (lists s l)"
    "\<forall>m. m \<noteq> l \<longrightarrow> m \<noteq> ReadyToRun \<longrightarrow> m \<noteq> PendingTasks \<longrightarrow> lists s' m = lists s m"
    "runnable s' = add_mset t (runnable s)"
    "hd (g_readytorun s') = (if sw then t else hd (g_readytorun s))"
    "sw = (lockcount (tcbs s (hd (g_readytorun s))) = 0 \<and> prio s (hd (g_readytorun s)) < prio s t)"
proof -
  from inv have core: "sched_core idle s" and pend: "pend_ok s" by (simp_all add: sched_inv_def)
  have st: "fst (g_tasklisttable (task_state (tcbs s t))) = Some l"
    using t(1) core_lists(1) [OF core] by (simp add: lists_ok_member)
  with t have blk: "blocked_state (task_state (tcbs s t))" by (cases "task_state (tcbs s t)") auto
  have "t \<notin> set (g_readytorun s)" using core_lists(1) [OF core] st t(2) by (simp add: lists_ok_member)
  then have "t \<noteq> idle" using core_idle_ready [OF core] by auto
  then have pr: "SCHED_PRIORITY_MIN \<le> prio s t" "prio s t \<le> SCHED_PRIORITY_MAX"
    by (rule core_prio [OF core, rotated]; use blk in auto)+
  define s1 where "s1 = set_state t TSTATE_TASK_INVALID (set_list l (remove1 t (lists s l)) s)"
  have s1: "sched_removeblocked t s = Some s1"
    using blk st by (simp add: sched_removeblocked_def s1_def)
  have core1: "sched_core idle s1" unfolding s1_def by (rule core_leave [OF core st t(2)])
  have obs: "task_state (tcbs s1 t) = TSTATE_TASK_INVALID" "prio s1 a = prio s a"
    "lockcount (tcbs s1 a) = lockcount (tcbs s a)"
    "lists s1 = (lists s)(l := remove1 t (lists s l))" "sched_kept s s1" for a
    by (simp_all add: s1_def)
  have pend1: "pend_ok s1" using pend t by (simp add: pend_ok_def obs)
  obtain sw s' where s': "sched_addreadytorun t s1 = Some (sw, s')" "sched_core idle s'" "sched_kept s1 s'"
    "same_blocked s1 s'" "runnable s' = add_mset t (runnable s1)"
    "hd (g_readytorun s') = (if sw then t else hd (g_readytorun s1))"
    "sw = (lockcount (tcbs s1 (hd (g_readytorun s1))) = 0 \<and> prio s1 (hd (g_readytorun s1)) < prio s1 t)"
    "g_pendingtasks s' \<noteq> g_pendingtasks s1 \<Longrightarrow>
       lockcount (tcbs s1 (hd (g_readytorun s1))) \<noteq> 0 \<and> prio s1 (hd (g_readytorun s1)) < prio s1 t"
    by (rule sched_addreadytorun_post [OF core1 obs(1)]) (simp_all add: obs pr)
  have "pend_ok s'" using core1 pend1 s'(3,6-8) by (rule pend_ok_addready)
  then show ?thesis
    using that [of sw s'] s' t blk s1
    by (simp add: up_unblock_task_def sched_inv_def obs same_blocked_def sched_kept_trans [OF obs(5)])
qed

section \<open>Changing priorities\<close>

text \<open>What a change of priority leaves alone.\<close>

definition reprio :: "addr \<Rightarrow> nat \<Rightarrow> 'z kstate_scheme \<Rightarrow> 'z kstate_scheme \<Rightarrow> bool" where
  "reprio t p s s' =
     (sched_rest s' = sched_rest s \<and> (\<forall>a. prio s' a = (if a = t then p else prio s a))
      \<and> runnable s' = runnable s
      \<and> (\<forall>l. l \<noteq> ReadyToRun \<longrightarrow> l \<noteq> PendingTasks \<longrightarrow> mset (lists s' l) = mset (lists s l)))"

lemma core_set_prio_hd:
  assumes core: "sched_core idle s" and r: "g_readytorun s = t # n # ns" and p: "prio s n \<le> p"
    "SCHED_PRIORITY_MIN \<le> p" "p \<le> SCHED_PRIORITY_MAX"
  shows "sched_core idle (set_prio t p s)"
proof -
  let ?s = "set_prio t p s"
  have other: "l \<noteq> ReadyToRun \<Longrightarrow> t \<notin> set (lists s l)" for l
    using core_lists(1) [OF core] r lists_ok_member [of s t ReadyToRun] by (auto simp: lists_ok_member)
  have "descending (prio ?s) (lists s l)" if "prioritized l" for l
  proof (cases "l = ReadyToRun")
    case True
    have "t \<notin> set (n # ns)" "descending (prio s) (n # ns)" using core_ready(2,3) [OF core] r by auto
    moreover from this have "descending (prio ?s) (n # ns)"
      using descending_cong [of "n # ns" "prio ?s" "prio s"] by fastforce
    ultimately show ?thesis using True r p(1) by (auto intro: order.trans)
  next
    case False
    have "descending (prio ?s) (lists s l) = descending (prio s) (lists s l)"
      by (rule descending_cong) (use other [OF False] in auto)
    then show ?thesis using core_lists(3) [OF core that] by simp
  qed
  then have "lists_ok ?s" using core_lists(1) [OF core] by (simp add: lists_ok_def)
  moreover have "t \<noteq> idle" using core_ready(2,4) [OF core] r last_in_set [of "n # ns"] by auto
  ultimately show ?thesis using core p by (simp add: core_defs)
qed

lemma up_reprioritize_rtr_post:
  assumes inv: "sched_inv idle s" and t: "t \<in> set (g_readytorun s)" "t \<noteq> idle"
    and p: "SCHED_PRIORITY_MIN \<le> p" "p \<le> SCHED_PRIORITY_MAX"
  obtains sw s' where "up_reprioritize_rtr t p s = Some (sw, s')" "sched_inv idle s'" "reprio t p s s'"
    "same_blocked s s'" "\<not> sw \<longrightarrow> hd (g_readytorun s') = hd (g_readytorun s)"
    "t \<noteq> hd (g_readytorun s) \<longrightarrow> lockcount (tcbs s (hd (g_readytorun s))) \<noteq> 0 \<longrightarrow> \<not> sw"
proof -
  from inv have core: "sched_core idle s" and pend: "pend_ok s" by (simp_all add: sched_inv_def)
  have rdy: "ready_state (task_state (tcbs s t))"
    using core t by (simp add: core_defs lists_ok_member ready_table)
  obtain s1 where s1: "sched_removereadytorun t s = Some (t = hd (g_readytorun s), s1)" "sched_core idle s1"
    "lists s1 = (lists s)(ReadyToRun := remove1 t (g_readytorun s))"
    "task_state (tcbs s1 t) = TSTATE_TASK_INVALID" "sched_kept s s1"
    by (rule sched_removereadytorun_post [OF core t])
  define s2 where "s2 = set_prio t p s1"
  have s2: "sched_core idle s2" "task_state (tcbs s2 t) = TSTATE_TASK_INVALID" "lists s2 = lists s1"
    "prio s2 a = (if a = t then p else prio s a)" "sched_rest s2 = sched_rest s" for a
    using core_set_prio [OF s1(2,4)] s1(4,5) by (simp_all add: s2_def sched_kept_def)
  obtain added s3 where s3: "sched_addreadytorun t s2 = Some (added, s3)" "sched_core idle s3" "sched_kept s2 s3"
    "same_blocked s2 s3" "runnable s3 = add_mset t (runnable s2)"
    "hd (g_readytorun s3) = (if added then t else hd (g_readytorun s2))"
    "added = (lockcount (tcbs s2 (hd (g_readytorun s2))) = 0 \<and> prio s2 (hd (g_readytorun s2)) < prio s2 t)"
    "g_pendingtasks s3 \<noteq> g_pendingtasks s2 \<Longrightarrow>
       lockcount (tcbs s2 (hd (g_readytorun s2))) \<noteq> 0 \<and> prio s2 (hd (g_readytorun s2)) < prio s2 t"
    by (rule sched_addreadytorun_post [OF s2(1,2)]) (simp_all add: s2(4) p)
  have run3: "runnable s3 = runnable s" using s3(5) t(1) by (simp add: s2(3) s1(3))
  have rest3: "sched_rest s3 = sched_rest s" using s3(3) s2(5) by (simp add: sched_kept_def)
  have pr3: "prio s3 a = (if a = t then p else prio s a)" for a
    using sched_kept_prio [OF s3(3)] s2(4) by simp
  have blk3: "same_blocked s s3" using s3(4) by (simp add: same_blocked_def s2(3) s1(3))
  let ?sw = "(t = hd (g_readytorun s)) \<noteq> added"
  have locked: "\<not> added" if "t \<noteq> hd (g_readytorun s)" "lockcount (tcbs s (hd (g_readytorun s))) \<noteq> 0"
  proof -
    have "hd (g_readytorun s2) = hd (g_readytorun s)"
      using that(1) core_ready(1) [OF core] by (cases "g_readytorun s") (auto simp: s2(3) s1(3))
    then show ?thesis using that(2) sched_rest_fields(6) [OF s2(5)] by (simp add: s3(7))
  qed
  show ?thesis
  proof (cases ?sw)
    case True
    obtain m s4 where s4: "(if g_pendingtasks s3 \<noteq> [] then sched_mergepending s3 else Some (False, s3)) = Some (m, s4)"
      "sched_core idle s4" "g_pendingtasks s4 = []" "mset (g_readytorun s4) = runnable s3"
      "m = (hd (g_readytorun s4) \<noteq> hd (g_readytorun s3))" "same_blocked s3 s4" "sched_kept s3 s4"
      by (rule sched_merge_if_pending [OF s3(2)])
    have "up_reprioritize_rtr t p s = Some (True, s4)"
      using rdy p(1) s1(1) s3(1) True s4(1)
      by (simp add: up_reprioritize_rtr_def s2_def set_prio_def)
    moreover have "reprio t p s s4" "same_blocked s s4"
      using s4 rest3 pr3 run3 blk3 by (simp_all add: reprio_def sched_kept_def same_blocked_def)
    ultimately show ?thesis using s4(2,3) that [of True s4] True locked by (auto simp add: sched_inv_def)
  next
    case False
    have "up_reprioritize_rtr t p s = Some (False, s3)"
      using rdy p(1) s1(1) s3(1) False
      by (simp add: up_reprioritize_rtr_def s2_def set_prio_def)
    moreover have hd: "hd (g_readytorun s3) = hd (g_readytorun s)"
      using False s3(6) s2(3) s1(3) core_ready(1) [OF core] t(1)
      by (cases "g_readytorun s") (auto split: if_splits)
    moreover have "pend_ok s3"
    proof (cases "g_pendingtasks s3 = g_pendingtasks s2")
      case True
      then show ?thesis using pend hd sched_rest_fields(6) [OF rest3]
        by (simp add: pend_ok_def s2(3) s1(3))
    next
      case False
      with s3(7,8) have "\<not> added" "lockcount (tcbs s3 (hd (g_readytorun s3))) \<noteq> 0"
        using s3(6) sched_kept_lock [OF s3(3)] by auto
      moreover have "0 \<le> lockcount (tcbs s3 (hd (g_readytorun s3)))" using s3(2) by (simp add: core_defs)
      ultimately show ?thesis by (simp add: pend_ok_def)
    qed
    ultimately show ?thesis using s3(2) rest3 pr3 run3 blk3 that [of False s3]
      by (simp add: sched_inv_def reprio_def same_blocked_def)
  qed
qed

text \<open>Re-sorting a task in the prioritized list it waits in.\<close>

lemma core_resort:
  assumes core: "sched_core idle s" and st: "fst (g_tasklisttable (task_state (tcbs s t))) = Some l" "l \<noteq> ReadyToRun"
    and l: "prioritized l" and p: "SCHED_PRIORITY_MIN \<le> p" "p \<le> SCHED_PRIORITY_MAX"
  defines "s1 \<equiv> set_prio t p (set_list l (remove1 t (lists s l)) s)"
  shows "sched_core idle (set_list l (prio_insert (prio s1) t (remove1 t (lists s l))) s1)"
proof -
  let ?u = "set_prio t p (set_state t TSTATE_TASK_INVALID (set_list l (remove1 t (lists s l)) s))"
  have u: "sched_core idle ?u" by (rule core_set_prio [OF core_leave [OF core st]]) simp
  have "task_state (tcbs ?u t) = TSTATE_TASK_INVALID" "SCHED_PRIORITY_MIN \<le> prio ?u t" "prio ?u t \<le> SCHED_PRIORITY_MAX"
    using p by simp_all
  moreover have "set (prio_insert (prio ?u) t (lists ?u l)) = insert t (set (lists ?u l))"
    by (simp add: prio.set_ins)
  moreover have "distinct (prio_insert (prio ?u) t (lists ?u l))"
    using core_lists(2) [OF core, of l] by (simp add: prio.distinct_ins)
  moreover have "descending (prio ?u) (prio_insert (prio ?u) t (lists ?u l))"
    using core_lists(3) [OF u l] by (rule prio.descending_ins)
  ultimately have "sched_core idle (set_state t (task_state (tcbs s t)) (set_list l (prio_insert (prio ?u) t (lists ?u l)) ?u))"
    using core_enter [OF u, of t "task_state (tcbs s t)" l] st by blast
  moreover have "set_state t (task_state (tcbs s t)) (set_list l xs ?u) = set_list l xs s1" for xs
    by (simp add: s1_def set_state_def set_prio_def set_list_def upd_tcb_def fun_eq_iff)
  ultimately show ?thesis by (simp add: s1_def cong: if_cong)
qed

lemma core_set_prio_unsorted:
  assumes core: "sched_core idle s" and st: "\<not> snd (g_tasklisttable (task_state (tcbs s t)))"
    and p: "SCHED_PRIORITY_MIN \<le> p" "p \<le> SCHED_PRIORITY_MAX"
  shows "sched_core idle (set_prio t p s)"
proof -
  have t: "t \<notin> set (lists s l)" if "prioritized l" for l
    using core_lists(1) [OF core] st that table_prioritized by (auto simp: lists_ok_member)
  have "descending (prio (set_prio t p s)) (lists s l) = descending (prio s) (lists s l)" if "prioritized l" for l
    by (rule descending_cong) (use t [OF that] in auto)
  then have "lists_ok (set_prio t p s)" using core_lists(1) [OF core] by (simp add: lists_ok_def)
  moreover have "t \<noteq> idle" using core_idle_ready [OF core] t [of ReadyToRun] by (auto simp: prioritized_def)
  ultimately show ?thesis using core p by (simp add: core_defs)
qed

lemma sched_addprioritized_set_prio:
  "SCHED_PRIORITY_MIN \<le> p \<Longrightarrow>
     sched_addprioritized t l (set_prio t p s) =
       Some (lists s l = [] \<or> prio (set_prio t p s) (hd (lists s l)) < p,
             set_list l (prio_insert (prio (set_prio t p s)) t (lists s l)) (set_prio t p s))"
  by (subst sched_addprioritized_eq) simp_all

lemma sched_setpriority_waiting:
  assumes inv: "sched_inv idle s" and t: "t \<noteq> idle"
    and p: "int SCHED_PRIORITY_MIN \<le> p" "p \<le> int SCHED_PRIORITY_MAX"
    and st: "\<not> ready_state (task_state (tcbs s t))"
  obtains s' where "sched_setpriority t p s = Some (Done OK, s')" "sched_inv idle s'" "reprio t (nat p) s s'"
    "g_readytorun s' = g_readytorun s"
proof -
  from inv have core: "sched_core idle s" and pend: "pend_ok s" by (simp_all add: sched_inv_def)
  have p': "SCHED_PRIORITY_MIN \<le> nat p" "nat p \<le> SCHED_PRIORITY_MAX"
    using p by (simp_all add: SCHED_PRIORITY_MIN_def SCHED_PRIORITY_MAX_def)
  show ?thesis
  proof (cases "snd (g_tasklisttable (task_state (tcbs s t)))")
    case True
    then obtain l where l: "fst (g_tasklisttable (task_state (tcbs s t))) = Some l" "l \<noteq> ReadyToRun" "prioritized l"
      using st by (cases "task_state (tcbs s t)") (auto simp: prioritized_def)
    let ?s1 = "set_prio t (nat p) (set_list l (remove1 t (lists s l)) s)"
    let ?s' = "set_list l (prio_insert (prio ?s1) t (remove1 t (lists s l))) ?s1"
    have mem: "t \<in> set (lists s l)" using core_lists(1) [OF core] l(1) by (simp add: lists_ok_member)
    have "sched_core idle ?s'" by (rule core_resort [OF core l p'])
    moreover have "pend_ok ?s'"
      using pend mem l(2) by (cases "l = PendingTasks") (auto simp: pend_ok_def set_prio_def)
    moreover have "sched_setpriority t p s = Some (Done OK, ?s')"
      using p st True l p'(1)
      by (cases "task_state (tcbs s t)")
        (auto simp add: sched_setpriority_def sched_addprioritized_set_prio not_less Let_def)
    moreover have "reprio t (nat p) s ?s'"
      using mem l(2) by (auto simp: reprio_def prio.mset_ins)
    ultimately show ?thesis using that [of ?s'] l(2) by (simp add: sched_inv_def)
  next
    case False
    have "sched_setpriority t p s = Some (Done OK, set_prio t (nat p) s)"
      using p st False by (cases "task_state (tcbs s t)") (auto simp add: sched_setpriority_def not_less)
    moreover have "pend_ok (set_prio t (nat p) s)" using pend by (simp add: pend_ok_def)
    moreover have "reprio t (nat p) s (set_prio t (nat p) s)" by (simp add: reprio_def)
    ultimately show ?thesis
      using that [of "set_prio t (nat p) s"] core_set_prio_unsorted [OF core False p']
      by (simp add: sched_inv_def)
  qed
qed

lemma reprio_rest: "reprio t p s s' \<Longrightarrow> current_regs s' = current_regs s"
  by (rule sched_rest_fields(13)) (simp add: reprio_def)

lemma sched_setpriority_running:
  assumes inv: "sched_inv idle s" and t: "t \<noteq> idle"
    and p: "int SCHED_PRIORITY_MIN \<le> p" "p \<le> int SCHED_PRIORITY_MAX"
    and st: "task_state (tcbs s t) = TSTATE_TASK_RUNNING"
  obtains r s' where "sched_setpriority t p s = Some (r, s')" "sched_inv idle s'" "reprio t (nat p) s s'"
    "r = Done OK \<or> r = Switched \<and> \<not> current_regs s"
    "r = Done OK \<longrightarrow> \<not> current_regs s \<longrightarrow> hd (g_readytorun s') = hd (g_readytorun s)"
    "t \<noteq> hd (g_readytorun s) \<longrightarrow> lockcount (tcbs s (hd (g_readytorun s))) \<noteq> 0 \<longrightarrow> r = Done OK"
proof -
  from inv have core: "sched_core idle s" and pend: "pend_ok s" by (simp_all add: sched_inv_def)
  have p': "SCHED_PRIORITY_MIN \<le> nat p" "nat p \<le> SCHED_PRIORITY_MAX"
    using p by (simp_all add: SCHED_PRIORITY_MIN_def SCHED_PRIORITY_MAX_def)
  have mem: "t \<in> set (g_readytorun s)" using core_lists(1) [OF core] st by (simp add: lists_ok_member)
  then have "t = hd (g_readytorun s)" using core st by (simp add: core_defs)
  then obtain n ns where r: "g_readytorun s = t # n # ns"
    using core_ready(1,4) [OF core] t by (cases "g_readytorun s"; cases "tl (g_readytorun s)") auto
  show ?thesis
  proof (cases "p \<le> int (prio s n)")
    case True
    obtain sw s' where s': "up_reprioritize_rtr t (nat p) s = Some (sw, s')" "sched_inv idle s'"
      "reprio t (nat p) s s'" "same_blocked s s'" "\<not> sw \<longrightarrow> hd (g_readytorun s') = hd (g_readytorun s)"
    "t \<noteq> hd (g_readytorun s) \<longrightarrow> lockcount (tcbs s (hd (g_readytorun s))) \<noteq> 0 \<longrightarrow> \<not> sw"
      by (rule up_reprioritize_rtr_post [OF inv mem t p'])
    show ?thesis
      by (rule that [OF _ s'(2,3), of "switch_outcome sw s'"])
        (use p st r True s'(1,5,6) reprio_rest [OF s'(3)]
          in \<open>auto simp: sched_setpriority_def switch_outcome_def not_less\<close>)
  next
    case False
    have "sched_setpriority t p s = Some (Done OK, set_prio t (nat p) s)"
      using p st r False by (auto simp: sched_setpriority_def)
    moreover have "sched_core idle (set_prio t (nat p) s)"
      using False by (intro core_set_prio_hd [OF core r _ p']) simp
    moreover have "pend_ok (set_prio t (nat p) s)" using pend by (simp add: pend_ok_def)
    ultimately show ?thesis
      using that [of "Done OK" "set_prio t (nat p) s"] by (simp add: sched_inv_def reprio_def)
  qed
qed

lemma sched_setpriority_ready:
  assumes inv: "sched_inv idle s" and t: "t \<noteq> idle"
    and p: "int SCHED_PRIORITY_MIN \<le> p" "p \<le> int SCHED_PRIORITY_MAX"
    and st: "task_state (tcbs s t) = TSTATE_TASK_READYTORUN"
  obtains r s' where "sched_setpriority t p s = Some (r, s')" "sched_inv idle s'" "reprio t (nat p) s s'"
    "r = Done OK \<or> r = Switched \<and> \<not> current_regs s"
    "r = Done OK \<longrightarrow> \<not> current_regs s \<longrightarrow> hd (g_readytorun s') = hd (g_readytorun s)"
    "t \<noteq> hd (g_readytorun s) \<longrightarrow> lockcount (tcbs s (hd (g_readytorun s))) \<noteq> 0 \<longrightarrow> r = Done OK"
proof -
  from inv have core: "sched_core idle s" and pend: "pend_ok s" by (simp_all add: sched_inv_def)
  have p': "SCHED_PRIORITY_MIN \<le> nat p" "nat p \<le> SCHED_PRIORITY_MAX"
    using p by (simp_all add: SCHED_PRIORITY_MIN_def SCHED_PRIORITY_MAX_def)
  have mem: "t \<in> set (g_readytorun s)" using core_lists(1) [OF core] st by (simp add: lists_ok_member)
  then have tl: "t \<noteq> hd (g_readytorun s)" using core st by (auto simp: core_defs)
  let ?h = "hd (g_readytorun s)"
  have cur: "this_task s = Some ?h" using core_ready(1) [OF core] by (rule this_task_hd)
  show ?thesis
  proof (cases "p > int (prio s ?h)")
    case True
    obtain sw s' where s': "up_reprioritize_rtr t (nat p) s = Some (sw, s')" "sched_inv idle s'"
      "reprio t (nat p) s s'" "same_blocked s s'" "\<not> sw \<longrightarrow> hd (g_readytorun s') = hd (g_readytorun s)"
    "t \<noteq> hd (g_readytorun s) \<longrightarrow> lockcount (tcbs s (hd (g_readytorun s))) \<noteq> 0 \<longrightarrow> \<not> sw"
      by (rule up_reprioritize_rtr_post [OF inv mem t p'])
    show ?thesis
      by (rule that [OF _ s'(2,3), of "switch_outcome sw s'"])
        (use p st cur True s'(1,5,6) reprio_rest [OF s'(3)]
          in \<open>auto simp: sched_setpriority_def switch_outcome_def not_less\<close>)
  next
    case False
    define s1 where "s1 = set_state t TSTATE_TASK_INVALID (set_list ReadyToRun (remove1 t (g_readytorun s)) s)"
    define s2 where "s2 = set_prio t (nat p) s1"
    note rem = sched_removereadytorun_tl [OF core mem tl t, folded s1_def]
    have s1t: "task_state (tcbs s1 t) = TSTATE_TASK_INVALID" by (simp add: s1_def)
    have s2: "sched_core idle s2" "task_state (tcbs s2 t) = TSTATE_TASK_INVALID"
      "lists s2 = (lists s)(ReadyToRun := remove1 t (g_readytorun s))"
      "prio s2 a = (if a = t then nat p else prio s a)" "sched_rest s2 = sched_rest s" for a
      using core_set_prio [OF rem(2) s1t] by (simp_all add: s2_def s1_def)
    have hd2: "hd (g_readytorun s2) = ?h" using rem(3) by (simp add: s2_def)
    obtain sw s' where s': "sched_addreadytorun t s2 = Some (sw, s')" "sched_core idle s'" "sched_kept s2 s'"
      "same_blocked s2 s'" "runnable s' = add_mset t (runnable s2)"
      "hd (g_readytorun s') = (if sw then t else hd (g_readytorun s2))"
      "sw = (lockcount (tcbs s2 (hd (g_readytorun s2))) = 0 \<and> prio s2 (hd (g_readytorun s2)) < prio s2 t)"
      "g_pendingtasks s' \<noteq> g_pendingtasks s2 \<Longrightarrow>
        lockcount (tcbs s2 (hd (g_readytorun s2))) \<noteq> 0 \<and> prio s2 (hd (g_readytorun s2)) < prio s2 t"
      by (rule sched_addreadytorun_post [OF s2(1,2)]) (simp_all add: s2(4) p')
    have nsw: "\<not> sw" and pnd: "g_pendingtasks s' = g_pendingtasks s2"
      using s'(7,8) False tl by (auto simp: hd2 s2(4))
    have "sched_setpriority t p s = Some (Done OK, s')"
      using p st cur False rem(1) s'(1) nsw by (simp add: sched_setpriority_def s2_def not_less)
    moreover have "g_pendingtasks s' = g_pendingtasks s" "hd (g_readytorun s') = ?h"
      using pnd s'(6) nsw by (simp_all add: hd2) (simp add: s2(3))
    then have "pend_ok s'"
      using pend sched_kept_lock [OF s'(3)] sched_rest_fields(6) [OF s2(5)] by (simp add: pend_ok_def)
    moreover have "reprio t (nat p) s s'"
      using s'(3,4,5) mem by (simp add: reprio_def sched_kept_def same_blocked_def s2)
    ultimately show ?thesis using that [of "Done OK" s'] s'(2,6) nsw hd2 by (simp add: sched_inv_def)
  qed
qed

lemma sched_setpriority_post:
  assumes inv: "sched_inv idle s" and t: "t \<noteq> idle"
    and p: "int SCHED_PRIORITY_MIN \<le> p" "p \<le> int SCHED_PRIORITY_MAX"
  obtains r s' where "sched_setpriority t p s = Some (r, s')" "sched_inv idle s'" "reprio t (nat p) s s'"
    "r = Done OK \<or> r = Switched \<and> \<not> current_regs s"
    "r = Done OK \<longrightarrow> \<not> current_regs s \<longrightarrow> hd (g_readytorun s') = hd (g_readytorun s)"
    "t \<noteq> hd (g_readytorun s) \<longrightarrow> lockcount (tcbs s (hd (g_readytorun s))) \<noteq> 0 \<longrightarrow> r = Done OK"
proof -
  consider "task_state (tcbs s t) = TSTATE_TASK_RUNNING" | "task_state (tcbs s t) = TSTATE_TASK_READYTORUN"
    | "\<not> ready_state (task_state (tcbs s t))" by (cases "task_state (tcbs s t)") auto
  then show ?thesis
  proof cases
    case 1
    show ?thesis by (rule sched_setpriority_running [OF inv t p 1]) (rule that)
  next
    case 2
    show ?thesis by (rule sched_setpriority_ready [OF inv t p 2]) (rule that)
  next
    case 3
    obtain s' where s': "sched_setpriority t p s = Some (Done OK, s')" "sched_inv idle s'" "reprio t (nat p) s s'"
      "g_readytorun s' = g_readytorun s" by (rule sched_setpriority_waiting [OF inv t p 3])
    show ?thesis by (rule that [OF s'(1-3)]) (simp_all add: s'(4))
  qed
qed


section \<open>Locking, yielding, time slices\<close>

text \<open>Members of a TCB the scheduler's invariant does not mention can be written freely.\<close>

lemma sched_inv_upd_tcb:
  assumes "\<And>b. task_state (f b) = task_state b" "\<And>b. sched_priority (f b) = sched_priority b"
    "\<And>b. lockcount (f b) = lockcount b"
  shows "sched_inv idle (upd_tcb t f s) = sched_inv idle s"
proof -
  have "task_state (tcbs (upd_tcb t f s) a) = task_state (tcbs s a)" "prio (upd_tcb t f s) a = prio s a"
    "lockcount (tcbs (upd_tcb t f s) a) = lockcount (tcbs s a)" for a
    using assms by simp_all
  then show ?thesis by (simp add: sched_inv_def pend_ok_def core_defs lists_ok_def del: upd_simps(1))
qed

lemma sched_inv_globals [simp]:
  "sched_inv idle (s\<lparr>g_irqerrno := e\<rparr>) = sched_inv idle s"
  "sched_inv idle (s\<lparr>g_pidhash := h\<rparr>) = sched_inv idle s"
  "sched_inv idle (s\<lparr>g_lastpid := n\<rparr>) = sched_inv idle s"
  "sched_inv idle (s\<lparr>current_regs := b\<rparr>) = sched_inv idle s"
  by (simp_all add: sched_inv_def pend_ok_def core_defs lists_ok_def)

lemma sched_inv_set_errno [simp]: "sched_inv idle (set_errno e s) = sched_inv idle s"
  by (simp add: set_errno_def sched_inv_upd_tcb split: list.split)

lemma core_set_lock:
  assumes "sched_core idle s" "0 \<le> n"
  shows "sched_core idle (upd_tcb t (\<lambda>b. b\<lparr>lockcount := n\<rparr>) s)"
proof -
  let ?u = "upd_tcb t (\<lambda>b. b\<lparr>lockcount := n\<rparr>) s"
  have "task_state (tcbs ?u a) = task_state (tcbs s a)" "prio ?u a = prio s a" for a by simp_all
  then have "lists_ok ?u" "ready_ok idle ?u" "prios_ok idle ?u"
    using assms by (simp_all add: sched_core_def lists_ok_def ready_ok_def prios_ok_def del: upd_simps(1))
  moreover have "locks_ok ?u" using assms by (simp add: core_defs)
  ultimately show ?thesis by (simp add: sched_core_def)
qed

lemma sched_setpriority_error:
  "p < int SCHED_PRIORITY_MIN \<or> p > int SCHED_PRIORITY_MAX \<Longrightarrow>
     sched_setpriority t p s = Some (Done ERROR, set_errno EINVAL s)"
  by (auto simp: sched_setpriority_def)

lemma sched_reprioritize_inv:
  assumes inv: "sched_inv idle s" and t: "t \<noteq> idle"
  obtains r s' where "sched_reprioritize t p s = Some (r, s')" "sched_inv idle s'"
proof (cases "p < int SCHED_PRIORITY_MIN \<or> p > int SCHED_PRIORITY_MAX")
  case True
  with inv that show ?thesis by (simp add: sched_reprioritize_def sched_setpriority_error OK_def ERROR_def)
next
  case False
  then have p: "int SCHED_PRIORITY_MIN \<le> p" "p \<le> int SCHED_PRIORITY_MAX" by auto
  obtain r s' where s': "sched_setpriority t p s = Some (r, s')" "sched_inv idle s'"
    by (rule sched_setpriority_post [OF inv t p])
  show ?thesis
    by (rule that [of r "if r = Done OK then sched_reprioritize_resume t p s' else s'"])
      (use s' in \<open>auto simp: sched_reprioritize_def sched_reprioritize_resume_def sched_inv_upd_tcb\<close>)
qed

lemma sched_lock_inv:
  assumes inv: "sched_inv idle s"
    and "current_regs s \<or> lockcount (tcbs s (hd (g_readytorun s))) < MAX_LOCK_COUNT"
  obtains s' where "sched_lock s = Some s'" "sched_inv idle s'" "lists s' = lists s"
    "\<not> current_regs s \<longrightarrow> 0 < lockcount (tcbs s' (hd (g_readytorun s)))"
proof -
  from inv have core: "sched_core idle s" and pend: "pend_ok s" by (simp_all add: sched_inv_def)
  obtain r rs where r: "g_readytorun s = r # rs" using core_ready(1) [OF core] by (cases "g_readytorun s") auto
  let ?u = "upd_tcb r (\<lambda>b. b\<lparr>lockcount := lockcount (tcbs s r) + 1\<rparr>) s"
  have u: "upd_tcb r (\<lambda>b. b\<lparr>lockcount := lockcount b + 1\<rparr>) s = ?u" by (simp add: upd_tcb_def)
  have n: "0 < lockcount (tcbs s r) + 1" using core by (simp add: core_defs)
  show ?thesis
  proof (cases "current_regs s")
    case True
    then show ?thesis using that [of s] inv r by (simp add: sched_lock_def)
  next
    case False
    have "sched_inv idle ?u"
      using core_set_lock [OF core, of "lockcount (tcbs s r) + 1" r] n r by (simp add: sched_inv_def pend_ok_def)
    with False show ?thesis using that [of ?u] assms(2) r n by (simp add: sched_lock_def u)
  qed
qed

lemma sched_unlock_rr_inv [simp]: "sched_inv idle (sched_unlock_rr t s) = sched_inv idle s"
  by (simp add: sched_unlock_rr_def sched_inv_upd_tcb)

text \<open>
  What taking and releasing the preemption lock leaves alone: the blocked tasks, all priorities, and
  every member of a TCB other than its state, its lock count and its time slice.
\<close>

definition task_rest :: "'z kstate_scheme \<Rightarrow> 'z kstate_scheme" where
  "task_rest s = s\<lparr>tcbs := (\<lambda>a. (tcbs s a)\<lparr>task_state := TSTATE_TASK_INVALID, sched_priority := 0, lockcount := 0, timeslice := 0\<rparr>),
     lists := (\<lambda>_. [])\<rparr>"

lemma task_rest_upd [simp]:
  "task_rest (upd_tcb t (\<lambda>b. b\<lparr>lockcount := n\<rparr>) s) = task_rest s"
  "task_rest (upd_tcb t (\<lambda>b. b\<lparr>timeslice := f b\<rparr>) s) = task_rest s"
  by (auto simp: task_rest_def upd_tcb_def fun_eq_iff)

lemma task_rest_kept:
  fixes s s' :: "'z kstate_scheme"
  assumes "sched_kept s s'"
  shows "task_rest s' = task_rest s"
proof -
  have "task_rest u = (sched_rest u)\<lparr>tcbs := (\<lambda>a. (tcbs (sched_rest u) a)\<lparr>lockcount := 0, timeslice := 0\<rparr>)\<rparr>"
    for u :: "'z kstate_scheme" by (simp add: task_rest_def sched_rest_def)
  then show ?thesis using assms by (simp add: sched_kept_def)
qed

lemma task_rest_obs:
  "pid (tcbs (task_rest s) a) = pid (tcbs s a)"
  "npend_reprio (tcbs (task_rest s) a) = npend_reprio (tcbs s a)"
  "pend_reprios (tcbs (task_rest s) a) = pend_reprios (tcbs s a)"
  "base_priority (tcbs (task_rest s) a) = base_priority (tcbs s a)"
  "flags (tcbs (task_rest s) a) = flags (tcbs s a)"
  "waitsem (tcbs (task_rest s) a) = waitsem (tcbs s a)"
  "msgwaitq (tcbs (task_rest s) a) = msgwaitq (tcbs s a)"
  "pterrno (tcbs (task_rest s) a) = pterrno (tcbs s a)"
  "g_pidhash (task_rest s) = g_pidhash s" "g_lastpid (task_rest s) = g_lastpid s"
  "current_regs (task_rest s) = current_regs s" "g_irqerrno (task_rest s) = g_irqerrno s"
  "kstate.more (task_rest s) = kstate.more s"
  "waitdog (tcbs (task_rest s) a) = waitdog (tcbs s a)"
  by (simp_all add: task_rest_def)

definition lock_kept :: "'z kstate_scheme \<Rightarrow> 'z kstate_scheme \<Rightarrow> bool" where
  "lock_kept s s' = (task_rest s' = task_rest s \<and> same_blocked s s' \<and> (\<forall>t. prio s' t = prio s t))"

lemma lock_kept_fields:
  assumes "lock_kept s s'"
  shows "pid (tcbs s' a) = pid (tcbs s a)" "npend_reprio (tcbs s' a) = npend_reprio (tcbs s a)"
    "pend_reprios (tcbs s' a) = pend_reprios (tcbs s a)" "base_priority (tcbs s' a) = base_priority (tcbs s a)"
    "flags (tcbs s' a) = flags (tcbs s a)" "waitsem (tcbs s' a) = waitsem (tcbs s a)"
    "msgwaitq (tcbs s' a) = msgwaitq (tcbs s a)" "pterrno (tcbs s' a) = pterrno (tcbs s a)"
    "g_pidhash s' = g_pidhash s" "g_lastpid s' = g_lastpid s" "current_regs s' = current_regs s"
    "g_irqerrno s' = g_irqerrno s" "kstate.more s' = kstate.more s" "waitdog (tcbs s' a) = waitdog (tcbs s a)"
proof -
  have r: "task_rest s' = task_rest s" using assms by (simp add: lock_kept_def)
  show "pid (tcbs s' a) = pid (tcbs s a)" "npend_reprio (tcbs s' a) = npend_reprio (tcbs s a)"
    "pend_reprios (tcbs s' a) = pend_reprios (tcbs s a)" "base_priority (tcbs s' a) = base_priority (tcbs s a)"
    "flags (tcbs s' a) = flags (tcbs s a)" "waitsem (tcbs s' a) = waitsem (tcbs s a)"
    "msgwaitq (tcbs s' a) = msgwaitq (tcbs s a)" "pterrno (tcbs s' a) = pterrno (tcbs s a)"
    "g_pidhash s' = g_pidhash s" "g_lastpid s' = g_lastpid s" "current_regs s' = current_regs s"
    "g_irqerrno s' = g_irqerrno s" "kstate.more s' = kstate.more s" "waitdog (tcbs s' a) = waitdog (tcbs s a)"
    by (simp_all only: task_rest_obs [of s', symmetric] r task_rest_obs [of s])
qed

text \<open>The last unlock releases every pending task and switches when one of them outranks the caller.\<close>

lemma sched_unlock_last:
  assumes inv: "sched_inv idle s" and irq: "\<not> current_regs s" and n: "lockcount (tcbs s (hd (g_readytorun s))) \<le> 1"
  obtains r s' where "sched_unlock s = Some (r, s')" "sched_inv idle s'" "g_pendingtasks s' = []"
    "mset (g_readytorun s') = runnable s" "r = Done OK \<or> r = Switched"
    "(r = Switched) = (hd (g_readytorun s') \<noteq> hd (g_readytorun s))"
    "lockcount (tcbs s' (hd (g_readytorun s))) = 0" "lock_kept s s'"
proof -
  from inv have core: "sched_core idle s" by (simp add: sched_inv_def)
  obtain t ts where r: "g_readytorun s = t # ts" using core_ready(1) [OF core] by (cases "g_readytorun s") auto
  have n0: "0 \<le> lockcount (tcbs s t)" using core by (simp add: core_defs)
  let ?u = "upd_tcb t (\<lambda>b. b\<lparr>lockcount := 0\<rparr>) s"
  have core0: "sched_core idle ?u" by (rule core_set_lock [OF core]) simp
  obtain sw s' where s': "(if g_pendingtasks ?u \<noteq> [] then sched_mergepending ?u else Some (False, ?u)) = Some (sw, s')"
    "sched_core idle s'" "g_pendingtasks s' = []" "mset (g_readytorun s') = runnable ?u"
    "sw = (hd (g_readytorun s') \<noteq> hd (g_readytorun ?u))" "same_blocked ?u s'" "sched_kept ?u s'"
    by (rule sched_merge_if_pending [OF core0])
  let ?r = "if sw then s' else sched_unlock_rr t s'"
  have "sched_unlock s = Some (if sw then Switched else Done OK, ?r)"
    using irq n n0 r s'(1)
    by (simp add: sched_unlock_def up_release_pending_def upd_tcb_def cong: if_cong)
  moreover have "sched_inv idle s'" using s'(2,3) by (simp add: sched_inv_def)
  then have "sched_inv idle ?r" by simp
  moreover have "lists ?r = lists s'" by (simp add: sched_unlock_rr_def)
  moreover have "lockcount (tcbs ?r t) = 0"
    using sched_kept_lock [OF s'(7), of t] by (simp add: sched_unlock_rr_def)
  moreover have "lock_kept s ?r"
    using s'(6) task_rest_kept [OF s'(7)] sched_kept_prio [OF s'(7)]
    by (simp add: lock_kept_def same_blocked_def sched_unlock_rr_def)
  ultimately show ?thesis using that [of "if sw then Switched else Done OK" ?r] s'(3-6) r by auto
qed

lemma sched_unlock_inv:
  assumes inv: "sched_inv idle s"
  obtains r s' where "sched_unlock s = Some (r, s')" "sched_inv idle s'"
    "r = Done OK \<or> r = Switched \<and> \<not> current_regs s" "runnable s' = runnable s" "lock_kept s s'"
proof -
  from inv have core: "sched_core idle s" and pend: "pend_ok s" by (simp_all add: sched_inv_def)
  obtain t ts where r: "g_readytorun s = t # ts" using core_ready(1) [OF core] by (cases "g_readytorun s") auto
  let ?n = "lockcount (tcbs s t)"
  have n: "0 \<le> ?n" using core by (simp add: core_defs)
  let ?u = "\<lambda>k. upd_tcb t (\<lambda>b. b\<lparr>lockcount := k\<rparr>) s"
  have dec: "upd_tcb t (\<lambda>b. b\<lparr>lockcount := lockcount b - 1\<rparr>) s = ?u (?n - 1)" by (simp add: upd_tcb_def)
  consider "current_regs s" | "\<not> current_regs s" "1 < ?n" | "\<not> current_regs s" "?n \<le> 1" by linarith
  then show ?thesis
  proof cases
    case 1
    then show ?thesis
      using that [of "Done OK" s] inv r by (simp add: sched_unlock_def lock_kept_def same_blocked_def)
  next
    case 2
    have "sched_inv idle (?u (?n - 1))"
      using core_set_lock [OF core, of "?n - 1" t] 2 r by (simp add: sched_inv_def pend_ok_def)
    then show ?thesis
      using that [of "Done OK" "?u (?n - 1)"] 2 r
      by (simp add: sched_unlock_def dec lock_kept_def same_blocked_def)
  next
    case 3
    obtain r s' where "sched_unlock s = Some (r, s')" "sched_inv idle s'" "g_pendingtasks s' = []"
      "mset (g_readytorun s') = runnable s" "r = Done OK \<or> r = Switched" "lock_kept s s'"
      by (rule sched_unlock_last [OF inv 3(1)]) (use 3(2) r in simp_all)
    then show ?thesis using that [of r s'] 3(1) by auto
  qed
qed

text \<open>
  Giving up the processor at an unchanged priority: the running task goes behind the ready tasks of
  its own priority. With the preemption lock free no task is pending.
\<close>

lemma up_reprioritize_rtr_rotate:
  assumes inv: "sched_inv idle s" and r: "g_readytorun s = t # n # ns" and n: "prio s t \<le> prio s n"
    and lock: "lockcount (tcbs s t) = 0"
  obtains s' where "up_reprioritize_rtr t (prio s t) s = Some (True, s')" "sched_inv idle s'" "sched_kept s s'"
    "lists s' = (lists s)(ReadyToRun := n # prio_insert (prio s) t ns)"
proof -
  from inv have core: "sched_core idle s" and pend: "pend_ok s" by (simp_all add: sched_inv_def)
  have rdy: "task_state (tcbs s t) = TSTATE_TASK_RUNNING" using core r by (simp add: core_defs)
  have ti: "t \<noteq> idle" using core_ready(2,4) [OF core] r last_in_set [of "n # ns"] by auto
  have pr: "SCHED_PRIORITY_MIN \<le> prio s t" "prio s t \<le> SCHED_PRIORITY_MAX"
    by (rule core_prio [OF core _ ti]; use rdy in simp)+
  have pd: "g_pendingtasks s = []" using pend r lock by (simp add: pend_ok_def)
  define s1 where "s1 = set_state t TSTATE_TASK_INVALID (set_state n TSTATE_TASK_RUNNING (set_list ReadyToRun (n # ns) s))"
  have s1: "sched_removereadytorun t s = Some (True, s1)" "sched_core idle s1"
    using sched_removereadytorun_hd [OF core r ti] by (auto simp: s1_def)
  have obs: "task_state (tcbs s1 t) = TSTATE_TASK_INVALID" "g_readytorun s1 = n # ns" "prio s1 a = prio s a"
    "lists s1 = (lists s)(ReadyToRun := n # ns)" "sched_kept s s1" for a
    by (simp_all add: s1_def)
  have tn: "t \<notin> set (n # ns)" using core_ready(2) [OF core] r by simp
  have same: "upd_tcb t (\<lambda>b. b\<lparr>sched_priority := sched_priority (tcbs s t)\<rparr>) s1 = s1"
    using obs(3) [of t] by (simp add: upd_tcb_def fun_upd_idem flip: obs(3) [of t])
  have add: "sched_addreadytorun t s1 = Some (False, release_one t s1)"
    using sched_addreadytorun_eq [of s1 t] tn n pr by (auto simp: obs(2,3) not_less)
  have "up_reprioritize_rtr t (prio s t) s = Some (True, release_one t s1)"
    using rdy pr s1(1) add pd by (simp add: up_reprioritize_rtr_def same not_less obs(4))
  moreover have "sched_core idle (release_one t s1)"
    by (rule core_release_one [OF s1(2) obs(1)]) (simp_all add: obs(3) pr)
  moreover have "lists (release_one t s1) = (lists s)(ReadyToRun := n # prio_insert (prio s) t ns)"
    using n by (auto simp: fun_eq_iff obs prio.ins_Cons)
  moreover have "sched_kept s (release_one t s1)"
    using obs(5) by (simp add: sched_kept_def)
  ultimately show ?thesis using that [of "release_one t s1"] pd by (simp add: sched_inv_def)
qed

lemma sched_yield_inv:
  assumes inv: "sched_inv idle s"
  obtains r s' where "sched_yield s = Some (r, s')" "sched_inv idle s'"
    "s' = set_errno EINVAL s \<or> sched_rest s' = sched_rest s"
proof -
  from inv have core: "sched_core idle s" by (simp add: sched_inv_def)
  let ?t = "hd (g_readytorun s)"
  have cur: "this_task s = Some ?t" using core_ready(1) [OF core] by (rule this_task_hd)
  show ?thesis
  proof (cases "?t = idle")
    case True
    then have "sched_yield s = Some (Done ERROR, set_errno EINVAL s)"
      using core_ready(5) [OF core]
      by (simp add: sched_yield_def cur sched_setpriority_error SCHED_PRIORITY_MIN_def)
    with inv that show ?thesis by simp
  next
    case False
    have "task_state (tcbs s ?t) = TSTATE_TASK_RUNNING" using core by (simp add: core_defs)
    then have "SCHED_PRIORITY_MIN \<le> prio s ?t" "prio s ?t \<le> SCHED_PRIORITY_MAX"
      by (simp_all add: core_prio [OF core _ False])
    then have pr: "int SCHED_PRIORITY_MIN \<le> int (prio s ?t)" "int (prio s ?t) \<le> int SCHED_PRIORITY_MAX"
      by simp_all
    obtain r s' where "sched_setpriority ?t (int (prio s ?t)) s = Some (r, s')" "sched_inv idle s'"
      "reprio ?t (nat (int (prio s ?t))) s s'"
      by (rule sched_setpriority_post [OF inv False pr])
    with that show ?thesis by (simp add: sched_yield_def cur reprio_def)
  qed
qed

lemma sched_process_timeslice_inv:
  assumes inv: "sched_inv idle s"
  obtains s' where "sched_process_timeslice s = Some s'" "sched_inv idle s'" "lock_kept s s'" "runnable s' = runnable s"
proof -
  from inv have core: "sched_core idle s" by (simp add: sched_inv_def)
  obtain t ts where r: "g_readytorun s = t # ts" using core_ready(1) [OF core] by (cases "g_readytorun s") auto
  let ?u = "upd_tcb t (\<lambda>b. b\<lparr>timeslice := MSEC2TICK CONFIG_RR_INTERVAL\<rparr>) s"
  let ?d = "upd_tcb t (\<lambda>b. b\<lparr>timeslice := timeslice b - 1\<rparr>) s"
  have u: "sched_inv idle ?u" "sched_inv idle ?d" using inv by (simp_all add: sched_inv_upd_tcb)
  show ?thesis
  proof (cases "flags (tcbs s t) AND TCB_FLAG_ROUND_ROBIN \<noteq> 0 \<and> timeslice (tcbs s t) \<le> 1
      \<and> lockcount (tcbs s t) = 0 \<and> ts \<noteq> [] \<and> prio s (hd ts) \<ge> prio s t")
    case True
    then obtain n ns where ts: "ts = n # ns" by (cases ts) auto
    obtain s' where s': "up_reprioritize_rtr t (prio ?u t) ?u = Some (True, s')" "sched_inv idle s'" "sched_kept ?u s'"
      "lists s' = (lists ?u)(ReadyToRun := n # prio_insert (prio ?u) t ns)"
      by (rule up_reprioritize_rtr_rotate [OF u(1), of t n ns]) (use r ts True in auto)
    have "lock_kept s s'" using task_rest_kept [OF s'(3)] s'(4) sched_kept_prio [OF s'(3)]
      by (simp add: lock_kept_def same_blocked_def)
    moreover have "runnable s' = runnable s" using s'(4) r ts by (simp add: prio.mset_ins)
    ultimately show ?thesis
      using that [of s'] True r ts s' by (auto simp: sched_process_timeslice_def this_task_def)
  next
    case False
    then have "sched_process_timeslice s = Some s \<or> sched_process_timeslice s = Some ?u
        \<or> sched_process_timeslice s = Some ?d"
      using r by (cases ts) (auto simp: sched_process_timeslice_def this_task_def Let_def)
    moreover have "lock_kept s ?u" "lock_kept s ?d" "lock_kept s s" by (simp_all add: lock_kept_def same_blocked_def)
    ultimately show ?thesis using that [of s] that [of ?u] that [of ?d] inv u by auto
  qed
qed

end
