(* ===== verification/Sched_Spec.thy ===== *)
theory Sched_Spec
  imports Sched_Ops
begin

text \<open>
  What the scheduler promises, operation by operation, and the example states the statements are
  instantiated at.
\<close>

section \<open>Example states\<close>

definition zero_tcb :: tcb where
  "zero_tcb = \<lparr>pid = 0, sched_priority = 0, npend_reprio = 0, pend_reprios = replicate CONFIG_SEM_NNESTPRIO 0,
     base_priority = 0, task_state = TSTATE_TASK_INVALID, flags = 0, lockcount = 0, timeslice = 0, waitdog = None,
     waitsem = None, msgwaitq = None, pterrno = 0\<rparr>"

text \<open>
  Task 0 is the idle task. Task 1 runs at priority 100, task 2 is ready at the same priority, task 3
  (priority 150) waits for a semaphore and task 4 (priority 120) for a signal.
\<close>

definition ex_tcb :: "addr \<Rightarrow> tcb" where
  "ex_tcb = (\<lambda>_. zero_tcb)
     (0 := zero_tcb\<lparr>task_state := TSTATE_TASK_READYTORUN\<rparr>,
      1 := zero_tcb\<lparr>pid := 1, sched_priority := 100, base_priority := 100, task_state := TSTATE_TASK_RUNNING,
             flags := TCB_FLAG_ROUND_ROBIN, timeslice := 1\<rparr>,
      2 := zero_tcb\<lparr>pid := 2, sched_priority := 100, base_priority := 100, task_state := TSTATE_TASK_READYTORUN\<rparr>,
      3 := zero_tcb\<lparr>pid := 3, sched_priority := 150, base_priority := 150, task_state := TSTATE_WAIT_SEM, waitsem := Some 7\<rparr>,
      4 := zero_tcb\<lparr>pid := 4, sched_priority := 120, base_priority := 120, task_state := TSTATE_WAIT_SIG\<rparr>)"

definition ex_lists :: "tasklist \<Rightarrow> addr list" where
  "ex_lists = (\<lambda>_. [])(ReadyToRun := [1, 2, 0], WaitingForSemaphore := [3], WaitingForSignal := [4])"

definition ex_pidhash :: "nat \<Rightarrow> pidhash" where
  "ex_pidhash i = (if i < 5 then \<lparr>ph_tcb = Some i, ph_pid = int i\<rparr> else \<lparr>ph_tcb = None, ph_pid = -1\<rparr>)"

definition ex_state :: kstate where
  "ex_state = \<lparr>tcbs = ex_tcb, lists = ex_lists, g_lastpid = 4, g_pidhash = ex_pidhash,
     current_regs = False, g_irqerrno = 0\<rparr>"

text \<open>The same with the preemption lock held and task 3 pending.\<close>

definition ex_locked :: kstate where
  "ex_locked = ex_state\<lparr>
     tcbs := ex_tcb(1 := (ex_tcb 1)\<lparr>lockcount := 1\<rparr>, 3 := (ex_tcb 3)\<lparr>task_state := TSTATE_TASK_PENDING, waitsem := None\<rparr>),
     lists := ex_lists(WaitingForSemaphore := [], PendingTasks := [3])\<rparr>"

lemmas ex_defs = ex_locked_def ex_state_def ex_tcb_def ex_lists_def zero_tcb_def

lemma ex_state_inv: "sched_inv 0 ex_state"
proof -
  have "lists_ok ex_state" unfolding lists_ok_def
    by (auto simp: ex_defs descending_def split: if_splits)
  then show ?thesis
    by (auto simp: sched_inv_def pend_ok_def core_defs ex_defs SCHED_PRIORITY_MIN_def SCHED_PRIORITY_MAX_def)
qed

lemma ex_locked_inv: "sched_inv 0 ex_locked"
proof -
  have "lists_ok ex_locked" unfolding lists_ok_def
    by (auto simp: ex_defs descending_def split: if_splits)
  then show ?thesis
    by (auto simp: sched_inv_def pend_ok_def core_defs ex_defs SCHED_PRIORITY_MIN_def SCHED_PRIORITY_MAX_def)
qed

section \<open>Blocking and unblocking\<close>

text \<open>
  C1. \<open>up_block_task\<close> on a task that is ready or running (the idle task excepted) returns: no assertion
  of the code fails on the way. The task is now in the list of its new state, at its place by priority
  where the list is prioritized and at the end otherwise; all other blocked tasks are where they were;
  every task that was pending is ready; a context switch is requested exactly when the head of the
  ready-to-run list changed; and the scheduler's invariant holds again.
\<close>

theorem up_block_task_correct:
  assumes "sched_inv idle s" "t \<in> set (g_readytorun s)" "t \<noteq> idle" "blocked_state st"
  shows "\<exists>sw s' l. up_block_task t st s = Some (sw, s') \<and> sched_inv idle s'
     \<and> fst (g_tasklisttable st) = Some l
     \<and> lists s' l = (if snd (g_tasklisttable st) then prio_insert (prio s) t (lists s l) else lists s l @ [t])
     \<and> task_state (tcbs s' t) = st
     \<and> (\<forall>m. m \<notin> {l, ReadyToRun, PendingTasks} \<longrightarrow> lists s' m = lists s m)
     \<and> g_pendingtasks s' = [] \<and> mset (g_readytorun s') = runnable s - {#t#}
     \<and> sw = (hd (g_readytorun s') \<noteq> hd (g_readytorun s))"
proof -
  obtain l where l: "fst (g_tasklisttable st) = Some l" "l \<noteq> ReadyToRun" "l \<noteq> PendingTasks"
    using blocked_table [OF assms(4)] by blast
  obtain sw s' where s': "up_block_task t st s = Some (sw, s')" "sched_inv idle s'" "g_pendingtasks s' = []"
    "mset (g_readytorun s') = runnable s - {#t#}"
    "sw = (hd (g_readytorun s') \<noteq> hd (g_readytorun s))"
    "lists s' l = (if prioritized l then prio_insert (prio s) t (lists s l) else lists s l @ [t])"
    "\<forall>m. m \<noteq> l \<longrightarrow> m \<noteq> ReadyToRun \<longrightarrow> m \<noteq> PendingTasks \<longrightarrow> lists s' m = lists s m"
    "sched_kept s s'"
    by (rule up_block_task_post [OF assms l(1)])
  have "t \<in> set (lists s' l)" using s'(6) by (auto simp: prio.set_ins)
  then have "fst (g_tasklisttable (task_state (tcbs s' t))) = Some l"
    using s'(2) by (simp add: sched_inv_def sched_core_def lists_ok_member)
  then have "task_state (tcbs s' t) = st"
    using l assms(4) by (cases "task_state (tcbs s' t)"; cases st) auto
  with s' l show ?thesis by (auto simp: table_prioritized)
qed

text \<open>Task 1 of the example waits for a semaphore and queues behind task 3, which has priority 150.\<close>

theorem up_block_task_correct_witness:
  "\<exists>sw s'. up_block_task 1 TSTATE_WAIT_SEM ex_state = Some (sw, s') \<and> sched_inv 0 s'
     \<and> lists s' WaitingForSemaphore = [3, 1] \<and> task_state (tcbs s' 1) = TSTATE_WAIT_SEM"
  using up_block_task_correct [of 0 ex_state 1 TSTATE_WAIT_SEM, OF ex_state_inv]
  by (auto simp: ex_defs prio_insert_def)

text \<open>
  C5. \<open>up_unblock_task\<close> on a blocked task returns and makes it runnable: it leaves its list, every other
  blocked task stays, and the running task is preempted exactly when it does not hold the preemption
  lock and has smaller priority; then the unblocked task is the new head. The invariant holds again.
\<close>

theorem up_unblock_task_correct:
  assumes "sched_inv idle s" "t \<in> set (lists s l)" "l \<noteq> ReadyToRun" "l \<noteq> PendingTasks"
  shows "\<exists>sw s'. up_unblock_task t s = Some (sw, s') \<and> sched_inv idle s'
     \<and> lists s' l = remove1 t (lists s l)
     \<and> (\<forall>m. m \<notin> {l, ReadyToRun, PendingTasks} \<longrightarrow> lists s' m = lists s m)
     \<and> runnable s' = add_mset t (runnable s)
     \<and> sw = (lockcount (tcbs s (hd (g_readytorun s))) = 0 \<and> prio s (hd (g_readytorun s)) < prio s t)
     \<and> hd (g_readytorun s') = (if sw then t else hd (g_readytorun s))"
proof -
  obtain sw s' where "up_unblock_task t s = Some (sw, s')" "sched_inv idle s'" "sched_kept s s'"
    "lists s' l = remove1 t (lists s l)"
    "\<forall>m. m \<noteq> l \<longrightarrow> m \<noteq> ReadyToRun \<longrightarrow> m \<noteq> PendingTasks \<longrightarrow> lists s' m = lists s m"
    "runnable s' = add_mset t (runnable s)"
    "hd (g_readytorun s') = (if sw then t else hd (g_readytorun s))"
    "sw = (lockcount (tcbs s (hd (g_readytorun s))) = 0 \<and> prio s (hd (g_readytorun s)) < prio s t)"
    by (rule up_unblock_task_post [OF assms])
  then show ?thesis by auto
qed

theorem up_unblock_task_correct_witness:
  "\<exists>s'. up_unblock_task 3 ex_state = Some (True, s') \<and> sched_inv 0 s' \<and> hd (g_readytorun s') = 3
     \<and> lists s' WaitingForSemaphore = []"
  using up_unblock_task_correct [of 0 ex_state 3 WaitingForSemaphore, OF ex_state_inv]
  by (auto simp: ex_defs)

section \<open>Preemption\<close>

text \<open>
  C14. \<open>sched_mergepending\<close> never runs off the end of the ready-to-run list, and its single pass over the
  two lists has the effect of making the pending tasks ready one after the other, each by a search from
  the head of the ready-to-run list. The result tells whether the head changed.
\<close>

theorem sched_mergepending_correct:
  assumes "sched_core idle s"
  shows "\<exists>sw s'. sched_mergepending s = Some (sw, s')
     \<and> s' = set_list PendingTasks [] (fold release_one (g_pendingtasks s) s)
     \<and> sched_core idle s' \<and> mset (g_readytorun s') = runnable s
     \<and> sw = (hd (g_readytorun s') \<noteq> hd (g_readytorun s))"
  using sched_mergepending_post [OF assms] sched_mergepending_eq [OF assms] by fastforce

theorem sched_mergepending_correct_witness:
  "\<exists>s'. sched_mergepending ex_locked = Some (True, s') \<and> sched_core 0 s' \<and> g_pendingtasks s' = []"
  using sched_mergepending_correct [of 0 ex_locked] ex_locked_inv
  by (auto simp: sched_inv_def sched_mergepending_def ex_defs Let_def)



section \<open>Priorities and time slices\<close>

text \<open>
  C20. \<open>sched_setpriority\<close> with a priority in range returns for every task but the idle task, in whatever
  state the task is. It changes that task's priority and no other; all tasks stay in the list they are
  in, up to moves between the ready-to-run and the pending list; and every list is in order again, as
  the invariant says.
\<close>

theorem sched_setpriority_correct:
  assumes "sched_inv idle s" "t \<noteq> idle" "int SCHED_PRIORITY_MIN \<le> p" "p \<le> int SCHED_PRIORITY_MAX"
  shows "\<exists>r s'. sched_setpriority t p s = Some (r, s') \<and> sched_inv idle s'
     \<and> (\<forall>a. prio s' a = (if a = t then nat p else prio s a))
     \<and> runnable s' = runnable s
     \<and> (\<forall>l. l \<noteq> ReadyToRun \<longrightarrow> l \<noteq> PendingTasks \<longrightarrow> mset (lists s' l) = mset (lists s l))
     \<and> (r = Done OK \<or> r = Switched \<and> \<not> current_regs s)"
proof -
  obtain r s' where "sched_setpriority t p s = Some (r, s')" "sched_inv idle s'" "reprio t (nat p) s s'"
    "r = Done OK \<or> r = Switched \<and> \<not> current_regs s"
    by (rule sched_setpriority_post [OF assms])
  then show ?thesis unfolding reprio_def by blast
qed

theorem sched_setpriority_correct_witness:
  "\<exists>r s'. sched_setpriority 3 200 ex_state = Some (r, s') \<and> sched_inv 0 s' \<and> prio s' 3 = 200 \<and> prio s' 1 = 100"
  using sched_setpriority_correct [of 0 ex_state 3 200, OF ex_state_inv]
  by (auto simp: ex_defs SCHED_PRIORITY_MIN_def SCHED_PRIORITY_MAX_def)

text \<open>
  C24. Round robin: when the time slice of the running task ends, the preemption lock is free and another
  task of its priority is ready, the timer interrupt puts the task behind all ready tasks of its
  priority, makes the next one the running task, and gives the task a new slice.
\<close>

theorem sched_process_timeslice_rotates:
  assumes inv: "sched_inv idle s" and r: "g_readytorun s = t # n # ns" and n: "prio s t \<le> prio s n"
    and lock: "lockcount (tcbs s t) = 0"
    and rr: "flags (tcbs s t) AND TCB_FLAG_ROUND_ROBIN \<noteq> 0" "timeslice (tcbs s t) \<le> 1"
  shows "\<exists>s'. sched_process_timeslice s = Some s' \<and> sched_inv idle s'
     \<and> g_readytorun s' = n # prio_insert (prio s) t ns
     \<and> timeslice (tcbs s' t) = MSEC2TICK CONFIG_RR_INTERVAL \<and> task_state (tcbs s' n) = TSTATE_TASK_RUNNING"
proof -
  let ?u = "upd_tcb t (\<lambda>b. b\<lparr>timeslice := MSEC2TICK CONFIG_RR_INTERVAL\<rparr>) s"
  have u: "sched_inv idle ?u" using inv by (simp add: sched_inv_upd_tcb)
  have pu: "prio ?u a = prio s a" for a by simp
  obtain s' where s': "up_reprioritize_rtr t (prio ?u t) ?u = Some (True, s')" "sched_inv idle s'" "sched_kept ?u s'"
    "lists s' = (lists ?u)(ReadyToRun := n # prio_insert (prio ?u) t ns)"
    by (rule up_reprioritize_rtr_rotate [OF u, of t n ns]) (use r n lock in auto)
  have "sched_process_timeslice s = Some s'"
    using s'(1) r n lock rr by (auto simp: sched_process_timeslice_def this_task_def)
  moreover have "timeslice (tcbs s' t) = MSEC2TICK CONFIG_RR_INTERVAL"
    using sched_rest_fields(7) [of s' ?u t] s'(3) by (simp add: sched_kept_def)
  moreover have "task_state (tcbs s' n) = TSTATE_TASK_RUNNING"
    using s'(2,4) by (simp add: sched_inv_def core_defs)
  moreover have "prio ?u = prio s" using pu by blast
  ultimately show ?thesis using s'(2,4) by auto
qed

theorem sched_process_timeslice_rotates_witness:
  "\<exists>s'. sched_process_timeslice ex_state = Some s' \<and> g_readytorun s' = [2, 1, 0]
     \<and> timeslice (tcbs s' 1) = MSEC2TICK CONFIG_RR_INTERVAL"
  using sched_process_timeslice_rotates [of 0 ex_state 1 2 "[0]", OF ex_state_inv]
  by (auto simp: ex_defs prio_insert_def TCB_FLAG_ROUND_ROBIN_def)

section \<open>The pointer code\<close>

text \<open>
  C38. The pointer manipulation of \<open>sched_addprioritized\<close> implements insertion into the prioritized list: on
  a well-formed doubly linked list it terminates, the list it leaves is well formed and has the task in
  front of the first task of smaller priority, no other memory changes, and the result tells whether
  the task became the head.
\<close>

theorem dq_addprioritized_refines:
  assumes "dq_rep s q xs" "tcb \<notin> set xs" "SCHED_PRIORITY_MIN \<le> pr tcb"
  shows "\<exists>t r. dq_addprioritized pr tcb s q = Some (xs = [] \<or> pr (hd xs) < pr tcb, t, r)
     \<and> dq_rep t r (prio_insert pr tcb xs) \<and> same_outside (insert tcb (set xs)) s t"
proof -
  have "(takeWhile (\<lambda>n. pr tcb \<le> pr n) xs = []) = (xs = [] \<or> pr (hd xs) < pr tcb)"
    by (cases xs) (auto simp: not_le)
  then show ?thesis using dq_addprioritized_result [OF assms(1,2), of pr] assms(3) by simp
qed

text \<open>Two tasks of priority 9 and 4 in the list, a third of priority 4 goes to the end.\<close>

theorem dq_addprioritized_refines_witness:
  "\<exists>s q t r. dq_rep s q [1, 2]
     \<and> dq_addprioritized ((\<lambda>_. 4)(1 := 9)) 3 s q = Some (False, t, r) \<and> dq_rep t r [1, 2, 3]"
proof -
  let ?s = "\<lparr>flink = (\<lambda>_. None)(1 := Some 2), blink = (\<lambda>_. None)(2 := Some 1)\<rparr>"
  let ?q = "\<lparr>dq_head = Some 1, dq_tail = Some 2\<rparr>"
  let ?pr = "(\<lambda>_. 4)(1 := 9) :: addr \<Rightarrow> nat"
  have rep: "dq_rep ?s ?q [1, 2]" by (simp add: dq_rep_def)
  from dq_addprioritized_refines [OF rep, of 3 ?pr] show ?thesis
    using rep by (auto simp: SCHED_PRIORITY_MIN_def prio_insert_def)
qed

end
