(* ===== verification/Task.thy ===== *)
theory Task
  imports Sched_Spec
begin

text \<open>
  Start-up and task creation: the state \<open>os_start\<close> builds, the assignment and release of process
  identifiers, \<open>thread_schedsetup\<close> and \<open>task_activate\<close> (src/os/kernel/init/os_start.c, src/os/kernel/task,
  src/os/kernel/sched/sched_releasetcb.c), and the steps the kernel takes from there. A TCB is fresh
  memory from \<open>kmm_zalloc\<close>: its address is an argument. The members of the TCB outside the model (entry
  point, signal mask, parent, register context, name, arguments) are not written here.
\<close>

section \<open>Operations\<close>

text \<open>The conversion to \<open>pid_t\<close>, a 16-bit integer.\<close>

definition to_pid :: "int \<Rightarrow> int" where
  "to_pid n = (n + 32768) mod 65536 - 32768"

definition INVALID_PROCESS_ID :: int where "INVALID_PROCESS_ID = -1"
definition TCB_FLAG_TTYPE_MASK :: "16 word" where "TCB_FLAG_TTYPE_MASK = 3"
definition TCB_FLAG_TTYPE_KERNEL :: "16 word" where "TCB_FLAG_TTYPE_KERNEL = 2"

definition os_start :: "addr \<Rightarrow> 'z kstate_scheme \<Rightarrow> 'z kstate_scheme" where
  "os_start g_idletcb s =
     (let s = s\<lparr>lists := (\<lambda>_. [])\<rparr>;
          s = s\<lparr>g_lastpid := 0, g_pidhash := (\<lambda>_. \<lparr>ph_tcb = None, ph_pid = INVALID_PROCESS_ID\<rparr>)\<rparr>;
          s = s\<lparr>g_pidhash := (g_pidhash s)(PIDHASH 0 := \<lparr>ph_tcb = Some g_idletcb, ph_pid = 0\<rparr>)\<rparr>;
          s = upd_tcb g_idletcb (\<lambda>_. zero_tcb\<lparr>task_state := TSTATE_TASK_RUNNING, flags := TCB_FLAG_TTYPE_KERNEL\<rparr>) s
      in set_list ReadyToRun (g_idletcb # lists s ReadyToRun) s)"

text \<open>The loop of \<open>task_assignpid\<close>; the first argument is the number of tries left.\<close>

fun assignpid_loop :: "nat \<Rightarrow> addr \<Rightarrow> 'z kstate_scheme \<Rightarrow> int \<times> 'z kstate_scheme" where
  "assignpid_loop 0 tcb s = (ERROR, s)"
| "assignpid_loop (Suc tries) tcb s =
     (let next_pid = to_pid (g_lastpid s + 1);
          next_pid = (if next_pid \<le> 0 then 1 else next_pid);
          s = s\<lparr>g_lastpid := next_pid\<rparr>;
          hash_ndx = PIDHASH next_pid
      in if ph_tcb (g_pidhash s hash_ndx) = None
         then (OK, upd_tcb tcb (\<lambda>b. b\<lparr>pid := next_pid\<rparr>)
                     (s\<lparr>g_pidhash := (g_pidhash s)(hash_ndx := \<lparr>ph_tcb = Some tcb, ph_pid = next_pid\<rparr>)\<rparr>))
         else assignpid_loop tries tcb s)"

definition task_assignpid :: "addr \<Rightarrow> 'z kstate_scheme \<Rightarrow> (int outcome \<times> 'z kstate_scheme) option" where
  "task_assignpid tcb s = do {
     s \<leftarrow> sched_lock s;
     let (ret, s) = assignpid_loop CONFIG_MAX_TASKS tcb s;
     (u, s) \<leftarrow> sched_unlock s;
     Some (case u of Done _ \<Rightarrow> Done ret | Switched \<Rightarrow> Switched, s)
   }"

definition sched_releasepid :: "int \<Rightarrow> 'z kstate_scheme \<Rightarrow> 'z kstate_scheme" where
  "sched_releasepid p s =
     s\<lparr>g_pidhash := (g_pidhash s)(PIDHASH p := \<lparr>ph_tcb = None, ph_pid = INVALID_PROCESS_ID\<rparr>)\<rparr>"

text \<open>
  The part of \<open>thread_schedsetup\<close> after the process identifier has been assigned. The second
  \<open>sched_lock\<close>/\<open>sched_unlock\<close> pair brackets the insertion at the head of the inactive list.
\<close>

definition thread_init :: "addr \<Rightarrow> int \<Rightarrow> 16 word \<Rightarrow> 'z kstate_scheme \<Rightarrow> (int outcome \<times> 'z kstate_scheme) option" where
  "thread_init tcb priority ttype s = do {
     let s = upd_tcb tcb (\<lambda>b. b\<lparr>sched_priority := nat priority, base_priority := nat priority,
               flags := (flags b AND NOT TCB_FLAG_TTYPE_MASK) OR (ttype AND TCB_FLAG_TTYPE_MASK) OR TCB_FLAG_ROUND_ROBIN,
               timeslice := MSEC2TICK CONFIG_RR_INTERVAL, task_state := TSTATE_TASK_INVALID\<rparr>) s;
     s \<leftarrow> sched_lock s;
     let s = set_list InactiveTasks (tcb # lists s InactiveTasks) s;
     let s = set_state tcb TSTATE_TASK_INACTIVE s;
     (u, s) \<leftarrow> sched_unlock s;
     Some (case u of Done _ \<Rightarrow> Done OK | Switched \<Rightarrow> Switched, s)
   }"

definition thread_schedsetup :: "addr \<Rightarrow> int \<Rightarrow> 16 word \<Rightarrow> 'z kstate_scheme \<Rightarrow> (int outcome \<times> 'z kstate_scheme) option" where
  "thread_schedsetup tcb priority ttype s =
     (if priority < int SCHED_PRIORITY_MIN \<or> priority > int SCHED_PRIORITY_MAX
      then Some (Done ERROR, set_errno EINVAL s)
      else do {
        (ret, s) \<leftarrow> task_assignpid tcb s;
        if ret = Done OK then thread_init tcb priority ttype s else Some (ret, s)
      })"

definition task_activate :: "addr \<Rightarrow> 'z kstate_scheme \<Rightarrow> (int outcome \<times> 'z kstate_scheme) option" where
  "task_activate tcb s = do {
     (sw, s) \<leftarrow> up_unblock_task tcb s;
     Some (switch_outcome sw s, s)
   }"

section \<open>Process identifiers\<close>

text \<open>The identifiers a search tries: one after the other, starting over at 1 after 32767.\<close>

definition next_pid :: "int \<Rightarrow> int" where
  "next_pid l = (let n = to_pid (l + 1) in if n \<le> 0 then 1 else n)"

lemma next_pid_eq: "0 \<le> l \<Longrightarrow> l \<le> 32767 \<Longrightarrow> next_pid l = (if l = 32767 then 1 else l + 1)"
  by (auto simp: next_pid_def to_pid_def)

lemma next_pid_range: "0 \<le> l \<Longrightarrow> l \<le> 32767 \<Longrightarrow> 1 \<le> next_pid l \<and> next_pid l \<le> 32767"
  by (auto simp: next_pid_eq)

lemma PIDHASH_mod: "PIDHASH p = nat (p mod 16)"
proof -
  have "p AND 15 = take_bit 4 p" using take_bit_eq_mask [of 4 p] by (simp add: mask_eq_exp_minus_1)
  then show ?thesis by (simp add: PIDHASH_def CONFIG_MAX_TASKS_def take_bit_eq_mod)
qed

lemma PIDHASH_lt [simp]: "PIDHASH p < 16"
  by (simp add: PIDHASH_mod nat_less_iff)

lemma next_pid_iter:
  "0 \<le> l \<Longrightarrow> l \<le> 32767 \<Longrightarrow> n \<le> 16 \<Longrightarrow>
     (next_pid ^^ n) l = (if l + int n \<le> 32767 then l + int n else l + int n - 32767)"
proof (induction n)
  case 0
  then show ?case by simp
next
  case (Suc n)
  then show ?case by (auto simp: next_pid_eq)
qed

text \<open>Sixteen tries reach every slot of the table but, when the count starts over, slot 0.\<close>

lemma next_pid_covers:
  assumes l: "0 \<le> l" "l \<le> 32767" and k: "1 \<le> k" "k < 16"
  shows "\<exists>n. 1 \<le> n \<and> n \<le> 16 \<and> PIDHASH ((next_pid ^^ n) l) = k"
proof (cases "l + 16 \<le> 32767")
  case True
  define n where "n = nat ((int k - l - 1) mod 16) + 1"
  have n: "1 \<le> n" "n \<le> 16" by (auto simp: n_def nat_le_iff)
  have "int n = 1 + (int k - l - 1) mod 16" by (simp add: n_def)
  then have "(l + int n) mod 16 = ((l + 1) + (int k - l - 1) mod 16) mod 16" by (simp only: add.assoc)
  also have "\<dots> = int k mod 16" by (simp only: mod_add_right_eq) simp
  finally have "(l + int n) mod 16 = int k mod 16" .
  then have "PIDHASH ((next_pid ^^ n) l) = k"
    using True n k by (simp add: next_pid_iter [OF l n(2)] PIDHASH_mod)
  with n show ?thesis by blast
next
  case False
  show ?thesis
  proof (cases "l + 1 \<le> 32752 + int k")
    case True
    define n where "n = nat (32752 + int k - l)"
    have "1 \<le> n" "n \<le> 16" "l + int n = 32752 + int k" using True False k by (auto simp: n_def)
    moreover have "(32752 + int k) mod 16 = int k" using k by presburger
    ultimately show ?thesis using k by (intro exI [of _ n]) (simp add: next_pid_iter [OF l] PIDHASH_mod)
  next
    case high: False
    define n where "n = nat (32767 + int k - l)"
    have "1 \<le> n" "n \<le> 16" "l + int n = 32767 + int k" using high l k by (auto simp: n_def)
    then show ?thesis using k by (intro exI [of _ n]) (simp add: next_pid_iter [OF l] PIDHASH_mod)
  qed
qed

definition pids_ok :: "addr \<Rightarrow> 'z kstate_scheme \<Rightarrow> bool" where
  "pids_ok idle s =
     (0 \<le> g_lastpid s \<and> g_lastpid s \<le> 32767
      \<and> g_pidhash s 0 = \<lparr>ph_tcb = Some idle, ph_pid = 0\<rparr>
      \<and> (\<forall>i t. ph_tcb (g_pidhash s i) = Some t \<longrightarrow>
            pid (tcbs s t) = ph_pid (g_pidhash s i) \<and> 0 \<le> ph_pid (g_pidhash s i) \<and> PIDHASH (ph_pid (g_pidhash s i)) = i))"

definition assign_pid :: "addr \<Rightarrow> int \<Rightarrow> 'z kstate_scheme \<Rightarrow> 'z kstate_scheme" where
  "assign_pid tcb p s = upd_tcb tcb (\<lambda>b. b\<lparr>pid := p\<rparr>)
     (s\<lparr>g_lastpid := p, g_pidhash := (g_pidhash s)(PIDHASH p := \<lparr>ph_tcb = Some tcb, ph_pid = p\<rparr>)\<rparr>)"

lemma assignpid_step:
  "assignpid_loop (Suc n) tcb s =
     (if ph_tcb (g_pidhash s (PIDHASH (next_pid (g_lastpid s)))) = None then (OK, assign_pid tcb (next_pid (g_lastpid s)) s)
      else assignpid_loop n tcb (s\<lparr>g_lastpid := next_pid (g_lastpid s)\<rparr>))"
  by (simp add: next_pid_def Let_def assign_pid_def)

declare assignpid_loop.simps(2) [simp del]

lemma assignpid_loop_free:
  "0 \<le> g_lastpid s \<Longrightarrow> g_lastpid s \<le> 32767 \<Longrightarrow> 1 \<le> m \<Longrightarrow> m \<le> n \<Longrightarrow>
     ph_tcb (g_pidhash s (PIDHASH ((next_pid ^^ m) (g_lastpid s)))) = None \<Longrightarrow>
     \<exists>p. assignpid_loop n tcb s = (OK, assign_pid tcb p s) \<and> 1 \<le> p \<and> p \<le> 32767 \<and> ph_tcb (g_pidhash s (PIDHASH p)) = None"
proof (induction n arbitrary: m s)
  case 0
  then show ?case by simp
next
  case (Suc n)
  let ?p = "next_pid (g_lastpid s)"
  have p: "1 \<le> ?p" "?p \<le> 32767" using next_pid_range Suc.prems by auto
  note step = assignpid_step [of n tcb s]
  show ?case
  proof (cases "ph_tcb (g_pidhash s (PIDHASH ?p)) = None")
    case True
    with p step show ?thesis by auto
  next
    case False
    then have "m \<noteq> 1" using Suc.prems(5) by auto
    then obtain k where k: "m = Suc k" "1 \<le> k" using Suc.prems(3) by (cases m) auto
    have "(next_pid ^^ k) ?p = (next_pid ^^ m) (g_lastpid s)" by (simp add: k(1) funpow_swap1)
    then have "\<exists>p. assignpid_loop n tcb (s\<lparr>g_lastpid := ?p\<rparr>) = (OK, assign_pid tcb p (s\<lparr>g_lastpid := ?p\<rparr>))
        \<and> 1 \<le> p \<and> p \<le> 32767 \<and> ph_tcb (g_pidhash (s\<lparr>g_lastpid := ?p\<rparr>) (PIDHASH p)) = None"
      using Suc.prems k p by (intro Suc.IH [of _ k]) simp_all
    moreover have "assign_pid tcb p (s\<lparr>g_lastpid := ?p\<rparr>) = assign_pid tcb p s" for p
      by (simp add: assign_pid_def upd_tcb_def)
    ultimately show ?thesis using False step by auto
  qed
qed

lemma assignpid_loop_full:
  "\<forall>i < 16. ph_tcb (g_pidhash s i) \<noteq> None \<Longrightarrow>
     fst (assignpid_loop n tcb s) = ERROR \<and> (\<exists>l. snd (assignpid_loop n tcb s) = s\<lparr>g_lastpid := l\<rparr>)"
proof (induction n arbitrary: s)
  case 0
  then show ?case by (auto intro: exI [of _ "g_lastpid s"])
next
  case (Suc n)
  let ?p = "next_pid (g_lastpid s)"
  have "assignpid_loop (Suc n) tcb s = assignpid_loop n tcb (s\<lparr>g_lastpid := ?p\<rparr>)"
    using Suc.prems by (simp add: assignpid_step) (metis PIDHASH_lt option.distinct(1))
  then show ?case using Suc.IH [of "s\<lparr>g_lastpid := ?p\<rparr>"] Suc.prems by auto
qed

text \<open>With no task pending, taking the preemption lock and releasing it changes nothing.\<close>

lemma sched_unlock_after_lock:
  assumes r: "g_readytorun s = t # ts" and irq: "\<not> current_regs s" and n: "0 \<le> lockcount (tcbs s t)" "lockcount (tcbs s t) < MAX_LOCK_COUNT"
    and pend: "g_pendingtasks s \<noteq> [] \<longrightarrow> 0 < lockcount (tcbs s t)"
  shows "sched_unlock (upd_tcb t (\<lambda>b. b\<lparr>lockcount := lockcount (tcbs s t) + 1\<rparr>) s) = Some (Done OK, s)"
proof -
  have "(tcbs s t)\<lparr>lockcount := lockcount (tcbs s t)\<rparr> = tcbs s t" by simp
  then have id: "upd_tcb t (\<lambda>b. b\<lparr>lockcount := lockcount (tcbs s t)\<rparr>) s = s" by (simp add: upd_tcb_def)
  show ?thesis
  proof (cases "lockcount (tcbs s t) = 0")
    case True
    have "g_pendingtasks s = []" using pend True by auto
    then show ?thesis using r irq True id
      by (simp add: sched_unlock_def Let_def upd_tcb_def sched_unlock_rr_def this_task_def)
  next
    case False
    then show ?thesis using r irq n id by (simp add: sched_unlock_def Let_def upd_tcb_def)
  qed
qed

lemma tcb_lockcount_pid: "b\<lparr>lockcount := n, pid := p\<rparr> = b\<lparr>pid := p, lockcount := n\<rparr>"
  by simp

lemma assign_pid_obs [simp]:
  "lists (assign_pid tcb p s) = lists s" "current_regs (assign_pid tcb p s) = current_regs s"
  "task_state (tcbs (assign_pid tcb p s) a) = task_state (tcbs s a)" "prio (assign_pid tcb p s) a = prio s a"
  "lockcount (tcbs (assign_pid tcb p s) a) = lockcount (tcbs s a)"
  "pid (tcbs (assign_pid tcb p s) a) = (if a = tcb then p else pid (tcbs s a))"
  "g_lastpid (assign_pid tcb p s) = p"
  "g_pidhash (assign_pid tcb p s) = (g_pidhash s)(PIDHASH p := \<lparr>ph_tcb = Some tcb, ph_pid = p\<rparr>)"
  by (simp_all add: assign_pid_def upd_tcb_def)

lemma sched_inv_assign_pid [simp]: "sched_inv idle (assign_pid tcb p s) = sched_inv idle s"
  by (simp add: assign_pid_def sched_inv_upd_tcb)

lemma assign_pid_lock:
  "assign_pid tcb p (upd_tcb r (\<lambda>b. b\<lparr>lockcount := n\<rparr>) s) = upd_tcb r (\<lambda>b. b\<lparr>lockcount := n\<rparr>) (assign_pid tcb p s)"
  by (cases "tcb = r") (auto simp: assign_pid_def upd_tcb_def fun_upd_twist tcb_lockcount_pid)

lemma task_assignpid_free:
  assumes inv: "sched_inv idle s" and pids: "pids_ok idle s" and irq: "\<not> current_regs s"
    and lock: "lockcount (tcbs s (hd (g_readytorun s))) < MAX_LOCK_COUNT"
    and free: "1 \<le> k" "k < 16" "ph_tcb (g_pidhash s k) = None"
    and fresh: "\<forall>i. ph_tcb (g_pidhash s i) \<noteq> Some tcb"
  obtains p where "task_assignpid tcb s = Some (Done OK, assign_pid tcb p s)" "1 \<le> p" "p \<le> 32767"
    "ph_tcb (g_pidhash s (PIDHASH p)) = None" "pids_ok idle (assign_pid tcb p s)"
proof -
  have core: "sched_core idle s" and pend: "pend_ok s" using inv by (simp_all add: sched_inv_def)
  obtain r rs where r: "g_readytorun s = r # rs" using core_ready(1) [OF core] by (cases "g_readytorun s") auto
  have n: "0 \<le> lockcount (tcbs s r)" using core by (simp add: core_defs)
  let ?l = "upd_tcb r (\<lambda>b. b\<lparr>lockcount := lockcount (tcbs s r) + 1\<rparr>)"
  have l: "sched_lock s = Some (?l s)" using r irq lock by (simp add: sched_lock_def upd_tcb_def)
  obtain m where "1 \<le> m" "m \<le> 16" "PIDHASH ((next_pid ^^ m) (g_lastpid s)) = k"
    using next_pid_covers [of "g_lastpid s" k] pids free by (auto simp: pids_ok_def)
  then obtain p where p: "assignpid_loop 16 tcb (?l s) = (OK, assign_pid tcb p (?l s))" "1 \<le> p" "p \<le> 32767"
    "ph_tcb (g_pidhash s (PIDHASH p)) = None"
    using assignpid_loop_free [of "?l s" m 16 tcb] pids free(3) by (auto simp: pids_ok_def upd_tcb_def)
  have "sched_unlock (?l (assign_pid tcb p s)) = Some (Done OK, assign_pid tcb p s)"
    using sched_unlock_after_lock [of "assign_pid tcb p s" r rs] r irq n lock pend by (simp add: pend_ok_def)
  with l p(1) have eq: "task_assignpid tcb s = Some (Done OK, assign_pid tcb p s)"
    by (simp add: task_assignpid_def CONFIG_MAX_TASKS_def assign_pid_lock)
  have "PIDHASH p \<noteq> 0" using p(4) pids by (auto simp: pids_ok_def intro: ccontr)
  then have "pids_ok idle (assign_pid tcb p s)" using pids p fresh by (auto simp: pids_ok_def)
  with eq p show ?thesis by (intro that [of p])
qed

text \<open>
  C26. Process identifiers are unique: if one of the fifteen slots besides the idle task's is free,
  \<open>task_assignpid\<close> finds a free slot, whatever number it starts from and also when the numbers start over,
  and returns \<open>OK\<close> with an identifier that belonged to no task; the identifier then leads to the new
  task, every other identifier to the task it led to before, and the table is still consistent.
\<close>

theorem task_assignpid_correct:
  assumes "sched_inv idle s" "pids_ok idle s" "\<not> current_regs s"
    and "lockcount (tcbs s (hd (g_readytorun s))) < MAX_LOCK_COUNT"
    and "1 \<le> k" "k < 16" "ph_tcb (g_pidhash s k) = None"
    and "\<forall>i. ph_tcb (g_pidhash s i) \<noteq> Some tcb"
  shows "\<exists>p s'. task_assignpid tcb s = Some (Done OK, s') \<and> sched_inv idle s' \<and> pids_ok idle s'
     \<and> lists s' = lists s \<and> pid (tcbs s' tcb) = p \<and> 1 \<le> p \<and> p \<le> 32767 \<and> sched_gettcb p s = None
     \<and> (\<forall>q. sched_gettcb q s' = (if q = p then Some tcb else sched_gettcb q s))"
proof -
  obtain p where p: "task_assignpid tcb s = Some (Done OK, assign_pid tcb p s)" "1 \<le> p" "p \<le> 32767"
    "ph_tcb (g_pidhash s (PIDHASH p)) = None" "pids_ok idle (assign_pid tcb p s)"
    by (rule task_assignpid_free [OF assms])
  then have "sched_gettcb q (assign_pid tcb p s) = (if q = p then Some tcb else sched_gettcb q s)" for q
    by (auto simp: sched_gettcb_def)
  moreover have "sched_gettcb p s = None" using p(4) by (simp add: sched_gettcb_def)
  ultimately show ?thesis using p assms(1) by (intro exI [of _ p] exI [of _ "assign_pid tcb p s"]) simp
qed

lemma ex_pids_ok: "pids_ok 0 ex_state"
proof -
  have "pid (ex_tcb i) = int i" "PIDHASH (int i) = i" if "i < 5" for i
  proof -
    from that have "i = 0 \<or> i = 1 \<or> i = 2 \<or> i = 3 \<or> i = 4" by linarith
    then show "pid (ex_tcb i) = int i" "PIDHASH (int i) = i" by (auto simp: ex_tcb_def zero_tcb_def PIDHASH_mod)
  qed
  then show ?thesis by (auto simp: pids_ok_def ex_state_def ex_pidhash_def split: if_splits)
qed

theorem task_assignpid_correct_witness:
  "\<exists>p s'. task_assignpid 9 ex_state = Some (Done OK, s') \<and> 1 \<le> p \<and> sched_gettcb p ex_state = None
     \<and> sched_gettcb p s' = Some 9 \<and> sched_gettcb 3 s' = Some 3"
proof -
  have "sched_gettcb 3 ex_state = Some 3" by (simp add: sched_gettcb_def ex_state_def ex_pidhash_def PIDHASH_mod)
  moreover have "\<forall>i. ph_tcb (g_pidhash ex_state i) \<noteq> Some 9" "ph_tcb (g_pidhash ex_state 5) = None"
    "\<not> current_regs ex_state" "lockcount (tcbs ex_state (hd (g_readytorun ex_state))) < MAX_LOCK_COUNT"
    by (simp_all add: ex_defs ex_pidhash_def MAX_LOCK_COUNT_def)
  ultimately show ?thesis
    using task_assignpid_correct [of 0 ex_state 5 9, OF ex_state_inv ex_pids_ok] by fastforce
qed

text \<open>When every slot is taken the search gives up: \<open>ERROR\<close>, and only \<open>g_lastpid\<close> has moved.\<close>

lemma task_assignpid_full:
  assumes inv: "sched_inv idle s" and irq: "\<not> current_regs s"
    and lock: "lockcount (tcbs s (hd (g_readytorun s))) < MAX_LOCK_COUNT"
    and full: "\<forall>i < 16. ph_tcb (g_pidhash s i) \<noteq> None"
  obtains l where "task_assignpid tcb s = Some (Done ERROR, s\<lparr>g_lastpid := l\<rparr>)"
proof -
  have core: "sched_core idle s" and pend: "pend_ok s" using inv by (simp_all add: sched_inv_def)
  obtain r rs where r: "g_readytorun s = r # rs" using core_ready(1) [OF core] by (cases "g_readytorun s") auto
  have n: "0 \<le> lockcount (tcbs s r)" using core by (simp add: core_defs)
  let ?l = "upd_tcb r (\<lambda>b. b\<lparr>lockcount := lockcount (tcbs s r) + 1\<rparr>)"
  have l: "sched_lock s = Some (?l s)" using r irq lock by (simp add: sched_lock_def upd_tcb_def)
  obtain k where k: "assignpid_loop 16 tcb (?l s) = (ERROR, (?l s)\<lparr>g_lastpid := k\<rparr>)"
    using assignpid_loop_full [of "?l s" 16 tcb] full by (cases "assignpid_loop 16 tcb (?l s)") auto
  have "(?l s)\<lparr>g_lastpid := k\<rparr> = ?l (s\<lparr>g_lastpid := k\<rparr>)" by (simp add: upd_tcb_def)
  moreover have "sched_unlock (?l (s\<lparr>g_lastpid := k\<rparr>)) = Some (Done OK, s\<lparr>g_lastpid := k\<rparr>)"
    using sched_unlock_after_lock [of "s\<lparr>g_lastpid := k\<rparr>" r rs] r irq n lock pend by (simp add: pend_ok_def)
  ultimately show ?thesis
    using that [of k] l k by (simp add: task_assignpid_def CONFIG_MAX_TASKS_def)
qed

section \<open>Setting a thread up and starting it\<close>

lemma core_upd_invalid:
  assumes core: "sched_core idle s" and inv: "task_state (tcbs s t) = TSTATE_TASK_INVALID"
    and f: "task_state (f (tcbs s t)) = TSTATE_TASK_INVALID" "lockcount (f (tcbs s t)) = lockcount (tcbs s t)"
  shows "sched_core idle (upd_tcb t f s)"
proof -
  have ok: "lists_ok s" using core by (simp add: sched_core_def)
  have "descending (prio (upd_tcb t f s)) (lists s l) = descending (prio s) (lists s l)" for l
    by (rule descending_cong) (use lists_ok_invalid [OF ok inv, of l] in auto)
  with ok inv f have "lists_ok (upd_tcb t f s)" by (auto simp: lists_ok_def)
  moreover have "t \<notin> set (g_readytorun s)" using lists_ok_invalid [OF ok inv] .
  moreover from this core have "t \<noteq> idle" by (auto simp: core_defs)
  ultimately show ?thesis using core inv f by (auto simp: core_defs)
qed

text \<open>The TCB as \<open>thread_init\<close> leaves it in the inactive list.\<close>

definition inactive_tcb :: "int \<Rightarrow> 16 word \<Rightarrow> tcb \<Rightarrow> tcb" where
  "inactive_tcb priority ttype b = b\<lparr>sched_priority := nat priority, base_priority := nat priority,
     flags := (flags b AND NOT TCB_FLAG_TTYPE_MASK) OR (ttype AND TCB_FLAG_TTYPE_MASK) OR TCB_FLAG_ROUND_ROBIN,
     timeslice := MSEC2TICK CONFIG_RR_INTERVAL, task_state := TSTATE_TASK_INACTIVE\<rparr>"

lemma thread_init_post:
  fixes ttype :: "16 word"
  assumes inv: "sched_inv idle s" and irq: "\<not> current_regs s"
    and lock: "lockcount (tcbs s (hd (g_readytorun s))) < MAX_LOCK_COUNT"
    and t: "task_state (tcbs s tcb) = TSTATE_TASK_INVALID"
    and p: "int SCHED_PRIORITY_MIN \<le> p" "p \<le> int SCHED_PRIORITY_MAX"
  defines "s' \<equiv> set_list InactiveTasks (tcb # lists s InactiveTasks) (upd_tcb tcb (inactive_tcb p ttype) s)"
  shows "thread_init tcb p ttype s = Some (Done OK, s')" "sched_inv idle s'"
proof -
  have core: "sched_core idle s" and pend: "pend_ok s" using inv by (simp_all add: sched_inv_def)
  have ok: "lists_ok s" using core by (simp add: sched_core_def)
  obtain r rs where r: "g_readytorun s = r # rs" using core_ready(1) [OF core] by (cases "g_readytorun s") auto
  have n: "0 \<le> lockcount (tcbs s r)" using core by (simp add: core_defs)
  have out: "tcb \<notin> set (lists s l)" for l using lists_ok_invalid [OF ok t] .
  then have rt: "r \<noteq> tcb" using r by (metis list.set_intros(1))
  let ?l = "\<lambda>s. upd_tcb r (\<lambda>b. b\<lparr>lockcount := lockcount (tcbs s r) + 1\<rparr>) s"
  let ?f = "\<lambda>b. b\<lparr>sched_priority := nat p, base_priority := nat p,
     flags := (flags b AND NOT TCB_FLAG_TTYPE_MASK) OR (ttype AND TCB_FLAG_TTYPE_MASK) OR TCB_FLAG_ROUND_ROBIN,
     timeslice := MSEC2TICK CONFIG_RR_INTERVAL, task_state := TSTATE_TASK_INVALID\<rparr>"
  define s1 where "s1 = upd_tcb tcb ?f s"
  have s': "s' = set_state tcb TSTATE_TASK_INACTIVE (set_list InactiveTasks (tcb # lists s InactiveTasks) s1)"
    by (simp add: s'_def s1_def set_state_def upd_tcb_def set_list_def inactive_tcb_def)
  have core1: "sched_core idle s1" unfolding s1_def by (rule core_upd_invalid [OF core t]) simp_all
  have "sched_core idle s'" unfolding s'
    by (rule core_enter [OF core1]) (use p out [of InactiveTasks] core_lists(2) [OF core, of InactiveTasks] in \<open>auto simp: s1_def prioritized_def\<close>)
  moreover have "pend_ok s'" using pend r rt by (simp add: pend_ok_def s' s1_def)
  ultimately show inv': "sched_inv idle s'" by (simp add: sched_inv_def)
  have obs: "g_readytorun s' = r # rs" "\<not> current_regs s'" "lockcount (tcbs s' r) = lockcount (tcbs s r)" "g_pendingtasks s' = g_pendingtasks s"
    using r irq rt by (simp_all add: s' s1_def)
  have "sched_lock s1 = Some (?l s1)" using r irq lock rt by (simp add: s1_def sched_lock_def upd_tcb_def)
  moreover have "set_state tcb TSTATE_TASK_INACTIVE (set_list InactiveTasks (tcb # lists (?l s1) InactiveTasks) (?l s1)) = ?l s'"
    using rt by (simp add: s' s1_def set_state_def upd_tcb_def set_list_def fun_upd_twist)
  moreover have "sched_unlock (?l s') = Some (Done OK, s')"
    using sched_unlock_after_lock [of s' r rs] obs n lock pend r by (simp add: pend_ok_def)
  ultimately show "thread_init tcb p ttype s = Some (Done OK, s')"
    by (simp add: thread_init_def s1_def)
qed

end
