(* ===== verification/Kernel.thy ===== *)
theory Kernel
  imports Task
begin

text \<open>
  The scheduler as a state machine: from the state \<open>os_start\<close> builds, tasks are created and started, block
  and are woken, change priorities, lock preemption, yield, and the timer interrupt charges time slices, in
  any order. Every call is shown to return and to keep the invariant, so what the invariant says of a single
  state holds in every reachable one: the processor belongs to a task of highest priority.
\<close>

section \<open>Setting up and starting a thread\<close>

lemma pids_ok_rest:
  assumes "task_rest s' = task_rest s"
  shows "pids_ok idle s' = pids_ok idle s"
proof -
  have "pids_ok idle (task_rest u) = pids_ok idle u" for u :: "'a kstate_scheme"
    by (simp add: pids_ok_def task_rest_obs)
  then show ?thesis using assms by metis
qed

lemma pids_ok_sched_rest:
  assumes "sched_rest s' = sched_rest s"
  shows "pids_ok idle s' = pids_ok idle s"
proof -
  have "pids_ok idle (sched_rest u) = pids_ok idle u" for u :: "'a kstate_scheme"
    by (simp add: pids_ok_def sched_rest_obs)
  then show ?thesis using assms by metis
qed

lemma pids_ok_upd_tcb:
  assumes "\<And>b. pid (f b) = pid b"
  shows "pids_ok idle (upd_tcb t f s) = pids_ok idle s"
proof -
  have "pid (tcbs (upd_tcb t f s) a) = pid (tcbs s a)" "g_lastpid (upd_tcb t f s) = g_lastpid s" for a
    using assms by (simp_all add: upd_tcb_def)
  then show ?thesis by (simp add: pids_ok_def del: upd_simps(1))
qed

lemma pids_ok_set [simp]:
  "pids_ok idle (set_list l xs s) = pids_ok idle s" "pids_ok idle (set_errno e s) = pids_ok idle s"
  "pids_ok idle (s\<lparr>current_regs := b\<rparr>) = pids_ok idle s"
  by (auto simp: pids_ok_def set_list_def set_errno_def upd_tcb_def split: list.split)

text \<open>The conditions under which a thread can be created: a free slot, and a TCB that is in use nowhere.\<close>

definition can_create :: "addr \<Rightarrow> 'z kstate_scheme \<Rightarrow> bool" where
  "can_create tcb s =
     (\<not> current_regs s \<and> lockcount (tcbs s (hd (g_readytorun s))) < MAX_LOCK_COUNT
      \<and> (\<exists>k. 1 \<le> k \<and> k < 16 \<and> ph_tcb (g_pidhash s k) = None)
      \<and> (\<forall>i. ph_tcb (g_pidhash s i) \<noteq> Some tcb) \<and> task_state (tcbs s tcb) = TSTATE_TASK_INVALID)"

lemma thread_schedsetup_post:
  assumes inv: "sched_inv idle s" and pids: "pids_ok idle s" and c: "can_create tcb s"
    and p: "int SCHED_PRIORITY_MIN \<le> priority" "priority \<le> int SCHED_PRIORITY_MAX"
  obtains p s' where "thread_schedsetup tcb priority ttype s = Some (Done OK, s')" "sched_inv idle s'" "pids_ok idle s'"
    "lists s' = (lists s)(InactiveTasks := tcb # lists s InactiveTasks)"
    "tcbs s' = (tcbs s)(tcb := inactive_tcb priority ttype ((tcbs s tcb)\<lparr>pid := p\<rparr>))"
    "\<forall>q. sched_gettcb q s' = (if q = p then Some tcb else sched_gettcb q s)" "sched_gettcb p s = None"
    "current_regs s' = current_regs s"
proof -
  obtain k where free: "1 \<le> k" "k < 16" "ph_tcb (g_pidhash s k) = None" using c by (auto simp: can_create_def)
  have pre: "\<not> current_regs s" "lockcount (tcbs s (hd (g_readytorun s))) < MAX_LOCK_COUNT"
    "\<forall>i. ph_tcb (g_pidhash s i) \<noteq> Some tcb" "task_state (tcbs s tcb) = TSTATE_TASK_INVALID"
    using c by (auto simp: can_create_def)
  obtain p where p': "task_assignpid tcb s = Some (Done OK, assign_pid tcb p s)" "1 \<le> p" "p \<le> 32767"
    "ph_tcb (g_pidhash s (PIDHASH p)) = None" "pids_ok idle (assign_pid tcb p s)"
    by (rule task_assignpid_free [OF inv pids pre(1,2) free pre(3)])
  let ?a = "assign_pid tcb p s"
  let ?s = "set_list InactiveTasks (tcb # lists ?a InactiveTasks) (upd_tcb tcb (inactive_tcb priority ttype) ?a)"
  have "sched_inv idle ?a" "\<not> current_regs ?a" "lockcount (tcbs ?a (hd (g_readytorun ?a))) < MAX_LOCK_COUNT"
    "task_state (tcbs ?a tcb) = TSTATE_TASK_INVALID"
    using inv pre by simp_all
  note init = thread_init_post [OF this p, of ttype]
  have "thread_schedsetup tcb priority ttype s = Some (Done OK, ?s)"
    using p p'(1) init(1) by (simp add: thread_schedsetup_def)
  moreover have "pids_ok idle ?s" using p'(5) by (simp add: pids_ok_upd_tcb inactive_tcb_def)
  moreover have "tcbs ?a = (tcbs s)(tcb := (tcbs s tcb)\<lparr>pid := p\<rparr>)" by (simp add: assign_pid_def upd_tcb_def)
  moreover have "sched_gettcb q ?s = (if q = p then Some tcb else sched_gettcb q s)" for q
    using p'(2,4) by (auto simp: sched_gettcb_def)
  moreover have "sched_gettcb p s = None" using p'(4) by (simp add: sched_gettcb_def)
  ultimately show ?thesis using init(2) by (intro that [of ?s p]) simp_all
qed

text \<open>
  C25. Creating and starting a thread: with a priority in range, a free identifier and an unused TCB,
  \<open>thread_schedsetup\<close> succeeds and \<open>task_activate\<close> then makes the thread runnable. Its identifier is new and
  leads to it, all other identifiers lead where they did; the thread has the priority asked for and starts
  with a full time slice; it gets the processor at once exactly when the creator has not locked preemption and
  has a smaller priority.
\<close>

theorem thread_create_correct:
  assumes inv: "sched_inv idle s" and pids: "pids_ok idle s" and c: "can_create tcb s"
    and p: "int SCHED_PRIORITY_MIN \<le> priority" "priority \<le> int SCHED_PRIORITY_MAX"
  shows "\<exists>p s1 r s2. thread_schedsetup tcb priority ttype s = Some (Done OK, s1) \<and> task_activate tcb s1 = Some (r, s2)
     \<and> sched_inv idle s2 \<and> pids_ok idle s2 \<and> runnable s2 = add_mset tcb (runnable s) \<and> same_blocked s s2
     \<and> int (prio s2 tcb) = priority \<and> timeslice (tcbs s2 tcb) = MSEC2TICK CONFIG_RR_INTERVAL
     \<and> sched_gettcb p s = None \<and> (\<forall>q. sched_gettcb q s2 = (if q = p then Some tcb else sched_gettcb q s))
     \<and> (r = Switched \<longleftrightarrow> lockcount (tcbs s (hd (g_readytorun s))) = 0 \<and> int (prio s (hd (g_readytorun s))) < priority)
     \<and> hd (g_readytorun s2) = (if r = Switched then tcb else hd (g_readytorun s))"
proof -
  obtain p s1 where s1: "thread_schedsetup tcb priority ttype s = Some (Done OK, s1)" "sched_inv idle s1" "pids_ok idle s1"
    "lists s1 = (lists s)(InactiveTasks := tcb # lists s InactiveTasks)"
    "tcbs s1 = (tcbs s)(tcb := inactive_tcb priority ttype ((tcbs s tcb)\<lparr>pid := p\<rparr>))"
    "\<forall>q. sched_gettcb q s1 = (if q = p then Some tcb else sched_gettcb q s)" "sched_gettcb p s = None"
    "current_regs s1 = current_regs s"
    by (rule thread_schedsetup_post [OF assms])
  have core: "sched_core idle s" using inv by (simp add: sched_inv_def)
  have "tcb \<notin> set (g_readytorun s)" using core c by (auto simp: core_defs can_create_def dest: lists_ok_invalid)
  then have h: "hd (g_readytorun s) \<noteq> tcb" using core_ready(1) [OF core] by (metis hd_in_set)
  obtain sw s2 where s2: "up_unblock_task tcb s1 = Some (sw, s2)" "sched_inv idle s2" "sched_kept s1 s2"
    "lists s2 InactiveTasks = remove1 tcb (lists s1 InactiveTasks)"
    "\<forall>m. m \<noteq> InactiveTasks \<longrightarrow> m \<noteq> ReadyToRun \<longrightarrow> m \<noteq> PendingTasks \<longrightarrow> lists s2 m = lists s1 m"
    "runnable s2 = add_mset tcb (runnable s1)"
    "hd (g_readytorun s2) = (if sw then tcb else hd (g_readytorun s1))"
    "sw = (lockcount (tcbs s1 (hd (g_readytorun s1))) = 0 \<and> prio s1 (hd (g_readytorun s1)) < prio s1 tcb)"
    by (rule up_unblock_task_post [OF s1(2), of tcb InactiveTasks]) (simp_all add: s1(4))
  have rest: "sched_rest s2 = sched_rest s1" using s2(3) by (simp add: sched_kept_def)
  note f = sched_rest_fields [OF rest]
  have irq: "\<not> current_regs s2" using c by (simp add: f s1(8) can_create_def)
  have "sched_gettcb q s2 = sched_gettcb q s1" for q by (simp add: sched_gettcb_def f)
  moreover have "same_blocked s s2" unfolding same_blocked_def
  proof (intro allI impI)
    fix l assume "l \<noteq> ReadyToRun" "l \<noteq> PendingTasks"
    then show "lists s2 l = lists s l" using s2(4,5) s1(4) by (cases "l = InactiveTasks") auto
  qed
  moreover have "pids_ok idle s2" using pids_ok_sched_rest [OF rest] s1(3) by simp
  moreover have "prio s1 tcb = nat priority" "timeslice (tcbs s1 tcb) = MSEC2TICK CONFIG_RR_INTERVAL"
    by (simp_all add: s1(5) inactive_tcb_def)
  moreover have "(nat priority > prio s (hd (g_readytorun s))) = (int (prio s (hd (g_readytorun s))) < priority)"
    by linarith
  ultimately show ?thesis
    using s1 s2 irq p h
    by (intro exI [of _ p] exI [of _ s1] exI [of _ "switch_outcome sw s2"] exI [of _ s2])
      (auto simp: task_activate_def switch_outcome_def f sched_kept_prio [OF s2(3)])
qed

theorem thread_create_correct_witness:
  "\<exists>p s1 s2. thread_schedsetup 9 130 0 ex_state = Some (Done OK, s1) \<and> task_activate 9 s1 = Some (Switched, s2)
     \<and> hd (g_readytorun s2) = 9 \<and> sched_gettcb p s2 = Some 9"
proof -
  have "\<exists>k. 1 \<le> k \<and> k < 16 \<and> ph_tcb (g_pidhash ex_state k) = None"
    by (rule exI [of _ 5]) (simp add: ex_state_def ex_pidhash_def)
  then have "can_create 9 ex_state" by (simp add: can_create_def ex_defs ex_pidhash_def MAX_LOCK_COUNT_def)
  moreover have "lockcount (tcbs ex_state (hd (g_readytorun ex_state))) = 0" "prio ex_state (hd (g_readytorun ex_state)) = 100"
    by (simp_all add: ex_defs)
  ultimately show ?thesis
    using thread_create_correct [of 0 ex_state 9 130 0, OF ex_state_inv ex_pids_ok]
    by (fastforce simp: SCHED_PRIORITY_MIN_def SCHED_PRIORITY_MAX_def)
qed

section \<open>Start-up\<close>

text \<open>The kernel's data before \<open>os_start\<close>: zero-initialised memory, outside of any interrupt.\<close>

definition at_reset :: "'z kstate_scheme \<Rightarrow> bool" where
  "at_reset s = (tcbs s = (\<lambda>_. zero_tcb) \<and> \<not> current_regs s)"

lemma os_start_obs:
  "lists (os_start idle s) = (\<lambda>_. [])(ReadyToRun := [idle])"
  "tcbs (os_start idle s) = (tcbs s)(idle := zero_tcb\<lparr>task_state := TSTATE_TASK_RUNNING, flags := TCB_FLAG_TTYPE_KERNEL\<rparr>)"
  "g_lastpid (os_start idle s) = 0" "current_regs (os_start idle s) = current_regs s"
  "g_pidhash (os_start idle s) = (\<lambda>_. \<lparr>ph_tcb = None, ph_pid = INVALID_PROCESS_ID\<rparr>)(0 := \<lparr>ph_tcb = Some idle, ph_pid = 0\<rparr>)"
  by (simp_all add: os_start_def Let_def upd_tcb_def set_list_def PIDHASH_mod)

lemma os_start_inv:
  assumes "at_reset s"
  shows "sched_inv idle (os_start idle s)" "pids_ok idle (os_start idle s)"
proof -
  have t: "tcbs s = (\<lambda>_. zero_tcb)" using assms by (simp add: at_reset_def)
  have "lists_ok (os_start idle s)" unfolding lists_ok_def os_start_obs t
    by (auto simp: zero_tcb_def descending_def)
  then show "sched_inv idle (os_start idle s)"
    by (simp add: sched_inv_def pend_ok_def core_defs os_start_obs t zero_tcb_def)
  show "pids_ok idle (os_start idle s)"
    by (auto simp: pids_ok_def os_start_obs zero_tcb_def PIDHASH_mod split: if_splits)
qed

section \<open>The kernel as a state machine\<close>

datatype kcall =
    Create addr int "16 word"
  | Activate addr
  | Block addr tstate
  | Unblock addr
  | SetPriority addr int
  | Lock
  | Unlock
  | Yield
  | Tick
  | EnterIrq
  | LeaveIrq

text \<open>What a call does to the state; the value it returns to its caller does not matter here.\<close>

fun kexec :: "kcall \<Rightarrow> 'z kstate_scheme \<Rightarrow> 'z kstate_scheme option" where
  "kexec (Create tcb priority ttype) s = map_option snd (thread_schedsetup tcb priority ttype s)"
| "kexec (Activate tcb) s = map_option snd (task_activate tcb s)"
| "kexec (Block tcb st) s = map_option snd (up_block_task tcb st s)"
| "kexec (Unblock tcb) s = map_option snd (up_unblock_task tcb s)"
| "kexec (SetPriority tcb p) s = map_option snd (sched_setpriority tcb p s)"
| "kexec Lock s = sched_lock s"
| "kexec Unlock s = map_option snd (sched_unlock s)"
| "kexec Yield s = map_option snd (sched_yield s)"
| "kexec Tick s = sched_process_timeslice s"
| "kexec EnterIrq s = Some (s\<lparr>current_regs := True\<rparr>)"
| "kexec LeaveIrq s = Some (s\<lparr>current_regs := False\<rparr>)"

text \<open>When a call may be made: the caller's side of the contract, and no more than that.\<close>

fun allowed :: "addr \<Rightarrow> kcall \<Rightarrow> 'z kstate_scheme \<Rightarrow> bool" where
  "allowed idle (Create tcb priority ttype) s =
     (can_create tcb s \<or> priority < int SCHED_PRIORITY_MIN \<or> priority > int SCHED_PRIORITY_MAX)"
| "allowed idle (Activate tcb) s = (task_state (tcbs s tcb) = TSTATE_TASK_INACTIVE)"
| "allowed idle (Block tcb st) s = (tcb \<in> set (g_readytorun s) \<and> tcb \<noteq> idle \<and> blocked_state st)"
| "allowed idle (Unblock tcb) s = blocked_state (task_state (tcbs s tcb))"
| "allowed idle (SetPriority tcb p) s = (tcb \<noteq> idle)"
| "allowed idle Lock s = (current_regs s \<or> lockcount (tcbs s (hd (g_readytorun s))) < MAX_LOCK_COUNT)"
| "allowed idle Unlock s = True"
| "allowed idle Yield s = (\<not> current_regs s)"
| "allowed idle Tick s = current_regs s"
| "allowed idle EnterIrq s = (\<not> current_regs s)"
| "allowed idle LeaveIrq s = current_regs s"

inductive kreach :: "addr \<Rightarrow> 'z kstate_scheme \<Rightarrow> bool" for idle where
  boot: "at_reset s \<Longrightarrow> kreach idle (os_start idle s)"
| call: "kreach idle s \<Longrightarrow> allowed idle c s \<Longrightarrow> kexec c s = Some s' \<Longrightarrow> kreach idle s'"

definition kinv :: "addr \<Rightarrow> 'z kstate_scheme \<Rightarrow> bool" where
  "kinv idle s = (sched_inv idle s \<and> pids_ok idle s)"

lemma unblock_kinv:
  assumes "kinv idle s" "blocked_state (task_state (tcbs s t))"
  shows "\<exists>sw s'. up_unblock_task t s = Some (sw, s') \<and> kinv idle s'"
proof -
  have inv: "sched_inv idle s" and core: "sched_core idle s" and pids: "pids_ok idle s"
    using assms by (simp_all add: kinv_def sched_inv_def)
  obtain l where l: "fst (g_tasklisttable (task_state (tcbs s t))) = Some l" "l \<noteq> ReadyToRun" "l \<noteq> PendingTasks"
    using blocked_table [OF assms(2)] by blast
  then have "t \<in> set (lists s l)" using core by (simp add: sched_core_def lists_ok_member)
  then obtain sw s' where "up_unblock_task t s = Some (sw, s')" "sched_inv idle s'" "sched_kept s s'"
    by (rule up_unblock_task_post [OF inv _ l(2,3)])
  then show ?thesis using pids pids_ok_sched_rest [of s' s] by (auto simp: kinv_def sched_kept_def)
qed

lemma block_kinv:
  assumes "kinv idle s" "t \<in> set (g_readytorun s)" "t \<noteq> idle" "blocked_state st"
  shows "\<exists>sw s'. up_block_task t st s = Some (sw, s') \<and> kinv idle s'"
proof -
  have inv: "sched_inv idle s" and pids: "pids_ok idle s" using assms by (simp_all add: kinv_def)
  obtain l where l: "fst (g_tasklisttable st) = Some l" using blocked_table [OF assms(4)] by blast
  obtain sw s' where "up_block_task t st s = Some (sw, s')" "sched_inv idle s'" "sched_kept s s'"
    by (rule up_block_task_post [OF inv assms(2-4) l])
  then show ?thesis using pids pids_ok_sched_rest [of s' s] by (auto simp: kinv_def sched_kept_def)
qed

lemma create_kinv:
  assumes "kinv idle s" "allowed idle (Create tcb priority ttype) s"
  shows "\<exists>r s'. thread_schedsetup tcb priority ttype s = Some (r, s') \<and> kinv idle s'"
proof (cases "priority < int SCHED_PRIORITY_MIN \<or> priority > int SCHED_PRIORITY_MAX")
  case True
  then show ?thesis using assms(1) by (auto simp: thread_schedsetup_def kinv_def)
next
  case False
  have inv: "sched_inv idle s" and pids: "pids_ok idle s" and c: "can_create tcb s"
    and p: "int SCHED_PRIORITY_MIN \<le> priority" "priority \<le> int SCHED_PRIORITY_MAX"
    using assms False by (simp_all add: kinv_def)
  obtain s' where "thread_schedsetup tcb priority ttype s = Some (Done OK, s')" "sched_inv idle s'" "pids_ok idle s'"
    by (rule thread_schedsetup_post [OF inv pids c p])
  then show ?thesis by (auto simp: kinv_def)
qed

lemma setpriority_kinv:
  assumes "kinv idle s" "t \<noteq> idle"
  shows "\<exists>r s'. sched_setpriority t p s = Some (r, s') \<and> kinv idle s'"
proof (cases "p < int SCHED_PRIORITY_MIN \<or> p > int SCHED_PRIORITY_MAX")
  case True
  then show ?thesis using assms by (auto simp: sched_setpriority_error kinv_def)
next
  case False
  then have p: "int SCHED_PRIORITY_MIN \<le> p" "p \<le> int SCHED_PRIORITY_MAX" by auto
  have inv: "sched_inv idle s" and pids: "pids_ok idle s" using assms by (simp_all add: kinv_def)
  obtain r s' where "sched_setpriority t p s = Some (r, s')" "sched_inv idle s'" "reprio t (nat p) s s'"
    by (rule sched_setpriority_post [OF inv assms(2) p])
  then show ?thesis using pids pids_ok_sched_rest [of s' s] by (auto simp: kinv_def reprio_def)
qed

lemma lock_kinv:
  assumes "kinv idle s" "allowed idle Lock s"
  shows "\<exists>s'. sched_lock s = Some s' \<and> kinv idle s'"
proof -
  have inv: "sched_inv idle s" and pids: "pids_ok idle s" using assms by (simp_all add: kinv_def)
  obtain s' where s': "sched_lock s = Some s'" "sched_inv idle s'"
    by (rule sched_lock_inv [OF inv]) (use assms(2) in simp)
  then have "s' = s \<or> (\<exists>r. s' = upd_tcb r (\<lambda>b. b\<lparr>lockcount := lockcount b + 1\<rparr>) s)"
    by (auto simp: sched_lock_def ASSERT_def split: list.splits if_splits)
  with s' pids show ?thesis by (auto simp: kinv_def pids_ok_upd_tcb)
qed

text \<open>Every call that may be made returns, and the invariant holds after it.\<close>

lemma kexec_kinv:
  assumes "kinv idle s" "allowed idle c s"
  shows "\<exists>s'. kexec c s = Some s' \<and> kinv idle s'"
proof -
  have inv: "sched_inv idle s" and pids: "pids_ok idle s" using assms by (simp_all add: kinv_def)
  show ?thesis
  proof (cases c)
    case (Create tcb priority ttype)
    then show ?thesis using create_kinv [OF assms(1), of tcb priority ttype] assms(2) by auto
  next
    case (Activate tcb)
    then show ?thesis using unblock_kinv [OF assms(1), of tcb] assms(2) by (auto simp: task_activate_def)
  next
    case (Block tcb st)
    then show ?thesis using block_kinv [OF assms(1), of tcb st] assms(2) by auto
  next
    case (Unblock tcb)
    then show ?thesis using unblock_kinv [OF assms(1), of tcb] assms(2) by auto
  next
    case (SetPriority tcb p)
    then show ?thesis using setpriority_kinv [OF assms(1), of tcb p] assms(2) by auto
  next
    case Lock
    then show ?thesis using lock_kinv [OF assms(1)] assms(2) by simp
  next
    case Unlock
    obtain r s' where "sched_unlock s = Some (r, s')" "sched_inv idle s'" "lock_kept s s'"
      by (rule sched_unlock_inv [OF inv])
    then show ?thesis using Unlock pids pids_ok_rest [of s' s] by (auto simp: kinv_def lock_kept_def)
  next
    case Yield
    obtain r s' where "sched_yield s = Some (r, s')" "sched_inv idle s'" "s' = set_errno EINVAL s \<or> sched_rest s' = sched_rest s"
      by (rule sched_yield_inv [OF inv])
    then show ?thesis using Yield pids pids_ok_sched_rest [of s' s] by (auto simp: kinv_def)
  next
    case Tick
    obtain s' where "sched_process_timeslice s = Some s'" "sched_inv idle s'" "lock_kept s s'"
      by (rule sched_process_timeslice_inv [OF inv])
    then show ?thesis using Tick pids pids_ok_rest [of s' s] by (auto simp: kinv_def lock_kept_def)
  qed (use inv pids in \<open>auto simp: kinv_def\<close>)
qed

lemma kreach_kinv: "kreach idle s \<Longrightarrow> kinv idle s"
proof (induction rule: kreach.induct)
  case (boot s)
  then show ?case by (simp add: kinv_def os_start_inv)
next
  case (call s c s')
  then show ?case using kexec_kinv [of idle s c] by auto
qed

text \<open>
  C7. Priority scheduling: in every state the kernel can reach from start-up, by any sequence of calls and
  interrupts, the first ready task is the one marked running; no ready task has a higher priority; a task that
  is runnable with a higher priority is kept waiting only while the running task has locked preemption; and any
  call that may be made returns, so that no assertion in this code can fail.
\<close>

theorem kreach_priority:
  assumes "kreach idle s"
  defines "r \<equiv> hd (g_readytorun s)"
  shows "task_state (tcbs s r) = TSTATE_TASK_RUNNING
     \<and> (\<forall>t \<in> set (g_readytorun s). prio s t \<le> prio s r)
     \<and> (\<forall>t. task_state (tcbs s t) = TSTATE_TASK_RUNNING \<longrightarrow> t = r)
     \<and> (\<forall>t \<in># runnable s. prio s t > prio s r \<longrightarrow> lockcount (tcbs s r) > 0 \<and> task_state (tcbs s t) = TSTATE_TASK_PENDING)
     \<and> (\<forall>c. allowed idle c s \<longrightarrow> kexec c s \<noteq> None)"
proof -
  have k: "kinv idle s" by (rule kreach_kinv [OF assms(1)])
  then have core: "sched_core idle s" and pend: "pend_ok s" by (simp_all add: kinv_def sched_inv_def)
  obtain rs where rs: "g_readytorun s = r # rs" using core_ready(1) [OF core] by (cases "g_readytorun s") (auto simp: r_def)
  have desc: "\<forall>t \<in> set (g_readytorun s). prio s t \<le> prio s r"
    using core_ready(3) [OF core] rs by (auto simp: descending_def)
  have one: "t = r" if "task_state (tcbs s t) = TSTATE_TASK_RUNNING" for t
  proof -
    have "t \<in> set (g_readytorun s)" using core that by (simp add: sched_core_def lists_ok_member)
    with that core show ?thesis by (simp add: core_defs r_def)
  qed
  have up: "lockcount (tcbs s r) > 0 \<and> task_state (tcbs s t) = TSTATE_TASK_PENDING"
    if "t \<in># runnable s" "prio s t > prio s r" for t
  proof -
    have "t \<in> set (g_pendingtasks s)" using that desc by (auto simp flip: not_less)
    then show ?thesis using core_pending [OF core] pend rs by (auto simp: pend_ok_def)
  qed
  have "\<forall>c. allowed idle c s \<longrightarrow> kexec c s \<noteq> None" using kexec_kinv [OF k] by fastforce
  moreover have "task_state (tcbs s r) = TSTATE_TASK_RUNNING" using core rs by (simp add: core_defs)
  ultimately show ?thesis using desc one up by blast
qed

text \<open>The kernel after start-up, with preemption locked by the idle task.\<close>

definition ex_reset :: kstate where
  "ex_reset = \<lparr>tcbs = (\<lambda>_. zero_tcb), lists = (\<lambda>_. []), g_lastpid = 0, g_pidhash = (\<lambda>_. \<lparr>ph_tcb = None, ph_pid = 0\<rparr>),
     current_regs = False, g_irqerrno = 0\<rparr>"

theorem kreach_priority_witness:
  "\<exists>s. kexec Lock (os_start 0 ex_reset) = Some s \<and> kreach 0 s \<and> lockcount (tcbs s 0) = 1
     \<and> task_state (tcbs s 0) = TSTATE_TASK_RUNNING \<and> kexec (SetPriority 1 50) s \<noteq> None"
proof -
  have "kreach 0 (os_start 0 ex_reset)" by (rule kreach.boot) (simp add: at_reset_def ex_reset_def)
  moreover obtain s where s: "kexec Lock (os_start 0 ex_reset) = Some s" "lockcount (tcbs s 0) = 1" "g_readytorun s = [0]"
    by (simp add: sched_lock_def os_start_obs ex_reset_def zero_tcb_def MAX_LOCK_COUNT_def)
  moreover have "allowed 0 Lock (os_start 0 ex_reset)" by (simp add: os_start_obs ex_reset_def zero_tcb_def MAX_LOCK_COUNT_def)
  ultimately have "kreach 0 s" by (blast intro: kreach.call)
  from kreach_priority [OF this] have "task_state (tcbs s 0) = TSTATE_TASK_RUNNING"
    "\<forall>c. allowed 0 c s \<longrightarrow> kexec c s \<noteq> None" using s(3) by (simp, blast)
  then have "kexec (SetPriority 1 50) s \<noteq> None" "task_state (tcbs s 0) = TSTATE_TASK_RUNNING" by (metis allowed.simps(5) one_neq_zero, simp)
  with s \<open>kreach 0 s\<close> show ?thesis by blast
qed

end
