(* ===== verification/Semaphore.thy ===== *)
theory Semaphore
  imports Sched_Ops
begin

text \<open>
  Counting semaphores with priority inheritance: src/os/kernel/semaphore and
  src/lib/libc/semaphore/sem_init.c, in the configuration \<open>CONFIG_SEM_PREALLOCHOLDERS = 16\<close>,
  \<open>CONFIG_SEM_NNESTPRIO = 16\<close>. The state extends that of the scheduler by the semaphores and the pool of
  holder structures. The singly linked lists of holders (\<open>hhead\<close>, \<open>g_freeholders\<close>) are lists of
  addresses. A semaphore count is a 16-bit integer; arithmetic on it wraps. \<open>enter_cancellation_point\<close>
  is empty in this configuration and tracing has no effect.

  A task that blocks in a call continues in the operation named \<open>_resume\<close> when it runs again.
\<close>

section \<open>Data\<close>

record sem =
  semcount :: int
  sflags :: "8 word"
  hhead :: "addr list"

record semholder =
  htcb :: ptr
  hcounts :: int

record semstate = kstate +
  sems :: "addr \<Rightarrow> sem"
  holders :: "addr \<Rightarrow> semholder"
  g_freeholders :: "addr list"

definition SEM_VALUE_MAX :: int where "SEM_VALUE_MAX = 32767"
definition PRIOINHERIT_FLAGS_DISABLE :: "8 word" where "PRIOINHERIT_FLAGS_DISABLE = 1"
definition CONFIG_SEM_PREALLOCHOLDERS :: nat where "CONFIG_SEM_PREALLOCHOLDERS = 16"
definition EINTR :: int where "EINTR = 4"
definition EAGAIN :: int where "EAGAIN = 11"
definition ENOSYS :: int where "ENOSYS = 38"
definition ETIMEDOUT :: int where "ETIMEDOUT = 110"

text \<open>The conversion to \<open>int16_t\<close>.\<close>

definition int16 :: "int \<Rightarrow> int" where
  "int16 n = (n + 32768) mod 65536 - 32768"

definition upd_sem :: "addr \<Rightarrow> (sem \<Rightarrow> sem) \<Rightarrow> 'z semstate_scheme \<Rightarrow> 'z semstate_scheme" where
  "upd_sem a f s = s\<lparr>sems := (sems s)(a := f (sems s a))\<rparr>"

definition upd_holder :: "addr \<Rightarrow> (semholder \<Rightarrow> semholder) \<Rightarrow> 'z semstate_scheme \<Rightarrow> 'z semstate_scheme" where
  "upd_holder h f s = s\<lparr>holders := (holders s)(h := f (holders s h))\<rparr>"

definition add_count :: "addr \<Rightarrow> int \<Rightarrow> 'z semstate_scheme \<Rightarrow> 'z semstate_scheme" where
  "add_count sem d s = upd_sem sem (\<lambda>x. x\<lparr>semcount := int16 (semcount x + d)\<rparr>) s"

definition set_waitsem :: "addr \<Rightarrow> ptr \<Rightarrow> 'z semstate_scheme \<Rightarrow> 'z semstate_scheme" where
  "set_waitsem t p s = upd_tcb t (\<lambda>b. b\<lparr>waitsem := p\<rparr>) s"

text \<open>\<open>get_errno\<close>: the location \<open>set_errno\<close> writes.\<close>

definition get_errno :: "'z kstate_scheme \<Rightarrow> int" where
  "get_errno s =
     (case g_readytorun s of
        [] \<Rightarrow> g_irqerrno s
      | rtcb # _ \<Rightarrow>
          if \<not> current_regs s \<and> task_state (tcbs s rtcb) = TSTATE_TASK_RUNNING
          then pterrno (tcbs s rtcb) else g_irqerrno s)"

definition sem_init :: "ptr \<Rightarrow> nat \<Rightarrow> 'z semstate_scheme \<Rightarrow> int \<times> 'z semstate_scheme" where
  "sem_init p v s =
     (case p of
        None \<Rightarrow> (ERROR, set_errno EINVAL s)
      | Some sem \<Rightarrow>
          if int v \<le> SEM_VALUE_MAX
          then (OK, upd_sem sem (\<lambda>x. x\<lparr>semcount := int16 (int v), sflags := 0, hhead := []\<rparr>) s)
          else (ERROR, set_errno EINVAL s))"

section \<open>Holders\<close>

definition sem_allocholder :: "addr \<Rightarrow> 'z semstate_scheme \<Rightarrow> ptr \<times> 'z semstate_scheme" where
  "sem_allocholder sem s =
     (case g_freeholders s of
        [] \<Rightarrow> (None, s)
      | pholder # free \<Rightarrow>
          let s = s\<lparr>g_freeholders := free\<rparr>;
              s = upd_sem sem (\<lambda>x. x\<lparr>hhead := pholder # hhead x\<rparr>) s;
              s = upd_holder pholder (\<lambda>h. h\<lparr>hcounts := 0\<rparr>) s
          in (Some pholder, s))"

definition sem_findholder :: "addr \<Rightarrow> ptr \<Rightarrow> 'z semstate_scheme \<Rightarrow> ptr" where
  "sem_findholder sem t s = List.find (\<lambda>h. htcb (holders s h) = t) (hhead (sems s sem))"

definition sem_findorallocateholder :: "addr \<Rightarrow> addr \<Rightarrow> 'z semstate_scheme \<Rightarrow> ptr \<times> 'z semstate_scheme" where
  "sem_findorallocateholder sem t s =
     (case sem_findholder sem (Some t) s of
        Some pholder \<Rightarrow> (Some pholder, s)
      | None \<Rightarrow> sem_allocholder sem s)"

text \<open>The search of \<open>sem_freeholder\<close> unlinks the holder if the semaphore has it in its list.\<close>

definition sem_freeholder :: "addr \<Rightarrow> addr \<Rightarrow> 'z semstate_scheme \<Rightarrow> 'z semstate_scheme" where
  "sem_freeholder sem pholder s =
     (let s = upd_holder pholder (\<lambda>h. h\<lparr>htcb := None, hcounts := 0\<rparr>) s
      in if pholder \<in> set (hhead (sems s sem))
         then (upd_sem sem (\<lambda>x. x\<lparr>hhead := remove1 pholder (hhead x)\<rparr>) s)
                \<lparr>g_freeholders := pholder # g_freeholders s\<rparr>
         else s)"

text \<open>
  \<open>sem_foreachholder\<close> reads the link of a holder before it calls the handler, which frees at most this
  holder; so the loop visits the holders that were in the list when it began. It ends early when the
  handler returns a nonzero value, or when the task loses the processor in the handler.
\<close>

fun foreachholder :: "(addr \<Rightarrow> 'z semstate_scheme \<Rightarrow> (int outcome \<times> 'z semstate_scheme) option)
    \<Rightarrow> addr list \<Rightarrow> 'z semstate_scheme \<Rightarrow> (int outcome \<times> 'z semstate_scheme) option" where
  "foreachholder handler [] s = Some (Done 0, s)"
| "foreachholder handler (pholder # ps) s =
     (if htcb (holders s pholder) \<noteq> None
      then do {
        (r, s) \<leftarrow> handler pholder s;
        if r = Done 0 then foreachholder handler ps s else Some (r, s)
      }
      else foreachholder handler ps s)"

definition sem_foreachholder :: "addr \<Rightarrow> (addr \<Rightarrow> 'z semstate_scheme \<Rightarrow> (int outcome \<times> 'z semstate_scheme) option)
    \<Rightarrow> 'z semstate_scheme \<Rightarrow> (int outcome \<times> 'z semstate_scheme) option" where
  "sem_foreachholder sem handler s = foreachholder handler (hhead (sems s sem)) s"

definition sem_recoverholders :: "addr \<Rightarrow> addr \<Rightarrow> 'z semstate_scheme \<Rightarrow> (int outcome \<times> 'z semstate_scheme) option" where
  "sem_recoverholders sem pholder s = Some (Done 0, sem_freeholder sem pholder s)"

text \<open>The result of a call whose value the caller ignores: \<open>return 0\<close> follows unless the task is switched out.\<close>

definition then_zero :: "int outcome \<Rightarrow> int outcome" where
  "then_zero r = (case r of Done _ \<Rightarrow> Done 0 | Switched \<Rightarrow> Switched)"

text \<open>
  \<open>sem_boostholderprio\<close>: raise the priority of one holder to that of the waiter \<open>rtcb\<close>, remembering in
  \<open>pend_reprios\<close> the priority it inherited before, or the one it will inherit next.
\<close>

definition sem_boostholderprio :: "addr \<Rightarrow> addr \<Rightarrow> addr \<Rightarrow> 'z semstate_scheme
    \<Rightarrow> (int outcome \<times> 'z semstate_scheme) option" where
  "sem_boostholderprio rtcb sem pholder s = do {
     h \<leftarrow> htcb (holders s pholder);
     if \<not> sched_verifytcb h s then Some (Done 0, sem_freeholder sem pholder s)
     else if prio s rtcb > base_priority (tcbs s h)
     then
       if prio s rtcb > prio s h
       then do {
         s \<leftarrow> (if prio s h > base_priority (tcbs s h) \<and> npend_reprio (tcbs s h) < CONFIG_SEM_NNESTPRIO
               then do {
                 ps \<leftarrow> array_set (pend_reprios (tcbs s h)) (npend_reprio (tcbs s h)) (prio s h);
                 Some (upd_tcb h (\<lambda>b. b\<lparr>pend_reprios := ps, npend_reprio := npend_reprio b + 1\<rparr>) s)
               }
               else Some s);
         (r, s) \<leftarrow> sched_setpriority h (int (prio s rtcb)) s;
         Some (then_zero r, s)
       }
       else do {
         ps \<leftarrow> array_set (pend_reprios (tcbs s h)) (npend_reprio (tcbs s h)) (prio s rtcb);
         Some (Done 0, upd_tcb h (\<lambda>b. b\<lparr>pend_reprios := ps, npend_reprio := npend_reprio b + 1\<rparr>) s)
       }
     else Some (Done 0, s)
   }"

text \<open>The index of the first greatest entry among the first \<open>n\<close>, and of the first entry equal to \<open>p\<close>.\<close>

function reprio_max :: "nat list \<Rightarrow> nat \<Rightarrow> nat \<Rightarrow> nat \<Rightarrow> nat option" where
  "reprio_max ps n i j =
     (if i < n
      then do {
        x \<leftarrow> array_get ps i;
        y \<leftarrow> array_get ps j;
        reprio_max ps n (i + 1) (if x > y then i else j)
      }
      else Some j)"
  by pat_completeness auto
termination by (relation "measure (\<lambda>(ps, n, i, j). n - i)") auto

function reprio_find :: "nat list \<Rightarrow> nat \<Rightarrow> nat \<Rightarrow> nat \<Rightarrow> ptr option" where
  "reprio_find ps n i p =
     (if i < n
      then do {
        x \<leftarrow> array_get ps i;
        if x = p then Some (Some i) else reprio_find ps n (i + 1) p
      }
      else Some None)"
  by pat_completeness auto
termination by (relation "measure (\<lambda>(ps, n, i, p). n - i)") auto

declare reprio_max.simps [simp del] reprio_find.simps [simp del]

text \<open>Drop entry \<open>i\<close> of the first \<open>npend_reprio\<close>: the last entry takes its place.\<close>

definition drop_reprio :: "addr \<Rightarrow> nat \<Rightarrow> 'z semstate_scheme \<Rightarrow> 'z semstate_scheme option" where
  "drop_reprio h i s = do {
     let n = npend_reprio (tcbs s h) - 1;
     ps \<leftarrow> (if n > 0
            then do {
              v \<leftarrow> array_get (pend_reprios (tcbs s h)) n;
              array_set (pend_reprios (tcbs s h)) i v
            }
            else Some (pend_reprios (tcbs s h)));
     Some (upd_tcb h (\<lambda>b. b\<lparr>pend_reprios := ps, npend_reprio := n\<rparr>) s)
   }"

text \<open>
  \<open>sem_restoreholderprio\<close>: undo what the wait of \<open>stcb\<close> did to the priority of one holder.
\<close>

definition sem_restoreholderprio :: "addr \<Rightarrow> addr \<Rightarrow> addr \<Rightarrow> 'z semstate_scheme
    \<Rightarrow> (int outcome \<times> 'z semstate_scheme) option" where
  "sem_restoreholderprio stcb sem pholder s = do {
     h \<leftarrow> htcb (holders s pholder);
     if \<not> sched_verifytcb h s then Some (Done 0, sem_freeholder sem pholder s)
     else if prio s h \<noteq> base_priority (tcbs s h)
     then
       if npend_reprio (tcbs s h) < 1
       then do {
         (r, s) \<leftarrow> sched_reprioritize h (int (base_priority (tcbs s h))) s;
         Some (then_zero r, s)
       }
       else if prio s h \<le> prio s stcb
       then do {
         j \<leftarrow> reprio_max (pend_reprios (tcbs s h)) (npend_reprio (tcbs s h)) 1 0;
         rpriority \<leftarrow> array_get (pend_reprios (tcbs s h)) j;
         s \<leftarrow> drop_reprio h j s;
         (r, s) \<leftarrow> sched_setpriority h (int rpriority) s;
         Some (then_zero r, s)
       }
       else do {
         i \<leftarrow> reprio_find (pend_reprios (tcbs s h)) (npend_reprio (tcbs s h)) 0 (prio s stcb);
         s \<leftarrow> (case i of None \<Rightarrow> Some s | Some i \<Rightarrow> drop_reprio h i s);
         Some (Done 0, s)
       }
     else Some (Done 0, s)
   }"

definition sem_restoreholderprioA :: "addr \<Rightarrow> addr \<Rightarrow> addr \<Rightarrow> 'z semstate_scheme
    \<Rightarrow> (int outcome \<times> 'z semstate_scheme) option" where
  "sem_restoreholderprioA stcb sem pholder s =
     (if htcb (holders s pholder) \<noteq> this_task s then sem_restoreholderprio stcb sem pholder s
      else Some (Done 0, s))"

definition sem_restoreholderprioB :: "addr \<Rightarrow> addr \<Rightarrow> addr \<Rightarrow> 'z semstate_scheme
    \<Rightarrow> (int outcome \<times> 'z semstate_scheme) option" where
  "sem_restoreholderprioB stcb sem pholder s =
     (if htcb (holders s pholder) = this_task s
      then do {
        (r, s) \<leftarrow> sem_restoreholderprio stcb sem pholder s;
        Some (case r of Done _ \<Rightarrow> Done 1 | Switched \<Rightarrow> Switched, s)
      }
      else Some (Done 0, s))"

definition sem_restorebaseprio_irq :: "ptr \<Rightarrow> addr \<Rightarrow> 'z semstate_scheme
    \<Rightarrow> (int outcome \<times> 'z semstate_scheme) option" where
  "sem_restorebaseprio_irq stcb sem s =
     (case stcb of
        Some t \<Rightarrow> sem_foreachholder sem (sem_restoreholderprio t sem) s
      | None \<Rightarrow> Some (Done 0, s))"

text \<open>The end of \<open>sem_restorebaseprio_task\<close>: free the holder of the posting task when it holds no count.\<close>

definition sem_dropholder :: "addr \<Rightarrow> addr \<Rightarrow> 'z semstate_scheme \<Rightarrow> 'z semstate_scheme" where
  "sem_dropholder rtcb sem s =
     (case sem_findholder sem (Some rtcb) s of
        Some pholder \<Rightarrow> if hcounts (holders s pholder) \<le> 0 then sem_freeholder sem pholder s else s
      | None \<Rightarrow> s)"

definition sem_restorebaseprio_task :: "ptr \<Rightarrow> addr \<Rightarrow> 'z semstate_scheme
    \<Rightarrow> (int outcome \<times> 'z semstate_scheme) option" where
  "sem_restorebaseprio_task stcb sem s = do {
     rtcb \<leftarrow> this_task s;
     (r, s) \<leftarrow> (case stcb of
        Some t \<Rightarrow> do {
          (r, s) \<leftarrow> sem_foreachholder sem (sem_restoreholderprioA t sem) s;
          if r = Switched then Some (r, s)
          else sem_foreachholder sem (sem_restoreholderprioB t sem) s
        }
      | None \<Rightarrow> Some (Done 0, s));
     if r = Switched then Some (r, s) else Some (Done 0, sem_dropholder rtcb sem s)
   }"

definition sem_restorebaseprio :: "ptr \<Rightarrow> addr \<Rightarrow> 'z semstate_scheme
    \<Rightarrow> (int outcome \<times> 'z semstate_scheme) option" where
  "sem_restorebaseprio stcb sem s = do {
     ASSERT (semcount (sems s sem) > 0 \<and> stcb = None \<or> semcount (sems s sem) \<le> 0 \<and> stcb \<noteq> None);
     if current_regs s then sem_restorebaseprio_irq stcb sem s else sem_restorebaseprio_task stcb sem s
   }"

definition sem_initholders :: "'z semstate_scheme \<Rightarrow> 'z semstate_scheme" where
  "sem_initholders s = s\<lparr>g_freeholders := [0..<CONFIG_SEM_PREALLOCHOLDERS]\<rparr>"

definition sem_destroyholder :: "addr \<Rightarrow> 'z semstate_scheme \<Rightarrow> 'z semstate_scheme option" where
  "sem_destroyholder sem s =
     (if hhead (sems s sem) \<noteq> []
      then do { (_, s) \<leftarrow> sem_foreachholder sem (sem_recoverholders sem) s; Some s }
      else Some s)"

definition sem_addholder_tcb :: "addr \<Rightarrow> addr \<Rightarrow> 'z semstate_scheme \<Rightarrow> 'z semstate_scheme" where
  "sem_addholder_tcb t sem s =
     (if sflags (sems s sem) AND PRIOINHERIT_FLAGS_DISABLE = 0
      then case sem_findorallocateholder sem t s of
             (Some pholder, s) \<Rightarrow> upd_holder pholder (\<lambda>h. h\<lparr>htcb := Some t, hcounts := int16 (hcounts h + 1)\<rparr>) s
           | (None, s) \<Rightarrow> s
      else s)"

definition sem_addholder :: "addr \<Rightarrow> 'z semstate_scheme \<Rightarrow> 'z semstate_scheme option" where
  "sem_addholder sem s = do { rtcb \<leftarrow> this_task s; Some (sem_addholder_tcb rtcb sem s) }"

definition sem_boostpriority :: "addr \<Rightarrow> 'z semstate_scheme \<Rightarrow> (int outcome \<times> 'z semstate_scheme) option" where
  "sem_boostpriority sem s = do {
     rtcb \<leftarrow> this_task s;
     sem_foreachholder sem (sem_boostholderprio rtcb sem) s
   }"

definition sem_releaseholder :: "addr \<Rightarrow> 'z semstate_scheme \<Rightarrow> 'z semstate_scheme" where
  "sem_releaseholder sem s =
     (case sem_findholder sem (this_task s) s of
        Some pholder \<Rightarrow>
          if hcounts (holders s pholder) > 0
          then upd_holder pholder (\<lambda>h. h\<lparr>hcounts := int16 (hcounts h - 1)\<rparr>) s else s
      | None \<Rightarrow> s)"

definition sem_canceled :: "addr \<Rightarrow> addr \<Rightarrow> 'z semstate_scheme \<Rightarrow> (int outcome \<times> 'z semstate_scheme) option" where
  "sem_canceled stcb sem s = do {
     ASSERT (semcount (sems s sem) \<le> 0);
     sem_foreachholder sem (sem_restoreholderprio stcb sem) s
   }"

section \<open>The calls\<close>

text \<open>The rest of \<open>sem_wait\<close>, run when the task that blocked in it has the processor again.\<close>

definition sem_wait_resume :: "'z semstate_scheme \<Rightarrow> (int outcome \<times> 'z semstate_scheme) option" where
  "sem_wait_resume s = do {
     let ret = (if get_errno s \<noteq> EINTR \<and> get_errno s \<noteq> ETIMEDOUT then OK else ERROR);
     (u, s) \<leftarrow> sched_unlock s;
     Some (case u of Done _ \<Rightarrow> Done ret | Switched \<Rightarrow> Switched, s)
   }"

definition sem_wait :: "ptr \<Rightarrow> 'z semstate_scheme \<Rightarrow> (int outcome \<times> 'z semstate_scheme) option" where
  "sem_wait p s = do {
     sem \<leftarrow> p;
     ASSERT (\<not> current_regs s);
     rtcb \<leftarrow> this_task s;
     if semcount (sems s sem) > 0
     then do {
       let s = add_count sem (-1) s;
       s \<leftarrow> sem_addholder sem s;
       Some (Done OK, set_waitsem rtcb None s)
     }
     else do {
       ASSERT (waitsem (tcbs s rtcb) = None);
       let s = add_count sem (-1) s;
       let s = set_waitsem rtcb (Some sem) s;
       s \<leftarrow> sched_lock s;
       (r, s) \<leftarrow> sem_boostpriority sem s;
       if r = Switched then Some (Switched, s)
       else do {
         let s = set_errno 0 s;
         (sw, s) \<leftarrow> up_block_task rtcb TSTATE_WAIT_SEM s;
         if sw then Some (Switched, s) else sem_wait_resume s
       }
     }
   }"

definition sem_wait_for_isr_resume :: "'z semstate_scheme \<Rightarrow> (int outcome \<times> 'z semstate_scheme) option" where
  "sem_wait_for_isr_resume s =
     Some (Done (if get_errno s \<noteq> EINTR \<and> get_errno s \<noteq> ETIMEDOUT then OK else ERROR), s)"

definition sem_wait_for_isr :: "ptr \<Rightarrow> 'z semstate_scheme \<Rightarrow> (int outcome \<times> 'z semstate_scheme) option" where
  "sem_wait_for_isr p s = do {
     ASSERT (\<not> current_regs s);
     let s = set_errno EINVAL s;
     case p of
       None \<Rightarrow> Some (Done ERROR, s)
     | Some sem \<Rightarrow> do {
         rtcb \<leftarrow> this_task s;
         if semcount (sems s sem) > 0
         then Some (Done OK, set_waitsem rtcb None (add_count sem (-1) s))
         else do {
           ASSERT (waitsem (tcbs s rtcb) = None);
           let s = add_count sem (-1) s;
           let s = set_waitsem rtcb (Some sem) s;
           let s = set_errno 0 s;
           (sw, s) \<leftarrow> up_block_task rtcb TSTATE_WAIT_SEM s;
           if sw then Some (Switched, s) else sem_wait_for_isr_resume s
         }
       }
   }"

definition sem_trywait :: "ptr \<Rightarrow> 'z semstate_scheme \<Rightarrow> (int \<times> 'z semstate_scheme) option" where
  "sem_trywait p s = do {
     sem \<leftarrow> p;
     ASSERT (\<not> current_regs s);
     rtcb \<leftarrow> this_task s;
     if semcount (sems s sem) > 0
     then do {
       let s = add_count sem (-1) s;
       s \<leftarrow> sem_addholder sem s;
       Some (OK, set_waitsem rtcb None s)
     }
     else Some (ERROR, set_errno EAGAIN s)
   }"

text \<open>The first task that waits for the semaphore, in the order of the list of waiting tasks.\<close>

definition first_waiter :: "addr \<Rightarrow> 'z semstate_scheme \<Rightarrow> ptr" where
  "first_waiter sem s = List.find (\<lambda>t. waitsem (tcbs s t) = Some sem) (lists s WaitingForSemaphore)"

text \<open>The rest of \<open>sem_post\<close> after its task lost the processor while its own priority was restored.\<close>

definition sem_post_unlock :: "'z semstate_scheme \<Rightarrow> (int outcome \<times> 'z semstate_scheme) option" where
  "sem_post_unlock s = do {
     (u, s) \<leftarrow> sched_unlock s;
     Some (case u of Done _ \<Rightarrow> Done OK | Switched \<Rightarrow> Switched, s)
   }"

definition sem_post_resume :: "addr \<Rightarrow> addr \<Rightarrow> 'z semstate_scheme \<Rightarrow> (int outcome \<times> 'z semstate_scheme) option" where
  "sem_post_resume rtcb sem s = sem_post_unlock (sem_dropholder rtcb sem s)"

definition sem_wakeup :: "addr \<Rightarrow> 'z semstate_scheme \<Rightarrow> ((ptr \<times> bool) \<times> 'z semstate_scheme) option" where
  "sem_wakeup sem s =
     (if semcount (sems s sem) \<le> 0
      then case first_waiter sem s of
             None \<Rightarrow> Some ((None, False), s)
           | Some stcb \<Rightarrow> do {
               let s = sem_addholder_tcb stcb sem s;
               let s = set_waitsem stcb None s;
               (sw, s) \<leftarrow> up_unblock_task stcb s;
               Some ((Some stcb, sw), s)
             }
      else Some ((None, False), s))"

definition sem_post :: "ptr \<Rightarrow> 'z semstate_scheme \<Rightarrow> (int outcome \<times> 'z semstate_scheme) option" where
  "sem_post p s =
     (case p of
        None \<Rightarrow> Some (Done ERROR, set_errno EINVAL s)
      | Some sem \<Rightarrow> do {
          ASSERT (semcount (sems s sem) < SEM_VALUE_MAX);
          let s = sem_releaseholder sem s;
          let s = add_count sem 1 s;
          s \<leftarrow> sched_lock s;
          ((stcb, sw), s) \<leftarrow> sem_wakeup sem s;
          if sw \<and> \<not> current_regs s then Some (Switched, s)
          else do {
            (r, s) \<leftarrow> sem_restorebaseprio stcb sem s;
            if r = Switched then Some (Switched, s) else sem_post_unlock s
          }
        })"

definition sem_post_from_isr :: "ptr \<Rightarrow> 'z semstate_scheme \<Rightarrow> (int outcome \<times> 'z semstate_scheme) option" where
  "sem_post_from_isr p s =
     (case p of
        None \<Rightarrow> Some (Done ERROR, set_errno EINVAL s)
      | Some sem \<Rightarrow> do {
          ASSERT (semcount (sems s sem) < SEM_VALUE_MAX);
          let s = add_count sem 1 s;
          if semcount (sems s sem) \<le> 0
          then case first_waiter sem s of
                 None \<Rightarrow> Some (Done OK, s)
               | Some stcb \<Rightarrow> do {
                   let s = set_waitsem stcb None s;
                   (sw, s) \<leftarrow> up_unblock_task stcb s;
                   Some (switch_outcome sw s, s)
                 }
          else Some (Done OK, s)
        })"

definition sem_destroy :: "ptr \<Rightarrow> 'z semstate_scheme \<Rightarrow> (int \<times> 'z semstate_scheme) option" where
  "sem_destroy p s =
     (case p of
        None \<Rightarrow> Some (ERROR, set_errno EINVAL s)
      | Some sem \<Rightarrow> do {
          let s = (if semcount (sems s sem) \<ge> 0 then upd_sem sem (\<lambda>x. x\<lparr>semcount := 1\<rparr>) s else s);
          s \<leftarrow> sem_destroyholder sem s;
          Some (OK, s)
        })"

text \<open>The loop of \<open>sem_reset\<close>; it returns the count that is left.\<close>

fun sem_reset_loop :: "addr \<Rightarrow> nat \<Rightarrow> 'z semstate_scheme \<Rightarrow> (nat outcome \<times> 'z semstate_scheme) option" where
  "sem_reset_loop sem 0 s = Some (Done 0, s)"
| "sem_reset_loop sem (Suc n) s =
     (if semcount (sems s sem) < 0
      then do {
        (r, s) \<leftarrow> sem_post (Some sem) s;
        case r of
          Switched \<Rightarrow> Some (Switched, s)
        | Done r \<Rightarrow> do { ASSERT (r \<ge> 0); sem_reset_loop sem n s }
      }
      else Some (Done (Suc n), s))"

definition sem_reset :: "ptr \<Rightarrow> int \<Rightarrow> 'z semstate_scheme \<Rightarrow> (int outcome \<times> 'z semstate_scheme) option" where
  "sem_reset p n s = do {
     sem \<leftarrow> p;
     ASSERT (n \<ge> 0);
     s \<leftarrow> sched_lock s;
     (r, s) \<leftarrow> sem_reset_loop sem (nat n) s;
     case r of
       Switched \<Rightarrow> Some (Switched, s)
     | Done left \<Rightarrow> do {
         let s = (if semcount (sems s sem) \<ge> 0 then upd_sem sem (\<lambda>x. x\<lparr>semcount := int left\<rparr>) s else s);
         sem_post_unlock s
       }
   }"

definition sem_recover :: "addr \<Rightarrow> 'z semstate_scheme \<Rightarrow> (int outcome \<times> 'z semstate_scheme) option" where
  "sem_recover tcb s =
     (if task_state (tcbs s tcb) = TSTATE_WAIT_SEM
      then do {
        sem \<leftarrow> waitsem (tcbs s tcb);
        ASSERT (semcount (sems s sem) < 0);
        (r, s) \<leftarrow> sem_canceled tcb sem s;
        if r = Switched then Some (Switched, s)
        else do {
          let s = add_count sem 1 s;
          Some (Done 0, set_waitsem tcb None s)
        }
      }
      else Some (Done 0, s))"

text \<open>\<open>sem_waitirq\<close>; its second half is \<open>sem_waitirq_resume\<close> when the first loses the processor.\<close>

definition sem_waitirq_resume :: "addr \<Rightarrow> addr \<Rightarrow> int \<Rightarrow> 'z semstate_scheme
    \<Rightarrow> (int outcome \<times> 'z semstate_scheme) option" where
  "sem_waitirq_resume wtcb sem errcode s = do {
     let s = add_count sem 1 s;
     let s = set_waitsem wtcb None s;
     let s = upd_tcb wtcb (\<lambda>b. b\<lparr>pterrno := errcode\<rparr>) s;
     (sw, s) \<leftarrow> up_unblock_task wtcb s;
     Some (switch_outcome sw s, s)
   }"

definition sem_waitirq :: "addr \<Rightarrow> int \<Rightarrow> 'z semstate_scheme \<Rightarrow> (int outcome \<times> 'z semstate_scheme) option" where
  "sem_waitirq wtcb errcode s =
     (if task_state (tcbs s wtcb) = TSTATE_WAIT_SEM
      then do {
        sem \<leftarrow> waitsem (tcbs s wtcb);
        ASSERT (semcount (sems s sem) < 0);
        (r, s) \<leftarrow> sem_canceled wtcb sem s;
        if r = Switched then Some (Switched, s) else sem_waitirq_resume wtcb sem errcode s
      }
      else Some (Done 0, s))"

definition sem_timeout :: "int \<Rightarrow> 'z semstate_scheme \<Rightarrow> (int outcome \<times> 'z semstate_scheme) option" where
  "sem_timeout p s =
     (case sched_gettcb p s of
        None \<Rightarrow> Some (Done 0, s)
      | Some wtcb \<Rightarrow>
          if task_state (tcbs s wtcb) = TSTATE_WAIT_SEM then sem_waitirq wtcb ETIMEDOUT s
          else Some (Done 0, s))"

definition SEM_PRIO_NONE :: int where "SEM_PRIO_NONE = 0"
definition SEM_PRIO_INHERIT :: int where "SEM_PRIO_INHERIT = 1"
definition SEM_PRIO_PROTECT :: int where "SEM_PRIO_PROTECT = 2"

definition sem_setprotocol :: "ptr \<Rightarrow> int \<Rightarrow> 'z semstate_scheme \<Rightarrow> (int \<times> 'z semstate_scheme) option" where
  "sem_setprotocol p protocol s = do {
     sem \<leftarrow> p;
     if protocol = SEM_PRIO_NONE
     then do {
       let s = upd_sem sem (\<lambda>x. x\<lparr>sflags := sflags x OR PRIOINHERIT_FLAGS_DISABLE\<rparr>) s;
       s \<leftarrow> sem_destroyholder sem s;
       Some (OK, s)
     }
     else if protocol = SEM_PRIO_INHERIT
     then Some (OK, upd_sem sem (\<lambda>x. x\<lparr>sflags := sflags x AND NOT PRIOINHERIT_FLAGS_DISABLE\<rparr>) s)
     else Some (ERROR, set_errno (if protocol = SEM_PRIO_PROTECT then ENOSYS else EINVAL) s)
   }"

end
