(* ===== verification/Semaphore_Inv.thy ===== *)
theory Semaphore_Inv
  imports Semaphore
begin

text \<open>
  The invariant of the semaphores and the proof that the operations keep it: the pool of holder
  structures is partitioned between the free list and the semaphores, the count of a semaphore is minus
  the number of tasks that wait for it, and a task has a semaphore to wait for exactly while it is in the
  list of tasks waiting for a semaphore.
\<close>

section \<open>The parts of the state\<close>

lemma sem_upd_simps [simp]:
  "tcbs (upd_sem a f s) = tcbs s" "lists (upd_sem a f s) = lists s" "current_regs (upd_sem a f s) = current_regs s"
  "g_pidhash (upd_sem a f s) = g_pidhash s" "sems (upd_sem a f s) = (sems s)(a := f (sems s a))"
  "holders (upd_sem a f s) = holders s" "g_freeholders (upd_sem a f s) = g_freeholders s"
  "tcbs (upd_holder h g s) = tcbs s" "lists (upd_holder h g s) = lists s"
  "current_regs (upd_holder h g s) = current_regs s" "g_pidhash (upd_holder h g s) = g_pidhash s"
  "sems (upd_holder h g s) = sems s" "holders (upd_holder h g s) = (holders s)(h := g (holders s h))"
  "g_freeholders (upd_holder h g s) = g_freeholders s"
  "sems (upd_tcb t k s) = sems s" "holders (upd_tcb t k s) = holders s" "g_freeholders (upd_tcb t k s) = g_freeholders s"
  "semstate.more (upd_sem a f s) = semstate.more s" "semstate.more (upd_holder h g s) = semstate.more s"
  "semstate.more (upd_tcb t k s) = semstate.more s"
  by (simp_all add: upd_sem_def upd_holder_def upd_tcb_def)

lemma sched_inv_sem [simp]:
  "sched_inv idle (upd_sem a f s) = sched_inv idle s"
  "sched_inv idle (upd_holder h g s) = sched_inv idle s"
  "sched_inv idle (s\<lparr>g_freeholders := fs\<rparr>) = sched_inv idle s"
  by (simp_all add: sched_inv_def pend_ok_def core_defs lists_ok_def)

lemma sched_rest_sem:
  assumes "sched_rest s' = sched_rest s"
  shows "sems s' = sems s" "holders s' = holders s" "g_freeholders s' = g_freeholders s" "semstate.more s' = semstate.more s"
proof -
  have obs: "sems (sched_rest u) = sems u" "holders (sched_rest u) = holders u"
    "g_freeholders (sched_rest u) = g_freeholders u" "semstate.more (sched_rest u) = semstate.more u" for u :: "'z semstate_scheme"
    by (simp_all add: sched_rest_def)
  show "sems s' = sems s" "holders s' = holders s" "g_freeholders s' = g_freeholders s" "semstate.more s' = semstate.more s"
    by (simp_all only: obs [of s', symmetric] assms obs [of s])
qed

lemma int16_id [simp]: "-32768 \<le> n \<Longrightarrow> n \<le> 32767 \<Longrightarrow> int16 n = n"
  by (simp add: int16_def)

section \<open>The pool of holders\<close>

text \<open>Every holder structure is either free or in the list of exactly one semaphore.\<close>

definition holder_pool :: "'z semstate_scheme \<Rightarrow> bool" where
  "holder_pool s =
     (distinct (g_freeholders s) \<and> (\<forall>a. distinct (hhead (sems s a)))
      \<and> (\<forall>a. set (hhead (sems s a)) \<inter> set (g_freeholders s) = {})
      \<and> (\<forall>a b. a \<noteq> b \<longrightarrow> set (hhead (sems s a)) \<inter> set (hhead (sems s b)) = {})
      \<and> set (g_freeholders s) \<union> (\<Union>a. set (hhead (sems s a))) = {..<CONFIG_SEM_PREALLOCHOLDERS})"

text \<open>A holder in a list belongs to one task, not the idle task, and a task has one holder per semaphore.\<close>

definition holders_ok :: "addr \<Rightarrow> 'z semstate_scheme \<Rightarrow> bool" where
  "holders_ok idle s =
     (\<forall>a. (\<forall>h \<in> set (hhead (sems s a)). \<exists>t. htcb (holders s h) = Some t \<and> t \<noteq> idle)
          \<and> inj_on (\<lambda>h. htcb (holders s h)) (set (hhead (sems s a))))"

lemma holder_pool_unique:
  "holder_pool s \<Longrightarrow> p \<in> set (hhead (sems s a)) \<Longrightarrow> p \<in> set (hhead (sems s b)) \<Longrightarrow> a = b"
  unfolding holder_pool_def by blast

lemma holder_pool_alloc:
  assumes pool: "holder_pool s" and free: "g_freeholders s = p # fs"
  shows "holder_pool (snd (sem_allocholder sem s))"
proof -
  let ?s = "snd (sem_allocholder sem s)"
  have obs: "g_freeholders ?s = fs" "hhead (sems ?s a) = (if a = sem then p # hhead (sems s a) else hhead (sems s a))" for a
    using free by (simp_all add: sem_allocholder_def Let_def)
  have "set fs \<union> (\<Union>a. set (hhead (sems ?s a))) = insert p (set fs) \<union> (\<Union>a. set (hhead (sems s a)))"
    by (auto simp: obs split: if_splits)
  then show ?thesis using pool free unfolding holder_pool_def obs by (auto split: if_splits)
qed

lemma holder_pool_free:
  assumes pool: "holder_pool s"
  shows "holder_pool (sem_freeholder sem p s)"
proof (cases "p \<in> set (hhead (sems s sem))")
  case True
  let ?s = "sem_freeholder sem p s"
  have obs: "g_freeholders ?s = p # g_freeholders s"
    "hhead (sems ?s a) = (if a = sem then remove1 p (hhead (sems s a)) else hhead (sems s a))" for a
    using True by (simp_all add: sem_freeholder_def Let_def)
  have d: "distinct (hhead (sems s sem))" using pool by (simp add: holder_pool_def)
  have "insert p (set (g_freeholders s)) \<union> (\<Union>a. set (hhead (sems ?s a))) = set (g_freeholders s) \<union> (\<Union>a. set (hhead (sems s a)))"
    using True d by (auto simp: obs split: if_splits)
  then show ?thesis
    using pool True d unfolding holder_pool_def obs
    by (auto dest: holder_pool_unique [OF pool] split: if_splits)
next
  case False
  then show ?thesis using pool by (simp add: sem_freeholder_def Let_def holder_pool_def)
qed


lemma freeholder_obs:
  assumes "p \<in> set (hhead (sems s sem))"
  shows "tcbs (sem_freeholder sem p s) = tcbs s" "lists (sem_freeholder sem p s) = lists s"
    "g_pidhash (sem_freeholder sem p s) = g_pidhash s" "current_regs (sem_freeholder sem p s) = current_regs s"
    "hhead (sems (sem_freeholder sem p s) a) = (if a = sem then remove1 p (hhead (sems s a)) else hhead (sems s a))"
    "semcount (sems (sem_freeholder sem p s) a) = semcount (sems s a)" "sflags (sems (sem_freeholder sem p s) a) = sflags (sems s a)"
    "htcb (holders (sem_freeholder sem p s) q) = (if q = p then None else htcb (holders s q))"
    "q \<noteq> p \<Longrightarrow> holders (sem_freeholder sem p s) q = holders s q" "semstate.more (sem_freeholder sem p s) = semstate.more s"
  using assms by (simp_all add: sem_freeholder_def Let_def)

lemma freeholder_sub:
  assumes pool: "holder_pool s" and p: "p \<in> set (hhead (sems s sem))"
  shows "set (hhead (sems (sem_freeholder sem p s) a)) \<subseteq> set (hhead (sems s a)) - {p}"
proof -
  have "distinct (hhead (sems s sem))" using pool by (simp add: holder_pool_def)
  then show ?thesis using holder_pool_unique [OF pool p] by (auto simp: freeholder_obs [OF p] split: if_splits)
qed

lemma holders_ok_free:
  assumes pool: "holder_pool s" and ok: "holders_ok idle s" and p: "p \<in> set (hhead (sems s sem))"
  shows "holders_ok idle (sem_freeholder sem p s)"
  unfolding holders_ok_def
proof (intro allI conjI ballI)
  let ?s = "sem_freeholder sem p s"
  note sub = freeholder_sub [OF pool p] and obs = freeholder_obs [OF p]
  show "\<exists>t. htcb (holders ?s h) = Some t \<and> t \<noteq> idle" if "h \<in> set (hhead (sems ?s a))" for a h
  proof -
    from that sub have "h \<in> set (hhead (sems s a))" "h \<noteq> p" by blast+
    then show ?thesis using ok by (simp add: obs(8) holders_ok_def)
  qed
  fix a
  have "inj_on (\<lambda>h. htcb (holders s h)) (set (hhead (sems s a)))"
    using ok by (simp add: holders_ok_def)
  then show "inj_on (\<lambda>h. htcb (holders ?s h)) (set (hhead (sems ?s a)))"
    unfolding inj_on_def obs(8) using sub [of a] by (metis Diff_iff in_mono singletonI)
qed

section \<open>Inherited priorities\<close>

text \<open>
  The recorded priorities of a live task are in range, and neither they nor the priority it runs at are
  below its base priority.
\<close>

definition reprio_ok :: "addr \<Rightarrow> 'z kstate_scheme \<Rightarrow> bool" where
  "reprio_ok idle s =
     (\<forall>t. t \<noteq> idle \<longrightarrow> sched_verifytcb t s \<longrightarrow>
        length (pend_reprios (tcbs s t)) = CONFIG_SEM_NNESTPRIO
        \<and> npend_reprio (tcbs s t) \<le> CONFIG_SEM_NNESTPRIO
        \<and> (\<forall>i < npend_reprio (tcbs s t).
              base_priority (tcbs s t) \<le> pend_reprios (tcbs s t) ! i \<and> pend_reprios (tcbs s t) ! i \<le> SCHED_PRIORITY_MAX)
        \<and> SCHED_PRIORITY_MIN \<le> base_priority (tcbs s t)
        \<and> base_priority (tcbs s t) \<le> prio s t \<and> prio s t \<le> SCHED_PRIORITY_MAX)"

definition sem_core :: "addr \<Rightarrow> 'z semstate_scheme \<Rightarrow> bool" where
  "sem_core idle s = (sched_inv idle s \<and> holder_pool s \<and> holders_ok idle s \<and> reprio_ok idle s)"

text \<open>What the loops over the holders leave alone.\<close>

definition sem_frame :: "'z semstate_scheme \<Rightarrow> 'z semstate_scheme \<Rightarrow> bool" where
  "sem_frame s s' =
     ((\<forall>a. semcount (sems s' a) = semcount (sems s a) \<and> sflags (sems s' a) = sflags (sems s a))
      \<and> (\<forall>t. waitsem (tcbs s' t) = waitsem (tcbs s t) \<and> lockcount (tcbs s' t) = lockcount (tcbs s t)
             \<and> pid (tcbs s' t) = pid (tcbs s t) \<and> pterrno (tcbs s' t) = pterrno (tcbs s t)
             \<and> (base_priority (tcbs s' t) = base_priority (tcbs s t)))
      \<and> g_pidhash s' = g_pidhash s \<and> current_regs s' = current_regs s \<and> semstate.more s' = semstate.more s
      \<and> runnable s' = runnable s
      \<and> (\<forall>l. l \<noteq> ReadyToRun \<longrightarrow> l \<noteq> PendingTasks \<longrightarrow> mset (lists s' l) = mset (lists s l)))"

lemma sem_core_holder:
  "sem_core idle s \<Longrightarrow> p \<in> set (hhead (sems s a)) \<Longrightarrow> \<exists>t. htcb (holders s p) = Some t \<and> t \<noteq> idle"
  unfolding sem_core_def holders_ok_def by blast

lemma sem_frame_refl [simp]: "sem_frame s s"
  by (simp add: sem_frame_def)

lemma sem_frame_trans: "sem_frame s s' \<Longrightarrow> sem_frame s' s'' \<Longrightarrow> sem_frame s s''"
  by (simp add: sem_frame_def)

lemma reprio_ok_cong:
  assumes ok: "reprio_ok idle s" and "g_pidhash s' = g_pidhash s" "\<And>t. pid (tcbs s' t) = pid (tcbs s t)"
    "\<And>t. pend_reprios (tcbs s' t) = pend_reprios (tcbs s t)" "\<And>t. npend_reprio (tcbs s' t) = npend_reprio (tcbs s t)"
    "\<And>t. base_priority (tcbs s' t) = base_priority (tcbs s t)"
    and pr: "\<And>t. t \<noteq> idle \<Longrightarrow> sched_verifytcb t s \<Longrightarrow> prio s' t = prio s t \<or> base_priority (tcbs s t) \<le> prio s' t \<and> prio s' t \<le> SCHED_PRIORITY_MAX"
  shows "reprio_ok idle s'"
proof -
  have v: "sched_verifytcb t s' = sched_verifytcb t s" for t by (simp add: sched_verifytcb_def assms)
  show ?thesis unfolding reprio_ok_def v
  proof (intro allI impI)
    fix t assume t: "t \<noteq> idle" "sched_verifytcb t s"
    with ok have "length (pend_reprios (tcbs s t)) = CONFIG_SEM_NNESTPRIO" "npend_reprio (tcbs s t) \<le> CONFIG_SEM_NNESTPRIO"
      "\<forall>i < npend_reprio (tcbs s t). base_priority (tcbs s t) \<le> pend_reprios (tcbs s t) ! i \<and> pend_reprios (tcbs s t) ! i \<le> SCHED_PRIORITY_MAX"
      "SCHED_PRIORITY_MIN \<le> base_priority (tcbs s t)" "base_priority (tcbs s t) \<le> prio s t" "prio s t \<le> SCHED_PRIORITY_MAX"
      by (simp_all add: reprio_ok_def)
    with pr [OF t] show "length (pend_reprios (tcbs s' t)) = CONFIG_SEM_NNESTPRIO
        \<and> npend_reprio (tcbs s' t) \<le> CONFIG_SEM_NNESTPRIO
        \<and> (\<forall>i < npend_reprio (tcbs s' t).
              base_priority (tcbs s' t) \<le> pend_reprios (tcbs s' t) ! i \<and> pend_reprios (tcbs s' t) ! i \<le> SCHED_PRIORITY_MAX)
        \<and> SCHED_PRIORITY_MIN \<le> base_priority (tcbs s' t)
        \<and> base_priority (tcbs s' t) \<le> prio s' t \<and> prio s' t \<le> SCHED_PRIORITY_MAX"
      using assms(4-6) by auto
  qed
qed

text \<open>Setting a priority in the loops.\<close>

definition same_pend :: "'z kstate_scheme \<Rightarrow> 'z kstate_scheme \<Rightarrow> bool" where
  "same_pend s s' = (\<forall>t. pend_reprios (tcbs s' t) = pend_reprios (tcbs s t) \<and> npend_reprio (tcbs s' t) = npend_reprio (tcbs s t))"

lemma sem_setpriority:
  assumes core: "sem_core idle s" and t: "t \<noteq> idle" and p: "SCHED_PRIORITY_MIN \<le> p" "p \<le> SCHED_PRIORITY_MAX"
    and base: "base_priority (tcbs s t) \<le> p"
  obtains r s' where "sched_setpriority t (int p) s = Some (r, s')" "sem_core idle s'" "sem_frame s s'"
    "sems s' = sems s" "holders s' = holders s" "same_pend s s'"
    "\<forall>a. prio s' a = (if a = t then p else prio s a)"
    "r = Done OK \<or> r = Switched \<and> \<not> current_regs s"
    "r = Done OK \<longrightarrow> \<not> current_regs s \<longrightarrow> hd (g_readytorun s') = hd (g_readytorun s)"
    "t \<noteq> hd (g_readytorun s) \<longrightarrow> lockcount (tcbs s (hd (g_readytorun s))) \<noteq> 0 \<longrightarrow> r = Done OK"
proof -
  from core have inv: "sched_inv idle s" by (simp add: sem_core_def)
  have p': "int SCHED_PRIORITY_MIN \<le> int p" "int p \<le> int SCHED_PRIORITY_MAX" using p by simp_all
  obtain r s' where s': "sched_setpriority t (int p) s = Some (r, s')" "sched_inv idle s'" "reprio t (nat (int p)) s s'"
    "r = Done OK \<or> r = Switched \<and> \<not> current_regs s"
    "r = Done OK \<longrightarrow> \<not> current_regs s \<longrightarrow> hd (g_readytorun s') = hd (g_readytorun s)"
    "t \<noteq> hd (g_readytorun s) \<longrightarrow> lockcount (tcbs s (hd (g_readytorun s))) \<noteq> 0 \<longrightarrow> r = Done OK"
    by (rule sched_setpriority_post [OF inv t p'])
  from s'(3) have rest: "sched_rest s' = sched_rest s" by (simp add: reprio_def)
  note f = sched_rest_fields [OF rest] and g = sched_rest_sem [OF rest]
  have "holder_pool s'" "holders_ok idle s'"
    using core by (simp_all add: sem_core_def holder_pool_def holders_ok_def g)
  moreover have "reprio_ok idle s'"
    using core s'(3) base p(2) by (intro reprio_ok_cong [of idle s s']) (auto simp: sem_core_def f reprio_def)
  ultimately have "sem_core idle s'" using s'(2) by (simp add: sem_core_def)
  moreover have "sem_frame s s'" using s'(3) f g by (simp add: sem_frame_def reprio_def)
  moreover have "same_pend s s'" using f by (simp add: same_pend_def)
  moreover have "\<forall>a. prio s' a = (if a = t then p else prio s a)" using s'(3) by (simp add: reprio_def)
  ultimately show ?thesis using that s'(1,4-6) g by blast
qed

section \<open>The loop over the holders of a semaphore\<close>

text \<open>
  The contract of a handler and what the loop makes of it. A handler called on a holder that satisfies
  \<open>pre\<close> returns a value in \<open>rets\<close>, relates the states by \<open>R\<close>, establishes \<open>post\<close> for its holder, and
  keeps \<open>pre\<close> and \<open>post\<close> of the others.
\<close>

locale holder_loop =
  fixes handler :: "addr \<Rightarrow> 'z semstate_scheme \<Rightarrow> (int outcome \<times> 'z semstate_scheme) option"
    and pre post :: "addr \<Rightarrow> 'z semstate_scheme \<Rightarrow> bool"
    and R :: "'z semstate_scheme \<Rightarrow> 'z semstate_scheme \<Rightarrow> bool"
    and rets :: "int outcome \<Rightarrow> bool"
  assumes R_refl: "R s s" and R_trans: "R s s' \<Longrightarrow> R s' s'' \<Longrightarrow> R s s''"
    and step: "pre p s \<Longrightarrow> htcb (holders s p) \<noteq> None \<Longrightarrow>
      \<exists>r s'. handler p s = Some (r, s') \<and> rets r \<and> R s s' \<and> post p s'
        \<and> (\<forall>q. q \<noteq> p \<longrightarrow> pre q s \<longrightarrow> pre q s') \<and> (\<forall>q. q \<noteq> p \<longrightarrow> post q s \<longrightarrow> post q s')"
    and skip: "pre p s \<Longrightarrow> htcb (holders s p) = None \<Longrightarrow> post p s"
begin

lemma loop:
  "distinct ps \<Longrightarrow> \<forall>p \<in> set ps. pre p s \<Longrightarrow>
     \<exists>r s'. foreachholder handler ps s = Some (r, s') \<and> (rets r \<or> r = Done 0) \<and> R s s'
       \<and> (r = Done 0 \<longrightarrow> (\<forall>p \<in> set ps. post p s')) \<and> (\<forall>q. q \<notin> set ps \<longrightarrow> post q s \<longrightarrow> post q s')"
proof (induction ps arbitrary: s)
  case Nil
  then show ?case by (simp add: R_refl)
next
  case (Cons p ps)
  show ?case
  proof (cases "htcb (holders s p) = None")
    case True
    with Cons.prems skip have "post p s" by simp
    moreover from Cons.prems have "distinct ps" "\<forall>p \<in> set ps. pre p s" "p \<notin> set ps" by simp_all
    ultimately show ?thesis using Cons.IH [of s] True by fastforce
  next
    case False
    from Cons.prems have "pre p s" by simp
    from step [OF this False] obtain r s' where s': "handler p s = Some (r, s')" "rets r" "R s s'" "post p s'"
      "\<forall>q. q \<noteq> p \<longrightarrow> pre q s \<longrightarrow> pre q s'" "\<forall>q. q \<noteq> p \<longrightarrow> post q s \<longrightarrow> post q s'" by blast
    show ?thesis
    proof (cases "r = Done 0")
      case True
      have "\<forall>q \<in> set ps. pre q s'" using Cons.prems s'(5) by auto
      with Cons.IH [of s'] Cons.prems obtain r2 s2 where s2:
        "foreachholder handler ps s' = Some (r2, s2)" "rets r2 \<or> r2 = Done 0" "R s' s2"
        "r2 = Done 0 \<longrightarrow> (\<forall>p \<in> set ps. post p s2)" "\<forall>q. q \<notin> set ps \<longrightarrow> post q s' \<longrightarrow> post q s2" by auto
      have "post p s2" using s2(5) s'(4) Cons.prems by simp
      then show ?thesis using False s'(1,3,6) True s2 R_trans [OF s'(3) s2(3)] by fastforce
    next
      case ne: False
      then show ?thesis using False s' by auto
    qed
  qed
qed

end

section \<open>Raising the priority of the holders\<close>

text \<open>
  The running task \<open>rt\<close> holds the preemption lock and is about to wait for \<open>sem\<close>. The recorded
  priorities of the holders leave room for one more.
\<close>

definition boost_pre :: "addr \<Rightarrow> addr \<Rightarrow> addr \<Rightarrow> addr \<Rightarrow> 'z semstate_scheme \<Rightarrow> bool" where
  "boost_pre idle rt sem p s =
     (sem_core idle s \<and> p \<in> set (hhead (sems s sem)) \<and> hd (g_readytorun s) = rt \<and> rt \<noteq> idle
      \<and> \<not> current_regs s \<and> lockcount (tcbs s rt) \<noteq> 0
      \<and> (\<forall>h. htcb (holders s p) = Some h \<longrightarrow> npend_reprio (tcbs s h) < CONFIG_SEM_NNESTPRIO))"

text \<open>The holder runs at least at the priority of the waiting task, or it was stale and is gone.\<close>

definition boosted :: "addr \<Rightarrow> addr \<Rightarrow> addr \<Rightarrow> 'z semstate_scheme \<Rightarrow> bool" where
  "boosted rt sem p s =
     (p \<in> set (hhead (sems s sem)) \<longrightarrow> (\<forall>h. htcb (holders s p) = Some h \<longrightarrow> prio s rt \<le> prio s h))"

definition boost_rel :: "addr \<Rightarrow> addr \<Rightarrow> 'z semstate_scheme \<Rightarrow> 'z semstate_scheme \<Rightarrow> bool" where
  "boost_rel idle rt s s' =
     ((sem_core idle s \<longrightarrow> sem_core idle s') \<and> sem_frame s s'
      \<and> hd (g_readytorun s') = hd (g_readytorun s) \<and> (\<forall>a. prio s a \<le> prio s' a) \<and> prio s' rt = prio s rt
      \<and> (\<forall>a. set (hhead (sems s' a)) \<subseteq> set (hhead (sems s a)))
      \<and> (\<forall>a. \<forall>q \<in> set (hhead (sems s' a)). holders s' q = holders s q))"

lemma boost_rel_refl: "boost_rel idle rt s s"
  by (simp add: boost_rel_def)

lemma boost_rel_trans: "boost_rel idle rt s s' \<Longrightarrow> boost_rel idle rt s' s'' \<Longrightarrow> boost_rel idle rt s s''"
  unfolding boost_rel_def by (auto intro: sem_frame_trans order.trans; meson subsetD)

lemma sem_core_freeholder:
  assumes "sem_core idle s" "p \<in> set (hhead (sems s sem))"
  shows "sem_core idle (sem_freeholder sem p s)" "sem_frame s (sem_freeholder sem p s)"
proof -
  let ?s = "sem_freeholder sem p s"
  note obs = freeholder_obs [OF assms(2)]
  have "sched_inv idle ?s" using assms by (simp add: sem_core_def sem_freeholder_def Let_def)
  moreover have "reprio_ok idle ?s"
    using assms(1) by (simp add: sem_core_def reprio_ok_def sched_verifytcb_def obs)
  ultimately show "sem_core idle ?s"
    using assms holder_pool_free holders_ok_free by (auto simp: sem_core_def)
  show "sem_frame s ?s" by (simp add: sem_frame_def obs)
qed

lemma sem_core_upd_reprios:
  assumes core: "sem_core idle s"
    and new: "length ps = CONFIG_SEM_NNESTPRIO" "n \<le> CONFIG_SEM_NNESTPRIO"
      "\<forall>i < n. base_priority (tcbs s h) \<le> ps ! i \<and> ps ! i \<le> SCHED_PRIORITY_MAX"
  shows "sem_core idle (upd_tcb h (\<lambda>b. b\<lparr>pend_reprios := ps, npend_reprio := n\<rparr>) s)"
    "sem_frame s (upd_tcb h (\<lambda>b. b\<lparr>pend_reprios := ps, npend_reprio := n\<rparr>) s)"
proof -
  let ?s = "upd_tcb h (\<lambda>b. b\<lparr>pend_reprios := ps, npend_reprio := n\<rparr>) s"
  have "sched_inv idle ?s" using core by (simp add: sem_core_def sched_inv_upd_tcb)
  moreover have "holder_pool ?s" "holders_ok idle ?s"
    using core by (simp_all add: sem_core_def holder_pool_def holders_ok_def)
  moreover have "sched_verifytcb t ?s = sched_verifytcb t s" for t by (simp add: sched_verifytcb_def)
  then have "reprio_ok idle ?s" using core new by (auto simp: sem_core_def reprio_ok_def)
  ultimately show "sem_core idle ?s" by (simp add: sem_core_def)
  show "sem_frame s ?s" by (simp add: sem_frame_def)
qed

text \<open>Recording one more priority.\<close>

lemma sem_core_push_reprio:
  assumes core: "sem_core idle s" and h: "h \<noteq> idle" "sched_verifytcb h s"
    and n: "npend_reprio (tcbs s h) < CONFIG_SEM_NNESTPRIO" and v: "base_priority (tcbs s h) \<le> v" "v \<le> SCHED_PRIORITY_MAX"
  defines "s' \<equiv> upd_tcb h (\<lambda>b. b\<lparr>pend_reprios := (pend_reprios (tcbs s h))[npend_reprio (tcbs s h) := v],
      npend_reprio := npend_reprio (tcbs s h) + 1\<rparr>) s"
  shows "array_set (pend_reprios (tcbs s h)) (npend_reprio (tcbs s h)) v =
      Some ((pend_reprios (tcbs s h))[npend_reprio (tcbs s h) := v])" "sem_core idle s'" "sem_frame s s'"
proof -
  have len: "length (pend_reprios (tcbs s h)) = CONFIG_SEM_NNESTPRIO"
    and old: "\<forall>i < npend_reprio (tcbs s h). base_priority (tcbs s h) \<le> pend_reprios (tcbs s h) ! i
        \<and> pend_reprios (tcbs s h) ! i \<le> SCHED_PRIORITY_MAX"
    using core h by (simp_all add: sem_core_def reprio_ok_def)
  then show "array_set (pend_reprios (tcbs s h)) (npend_reprio (tcbs s h)) v =
      Some ((pend_reprios (tcbs s h))[npend_reprio (tcbs s h) := v])"
    using n by (simp add: array_set_def)
  have "\<forall>i < npend_reprio (tcbs s h) + 1. base_priority (tcbs s h) \<le> (pend_reprios (tcbs s h))[npend_reprio (tcbs s h) := v] ! i
      \<and> (pend_reprios (tcbs s h))[npend_reprio (tcbs s h) := v] ! i \<le> SCHED_PRIORITY_MAX"
    using old v n len by (auto simp: nth_list_update less_Suc_eq)
  then show "sem_core idle s'" "sem_frame s s'"
    unfolding s'_def using sem_core_upd_reprios [OF core] len n by auto
qed

lemma boosted_mono: "boost_rel idle rt s s' \<Longrightarrow> boosted rt sem q s \<Longrightarrow> boosted rt sem q s'"
  unfolding boost_rel_def boosted_def by (metis order.trans subsetD)

lemma boost_pre_mono:
  assumes rel: "boost_rel idle rt s s'" and p: "boost_pre idle rt sem p s" "htcb (holders s p) = Some h"
    and np: "\<forall>a. a \<noteq> h \<longrightarrow> npend_reprio (tcbs s' a) = npend_reprio (tcbs s a)"
    and hh: "\<forall>q. q \<noteq> p \<longrightarrow> q \<in> set (hhead (sems s sem)) \<longrightarrow> q \<in> set (hhead (sems s' sem))"
    and q: "q \<noteq> p" "boost_pre idle rt sem q s"
  shows "boost_pre idle rt sem q s'"
proof -
  have mem: "p \<in> set (hhead (sems s sem))" "q \<in> set (hhead (sems s sem))"
    using p(1) q(2) by (simp_all add: boost_pre_def)
  have "inj_on (\<lambda>h. htcb (holders s h)) (set (hhead (sems s sem)))"
    using p(1) by (simp add: boost_pre_def sem_core_def holders_ok_def)
  then have "htcb (holders s q) \<noteq> Some h" using mem q(1) p(2) by (metis inj_onD)
  moreover have "holders s' q = holders s q" using rel hh q(1) mem(2) unfolding boost_rel_def by metis
  ultimately show ?thesis
    using q(2) rel np hh q(1) by (auto simp: boost_pre_def boost_rel_def sem_frame_def)
qed

lemma boost_prio:
  assumes "boost_pre idle rt sem p s"
  shows "SCHED_PRIORITY_MIN \<le> prio s rt" "prio s rt \<le> SCHED_PRIORITY_MAX"
proof -
  have core: "sched_core idle s" and rt: "hd (g_readytorun s) = rt" "rt \<noteq> idle"
    using assms by (auto simp: boost_pre_def sem_core_def sched_inv_def)
  then have "task_state (tcbs s rt) = TSTATE_TASK_RUNNING" by (auto simp: core_defs)
  then show "SCHED_PRIORITY_MIN \<le> prio s rt" "prio s rt \<le> SCHED_PRIORITY_MAX"
    by (simp_all add: core_prio [OF core _ rt(2)])
qed

lemma sem_boostholderprio_raise:
  assumes pre: "boost_pre idle rt sem p s" and h: "htcb (holders s p) = Some h" "sched_verifytcb h s" "h \<noteq> idle"
    and up: "base_priority (tcbs s h) < prio s rt" "prio s h < prio s rt"
  obtains s' where "sem_boostholderprio rt sem p s = Some (Done 0, s')" "boost_rel idle rt s s'"
    "prio s' rt \<le> prio s' h" "sems s' = sems s" "holders s' = holders s"
    "\<forall>a. a \<noteq> h \<longrightarrow> npend_reprio (tcbs s' a) = npend_reprio (tcbs s a)"
proof -
  let ?n = "npend_reprio (tcbs s h)"
  let ?push = "prio s h > base_priority (tcbs s h) \<and> ?n < CONFIG_SEM_NNESTPRIO"
  let ?s1 = "upd_tcb h (\<lambda>b. b\<lparr>pend_reprios := (pend_reprios (tcbs s h))[?n := prio s h], npend_reprio := ?n + 1\<rparr>) s"
  define s1 where "s1 = (if ?push then ?s1 else s)"
  have core: "sem_core idle s" using pre by (simp add: boost_pre_def)
  have "prio s h \<le> SCHED_PRIORITY_MAX" using core h by (simp add: sem_core_def reprio_ok_def)
  then have push: "?push \<Longrightarrow> array_set (pend_reprios (tcbs s h)) ?n (prio s h) = Some ((pend_reprios (tcbs s h))[?n := prio s h])"
    "sem_core idle s1" "sem_frame s s1"
    using sem_core_push_reprio [OF core h(3,2), of "prio s h"] core by (auto simp: s1_def)
  have obs: "sems s1 = sems s" "holders s1 = holders s" "prio s1 a = prio s a" "base_priority (tcbs s1 a) = base_priority (tcbs s a)"
    "lists s1 = lists s" "lockcount (tcbs s1 a) = lockcount (tcbs s a)" "current_regs s1 = current_regs s"
    "a \<noteq> h \<Longrightarrow> npend_reprio (tcbs s1 a) = npend_reprio (tcbs s a)" for a
    by (simp_all add: s1_def)
  have rt: "hd (g_readytorun s) = rt" "lockcount (tcbs s rt) \<noteq> 0" "\<not> current_regs s" using pre by (simp_all add: boost_pre_def)
  have ne: "h \<noteq> rt" using up by auto
  obtain r s' where s': "sched_setpriority h (int (prio s rt)) s1 = Some (r, s')" "sem_core idle s'" "sem_frame s1 s'"
    "sems s' = sems s1" "holders s' = holders s1" "same_pend s1 s'"
    "\<forall>a. prio s' a = (if a = h then prio s rt else prio s1 a)"
    "r = Done OK \<or> r = Switched \<and> \<not> current_regs s1"
    "r = Done OK \<longrightarrow> \<not> current_regs s1 \<longrightarrow> hd (g_readytorun s') = hd (g_readytorun s1)"
    "h \<noteq> hd (g_readytorun s1) \<longrightarrow> lockcount (tcbs s1 (hd (g_readytorun s1))) \<noteq> 0 \<longrightarrow> r = Done OK"
    by (rule sem_setpriority [OF push(2) h(3) boost_prio [OF pre]]) (use up in \<open>simp add: obs\<close>)
  have r: "r = Done OK" using s'(10) ne rt by (simp add: obs)
  have "sem_boostholderprio rt sem p s = Some (Done 0, s')"
  proof (cases ?push)
    case True
    then have "s1 = ?s1" by (simp add: s1_def)
    moreover have "upd_tcb h (\<lambda>b. b\<lparr>pend_reprios := (pend_reprios (tcbs s h))[?n := prio s h], npend_reprio := npend_reprio b + 1\<rparr>) s = ?s1"
      by (simp add: upd_tcb_def)
    ultimately show ?thesis
      using h(1,2) up True push(1) s'(1) obs(3) [of rt] r
      by (simp add: sem_boostholderprio_def then_zero_def)
  next
    case False
    then have "s1 = s" unfolding s1_def by (rule if_not_P)
    then show ?thesis using h(1,2) up False s'(1) r
      by (auto simp add: sem_boostholderprio_def then_zero_def)
  qed
  moreover have "boost_rel idle rt s s'"
    using s'(2-5,7,9) r rt ne up push(3) obs by (auto simp: boost_rel_def intro: sem_frame_trans)
  moreover have "\<forall>a. a \<noteq> h \<longrightarrow> npend_reprio (tcbs s' a) = npend_reprio (tcbs s a)"
    using s'(6) obs(8) by (simp add: same_pend_def)
  ultimately show ?thesis using that s'(4,5,7) obs(1,2,3) by simp
qed

lemma sem_boostholderprio_step:
  assumes pre: "boost_pre idle rt sem p s" and ne: "htcb (holders s p) \<noteq> None"
  shows "\<exists>s'. sem_boostholderprio rt sem p s = Some (Done 0, s') \<and> boost_rel idle rt s s' \<and> boosted rt sem p s'
     \<and> (\<forall>q. q \<noteq> p \<longrightarrow> boost_pre idle rt sem q s \<longrightarrow> boost_pre idle rt sem q s')"
proof -
  obtain h where h: "htcb (holders s p) = Some h" using ne by blast
  have core: "sem_core idle s" and mem: "p \<in> set (hhead (sems s sem))"
    and np: "npend_reprio (tcbs s h) < CONFIG_SEM_NNESTPRIO"
    using pre h by (auto simp: boost_pre_def)
  have hi: "h \<noteq> idle" using sem_core_holder [OF core mem] h by auto
  let ?v = "sched_verifytcb h s" and ?up = "base_priority (tcbs s h) < prio s rt"
  consider "\<not> ?v" | "?v" "?up" "prio s h < prio s rt" | "?v" "?up" "prio s rt \<le> prio s h" | "?v" "\<not> ?up" by linarith
  then show ?thesis
  proof cases
    case 1
    let ?s = "sem_freeholder sem p s"
    note obs = freeholder_obs [OF mem]
    have sub: "set (hhead (sems ?s a)) \<subseteq> set (hhead (sems s a)) - {p}" for a
      by (rule freeholder_sub [OF _ mem]) (use core in \<open>simp add: sem_core_def\<close>)
    have "holders ?s q = holders s q" if "q \<in> set (hhead (sems ?s a))" for a q
      by (rule obs(9)) (use sub that in blast)
    then have "boost_rel idle rt s ?s"
      unfolding boost_rel_def using sem_core_freeholder [OF core mem] sub obs(1,2) by auto
    moreover have "boosted rt sem p ?s" using sub [of sem] by (auto simp: boosted_def)
    moreover have "boost_pre idle rt sem q ?s" if "q \<noteq> p" "boost_pre idle rt sem q s" for q
      by (rule boost_pre_mono [OF \<open>boost_rel idle rt s ?s\<close> pre h _ _ that]) (simp_all add: obs)
    ultimately show ?thesis using 1 h by (auto simp: sem_boostholderprio_def)
  next
    case 2
    obtain s' where s': "sem_boostholderprio rt sem p s = Some (Done 0, s')" "boost_rel idle rt s s'"
      "prio s' rt \<le> prio s' h" "sems s' = sems s" "holders s' = holders s"
      "\<forall>a. a \<noteq> h \<longrightarrow> npend_reprio (tcbs s' a) = npend_reprio (tcbs s a)"
      by (rule sem_boostholderprio_raise [OF pre h 2(1) hi 2(2,3)])
    then have "boosted rt sem p s'" using h by (simp add: boosted_def)
    moreover have "boost_pre idle rt sem q s'" if "q \<noteq> p" "boost_pre idle rt sem q s" for q
      by (rule boost_pre_mono [OF s'(2) pre h s'(6) _ that]) (simp add: s'(4))
    ultimately show ?thesis using s'(1,2) by blast
  next
    case 3
    let ?s = "upd_tcb h (\<lambda>b. b\<lparr>pend_reprios := (pend_reprios (tcbs s h))[npend_reprio (tcbs s h) := prio s rt],
        npend_reprio := npend_reprio (tcbs s h) + 1\<rparr>) s"
    note push = sem_core_push_reprio [OF core hi 3(1) np less_imp_le [OF 3(2)] boost_prio(2) [OF pre]]
    have rel: "boost_rel idle rt s ?s" using push(2,3) by (auto simp: boost_rel_def)
    moreover have "boosted rt sem p ?s" using h 3(3) by (simp add: boosted_def)
    moreover have "boost_pre idle rt sem q ?s" if "q \<noteq> p" "boost_pre idle rt sem q s" for q
      by (rule boost_pre_mono [OF rel pre h _ _ that]) simp_all
    moreover have "sem_boostholderprio rt sem p s = Some (Done 0, ?s)"
      using h 3 push(1) by (simp add: sem_boostholderprio_def upd_tcb_def)
    ultimately show ?thesis by blast
  next
    case 4
    have "base_priority (tcbs s h) \<le> prio s h" using core 4(1) hi by (simp add: sem_core_def reprio_ok_def)
    then have "boosted rt sem p s" using h 4(2) by (simp add: boosted_def)
    then show ?thesis using 4 h boost_rel_refl by (auto simp: sem_boostholderprio_def)
  qed
qed

interpretation boost: holder_loop "sem_boostholderprio rt sem" "boost_pre idle rt sem" "boosted rt sem"
    "boost_rel idle rt" "\<lambda>r. r = Done 0" for rt sem idle
proof
  show "boost_rel idle rt s s" for s :: "'a semstate_scheme" by (rule boost_rel_refl)
  show "boost_rel idle rt s s' \<Longrightarrow> boost_rel idle rt s' s'' \<Longrightarrow> boost_rel idle rt s s''"
    for s s' s'' :: "'a semstate_scheme" by (rule boost_rel_trans)
  show "\<exists>r s'. sem_boostholderprio rt sem p s = Some (r, s') \<and> r = Done 0 \<and> boost_rel idle rt s s' \<and> boosted rt sem p s'
      \<and> (\<forall>q. q \<noteq> p \<longrightarrow> boost_pre idle rt sem q s \<longrightarrow> boost_pre idle rt sem q s')
      \<and> (\<forall>q. q \<noteq> p \<longrightarrow> boosted rt sem q s \<longrightarrow> boosted rt sem q s')"
    if "boost_pre idle rt sem p s" "htcb (holders s p) \<noteq> None" for p and s :: "'a semstate_scheme"
    using sem_boostholderprio_step [OF that] boosted_mono by blast
  show "boosted rt sem p s" if "boost_pre idle rt sem p s" "htcb (holders s p) = None" for p and s :: "'a semstate_scheme"
    using that by (simp add: boosted_def)
qed

text \<open>\<open>sem_boostpriority\<close> returns without a context switch and leaves every holder at the waiter's priority or above.\<close>

lemma sem_boostpriority_post:
  assumes core: "sem_core idle s" and rt: "hd (g_readytorun s) = rt" "rt \<noteq> idle" "\<not> current_regs s" "lockcount (tcbs s rt) \<noteq> 0"
    and room: "\<forall>p \<in> set (hhead (sems s sem)). \<forall>h. htcb (holders s p) = Some h \<longrightarrow> npend_reprio (tcbs s h) < CONFIG_SEM_NNESTPRIO"
  obtains s' where "sem_boostpriority sem s = Some (Done 0, s')" "sem_core idle s'" "sem_frame s s'"
    "hd (g_readytorun s') = rt" "prio s' rt = prio s rt"
    "\<forall>p \<in> set (hhead (sems s' sem)). \<exists>h. htcb (holders s' p) = Some h \<and> prio s' rt \<le> prio s' h"
proof -
  have ready: "g_readytorun s \<noteq> []" using core core_ready(1) by (auto simp: sem_core_def sched_inv_def)
  have "distinct (hhead (sems s sem))" using core by (simp add: sem_core_def holder_pool_def)
  moreover have "\<forall>p \<in> set (hhead (sems s sem)). boost_pre idle rt sem p s"
    using core rt room by (simp add: boost_pre_def)
  ultimately obtain r s' where s': "foreachholder (sem_boostholderprio rt sem) (hhead (sems s sem)) s = Some (r, s')"
    "r = Done 0" "boost_rel idle rt s s'" "\<forall>p \<in> set (hhead (sems s sem)). boosted rt sem p s'"
    using boost.loop [of "hhead (sems s sem)" idle rt sem s] by blast
  have core': "sem_core idle s'" using s'(3) core by (simp add: boost_rel_def)
  have "\<exists>h. htcb (holders s' p) = Some h \<and> prio s' rt \<le> prio s' h" if mem: "p \<in> set (hhead (sems s' sem))" for p
  proof -
    obtain h where "htcb (holders s' p) = Some h" using sem_core_holder [OF core' mem] by blast
    moreover have "boosted rt sem p s'" using s'(3,4) mem by (auto simp: boost_rel_def)
    ultimately show ?thesis using mem by (auto simp: boosted_def)
  qed
  moreover have "sem_boostpriority sem s = Some (Done 0, s')"
    using s'(1,2) rt(1) this_task_hd [OF ready] by (simp add: sem_boostpriority_def sem_foreachholder_def)
  ultimately show ?thesis using that core' s'(3) rt(1) by (simp add: boost_rel_def)
qed

section \<open>Restoring the priority of the holders\<close>

text \<open>The search for the greatest recorded priority.\<close>

lemma reprio_max_correct:
  "n \<le> length ps \<Longrightarrow> j < n \<Longrightarrow> j < i \<Longrightarrow> i \<le> n \<Longrightarrow> \<forall>m < i. ps ! m \<le> ps ! j \<Longrightarrow>
     \<exists>k. reprio_max ps n i j = Some k \<and> k < n \<and> (\<forall>m < n. ps ! m \<le> ps ! k)"
proof (induction ps n i j rule: reprio_max.induct)
  case (1 ps n i j)
  show ?case
  proof (cases "i < n")
    case True
    let ?j = "if ps ! i > ps ! j then i else j"
    have get: "array_get ps i = Some (ps ! i)" "array_get ps j = Some (ps ! j)"
      using 1(2-4) True by (simp_all add: array_get_def)
    have "\<forall>m < i + 1. ps ! m \<le> ps ! ?j" using 1(6) by (auto simp: less_Suc_eq)
    moreover have "?j < n" "?j < i + 1" "i + 1 \<le> n" using 1(3,4) True by auto
    ultimately obtain k where "reprio_max ps n (i + 1) ?j = Some k" "k < n" "\<forall>m < n. ps ! m \<le> ps ! k"
      using 1(1) [OF True get] 1(2) by blast
    then show ?thesis using True get by (subst reprio_max.simps) simp
  next
    case False
    then show ?thesis using 1(3,5,6) by (subst reprio_max.simps) simp
  qed
qed

lemma reprio_find_bound:
  "n \<le> length ps \<Longrightarrow>
     reprio_find ps n i v = Some None \<or> (\<exists>k. reprio_find ps n i v = Some (Some k) \<and> k < n)"
proof (induction ps n i v rule: reprio_find.induct)
  case (1 ps n i v)
  show ?case
  proof (cases "i < n")
    case True
    then have get: "array_get ps i = Some (ps ! i)" using 1(2) by (simp add: array_get_def)
    show ?thesis
    proof (cases "ps ! i = v")
      case eq: True
      then show ?thesis using True get by (subst (2) reprio_find.simps) simp
    next
      case False
      then show ?thesis using 1(1) [OF True get] 1(2) True get
        by (subst reprio_find.simps, subst (2) reprio_find.simps) simp
    qed
  next
    case False
    then show ?thesis by (subst reprio_find.simps) simp
  qed
qed

lemma drop_reprio_post:
  assumes core: "sem_core idle s" and h: "h \<noteq> idle" "sched_verifytcb h s" and i: "i < npend_reprio (tcbs s h)"
  obtains s' where "drop_reprio h i s = Some s'" "sem_core idle s'" "sem_frame s s'" "sems s' = sems s"
    "holders s' = holders s" "lists s' = lists s" "\<forall>a. prio s' a = prio s a"
proof -
  let ?ps = "pend_reprios (tcbs s h)" and ?n = "npend_reprio (tcbs s h)"
  have ok: "length ?ps = CONFIG_SEM_NNESTPRIO" "?n \<le> CONFIG_SEM_NNESTPRIO"
    "\<forall>i < ?n. base_priority (tcbs s h) \<le> ?ps ! i \<and> ?ps ! i \<le> SCHED_PRIORITY_MAX"
    using core h by (simp_all add: sem_core_def reprio_ok_def)
  define qs where "qs = (if ?n - 1 > 0 then ?ps[i := ?ps ! (?n - 1)] else ?ps)"
  have qs: "length qs = CONFIG_SEM_NNESTPRIO"
    "\<forall>i < ?n - 1. base_priority (tcbs s h) \<le> qs ! i \<and> qs ! i \<le> SCHED_PRIORITY_MAX"
    using ok i by (auto simp: qs_def nth_list_update)
  let ?s = "upd_tcb h (\<lambda>b. b\<lparr>pend_reprios := qs, npend_reprio := ?n - 1\<rparr>) s"
  have "drop_reprio h i s = Some ?s"
    using ok i by (auto simp: drop_reprio_def Let_def array_get_def array_set_def qs_def)
  moreover have "sem_core idle ?s" "sem_frame s ?s"
    using sem_core_upd_reprios [OF core qs(1) _ qs(2)] ok(2) by simp_all
  ultimately show ?thesis using that [of ?s] by simp
qed

definition restore_pre :: "addr \<Rightarrow> addr \<Rightarrow> addr \<Rightarrow> 'z semstate_scheme \<Rightarrow> bool" where
  "restore_pre idle sem p s = (sem_core idle s \<and> p \<in> set (hhead (sems s sem)))"

definition restore_rel :: "addr \<Rightarrow> addr \<Rightarrow> 'z semstate_scheme \<Rightarrow> 'z semstate_scheme \<Rightarrow> bool" where
  "restore_rel idle sem s s' = ((sem_core idle s \<longrightarrow> sem_core idle s') \<and> sem_frame s s')"

lemma restore_rel_refl: "restore_rel idle sem s s"
  by (simp add: restore_rel_def)

lemma restore_rel_trans: "restore_rel idle sem s s' \<Longrightarrow> restore_rel idle sem s' s'' \<Longrightarrow> restore_rel idle sem s s''"
  unfolding restore_rel_def by (auto intro: sem_frame_trans)

lemma sem_reprioritize_base:
  assumes core: "sem_core idle s" and h: "h \<noteq> idle" "sched_verifytcb h s" and n: "npend_reprio (tcbs s h) = 0"
  obtains r s' where "sched_reprioritize h (int (base_priority (tcbs s h))) s = Some (r, s')" "sem_core idle s'"
    "sem_frame s s'" "sems s' = sems s" "holders s' = holders s" "r = Done OK \<or> r = Switched \<and> \<not> current_regs s"
    "r = Done OK \<longrightarrow> \<not> current_regs s \<longrightarrow> hd (g_readytorun s') = hd (g_readytorun s)"
    "h \<noteq> hd (g_readytorun s) \<longrightarrow> lockcount (tcbs s (hd (g_readytorun s))) \<noteq> 0 \<longrightarrow> r = Done OK"
    "prio s' h = base_priority (tcbs s h)"
proof -
  have b: "SCHED_PRIORITY_MIN \<le> base_priority (tcbs s h)" "base_priority (tcbs s h) \<le> SCHED_PRIORITY_MAX"
    using core h by (auto simp: sem_core_def reprio_ok_def)
  obtain r s' where s': "sched_setpriority h (int (base_priority (tcbs s h))) s = Some (r, s')" "sem_core idle s'" "sem_frame s s'"
    "sems s' = sems s" "holders s' = holders s" "same_pend s s'"
    "\<forall>a. prio s' a = (if a = h then base_priority (tcbs s h) else prio s a)"
    "r = Done OK \<or> r = Switched \<and> \<not> current_regs s"
    "r = Done OK \<longrightarrow> \<not> current_regs s \<longrightarrow> hd (g_readytorun s') = hd (g_readytorun s)"
    "h \<noteq> hd (g_readytorun s) \<longrightarrow> lockcount (tcbs s (hd (g_readytorun s))) \<noteq> 0 \<longrightarrow> r = Done OK"
    by (rule sem_setpriority [OF core h(1) b]) simp
  have "sched_reprioritize_resume h (int (base_priority (tcbs s h))) s' = s'"
  proof -
    have "(tcbs s' h)\<lparr>base_priority := base_priority (tcbs s h), npend_reprio := 0\<rparr> = tcbs s' h"
      using s'(3,6) n by (simp add: sem_frame_def same_pend_def)
    then show ?thesis by (simp add: sched_reprioritize_resume_def upd_tcb_def)
  qed
  then have "sched_reprioritize h (int (base_priority (tcbs s h))) s = Some (r, s')"
    using s'(1) by (simp add: sched_reprioritize_def)
  then show ?thesis using that s'(2-5,7-10) by simp
qed

lemma sem_restoreholderprio_step:
  assumes core: "sem_core idle s" and mem: "p \<in> set (hhead (sems s sem))" and h: "htcb (holders s p) = Some h"
  obtains r s' where "sem_restoreholderprio st sem p s = Some (r, s')" "sem_core idle s'" "sem_frame s s'"
    "r = Done 0 \<or> r = Switched \<and> \<not> current_regs s"
    "\<forall>q. q \<noteq> p \<longrightarrow> q \<in> set (hhead (sems s sem)) \<longrightarrow> q \<in> set (hhead (sems s' sem)) \<and> holders s' q = holders s q"
    "r = Done 0 \<longrightarrow> \<not> current_regs s \<longrightarrow> hd (g_readytorun s') = hd (g_readytorun s)"
    "h \<noteq> hd (g_readytorun s) \<longrightarrow> lockcount (tcbs s (hd (g_readytorun s))) \<noteq> 0 \<longrightarrow> r = Done 0"
proof -
  have hi: "h \<noteq> idle" using sem_core_holder [OF core mem] h by auto
  let ?v = "sched_verifytcb h s" and ?n = "npend_reprio (tcbs s h)"
  consider "\<not> ?v" | "?v" "prio s h = base_priority (tcbs s h)"
    | "?v" "prio s h \<noteq> base_priority (tcbs s h)" "?n = 0"
    | "?v" "prio s h \<noteq> base_priority (tcbs s h)" "?n \<noteq> 0" "prio s h \<le> prio s st"
    | "?v" "prio s h \<noteq> base_priority (tcbs s h)" "?n \<noteq> 0" "\<not> prio s h \<le> prio s st" by blast
  then show ?thesis
  proof cases
    case 1
    show ?thesis
      by (rule that [of "Done 0" "sem_freeholder sem p s"])
        (use 1 h sem_core_freeholder [OF core mem] freeholder_obs [OF mem] in \<open>auto simp: sem_restoreholderprio_def\<close>)
  next
    case 2
    show ?thesis by (rule that [of "Done 0" s]) (use 2 h core in \<open>auto simp: sem_restoreholderprio_def\<close>)
  next
    case 3
    obtain r s' where s': "sched_reprioritize h (int (base_priority (tcbs s h))) s = Some (r, s')" "sem_core idle s'"
      "sem_frame s s'" "sems s' = sems s" "holders s' = holders s" "r = Done OK \<or> r = Switched \<and> \<not> current_regs s"
      "r = Done OK \<longrightarrow> \<not> current_regs s \<longrightarrow> hd (g_readytorun s') = hd (g_readytorun s)"
      "h \<noteq> hd (g_readytorun s) \<longrightarrow> lockcount (tcbs s (hd (g_readytorun s))) \<noteq> 0 \<longrightarrow> r = Done OK"
      by (rule sem_reprioritize_base [OF core hi 3(1,3)])
    have "sem_restoreholderprio st sem p s = Some (then_zero r, s')"
      using 3 h s'(1) by (simp add: sem_restoreholderprio_def)
    then show ?thesis by (rule that [OF _ s'(2,3)]) (use s'(4-8) in \<open>auto simp: then_zero_def\<close>)
  next
    case 4
    have ok: "length (pend_reprios (tcbs s h)) = CONFIG_SEM_NNESTPRIO" "?n \<le> CONFIG_SEM_NNESTPRIO"
      "\<forall>i < ?n. base_priority (tcbs s h) \<le> pend_reprios (tcbs s h) ! i \<and> pend_reprios (tcbs s h) ! i \<le> SCHED_PRIORITY_MAX"
      "SCHED_PRIORITY_MIN \<le> base_priority (tcbs s h)"
      using core hi 4(1) by (simp_all add: sem_core_def reprio_ok_def)
    obtain j where j: "reprio_max (pend_reprios (tcbs s h)) ?n 1 0 = Some j" "j < ?n"
      using reprio_max_correct [of ?n "pend_reprios (tcbs s h)" 0 1] ok 4(3) by auto
    let ?p = "pend_reprios (tcbs s h) ! j"
    obtain s1 where s1: "drop_reprio h j s = Some s1" "sem_core idle s1" "sem_frame s s1" "sems s1 = sems s"
      "holders s1 = holders s" "lists s1 = lists s" "\<forall>a. prio s1 a = prio s a"
      by (rule drop_reprio_post [OF core hi 4(1) j(2)])
    have bounds: "SCHED_PRIORITY_MIN \<le> ?p" "?p \<le> SCHED_PRIORITY_MAX" "base_priority (tcbs s1 h) \<le> ?p"
      using ok j(2) s1(3) by (auto simp: sem_frame_def intro: order.trans)
    obtain r s' where s': "sched_setpriority h (int ?p) s1 = Some (r, s')" "sem_core idle s'" "sem_frame s1 s'"
      "sems s' = sems s1" "holders s' = holders s1" "same_pend s1 s'"
      "\<forall>a. prio s' a = (if a = h then ?p else prio s1 a)" "r = Done OK \<or> r = Switched \<and> \<not> current_regs s1"
      "r = Done OK \<longrightarrow> \<not> current_regs s1 \<longrightarrow> hd (g_readytorun s') = hd (g_readytorun s1)"
      "h \<noteq> hd (g_readytorun s1) \<longrightarrow> lockcount (tcbs s1 (hd (g_readytorun s1))) \<noteq> 0 \<longrightarrow> r = Done OK"
      by (rule sem_setpriority [OF s1(2) hi bounds])
    have "sem_restoreholderprio st sem p s = Some (then_zero r, s')"
      using 4 h j ok(1,2) s1(1) s'(1) by (simp add: sem_restoreholderprio_def array_get_def)
    moreover have "sem_frame s s'" using s1(3) s'(3) by (rule sem_frame_trans)
    ultimately show ?thesis
      by (rule that [OF _ s'(2)]) (use s'(4,5,8-10) s1(3-6) in \<open>auto simp: then_zero_def sem_frame_def\<close>)
  next
    case 5
    have "?n \<le> length (pend_reprios (tcbs s h))" using core hi 5(1) by (simp add: sem_core_def reprio_ok_def)
    from reprio_find_bound [OF this, of 0 "prio s st"]
    consider "reprio_find (pend_reprios (tcbs s h)) ?n 0 (prio s st) = Some None"
      | i where "reprio_find (pend_reprios (tcbs s h)) ?n 0 (prio s st) = Some (Some i)" "i < ?n" by blast
    then show ?thesis
    proof cases
      case 1
      show ?thesis by (rule that [of "Done 0" s]) (use 1 5 h core in \<open>auto simp: sem_restoreholderprio_def\<close>)
    next
      case (2 i)
      obtain s1 where s1: "drop_reprio h i s = Some s1" "sem_core idle s1" "sem_frame s s1" "sems s1 = sems s"
        "holders s1 = holders s" "lists s1 = lists s" by (rule drop_reprio_post [OF core hi 5(1) 2(2)])
      show ?thesis
        by (rule that [of "Done 0" s1]) (use 2 5 h s1 in \<open>auto simp: sem_restoreholderprio_def\<close>)
    qed
  qed
qed

interpretation restore: holder_loop "sem_restoreholderprio st sem" "restore_pre idle sem" "\<lambda>_ _. True"
    "restore_rel idle sem" "\<lambda>r. r = Done 0 \<or> r = Switched" for st sem idle
proof
  show "restore_rel idle sem s s" for s :: "'a semstate_scheme" by (rule restore_rel_refl)
  show "restore_rel idle sem s s' \<Longrightarrow> restore_rel idle sem s' s'' \<Longrightarrow> restore_rel idle sem s s''"
    for s s' s'' :: "'a semstate_scheme" by (rule restore_rel_trans)
  fix p and s :: "'a semstate_scheme" assume pre: "restore_pre idle sem p s" and "htcb (holders s p) \<noteq> None"
  then obtain h where h: "htcb (holders s p) = Some h" by blast
  have core: "sem_core idle s" and mem: "p \<in> set (hhead (sems s sem))" using pre by (simp_all add: restore_pre_def)
  show "\<exists>r s'. sem_restoreholderprio st sem p s = Some (r, s') \<and> (r = Done 0 \<or> r = Switched) \<and> restore_rel idle sem s s' \<and> True
      \<and> (\<forall>q. q \<noteq> p \<longrightarrow> restore_pre idle sem q s \<longrightarrow> restore_pre idle sem q s') \<and> (\<forall>q. q \<noteq> p \<longrightarrow> True \<longrightarrow> True)"
  proof -
    obtain r s' where s': "sem_restoreholderprio st sem p s = Some (r, s')" "sem_core idle s'" "sem_frame s s'"
      "r = Done 0 \<or> r = Switched \<and> \<not> current_regs s"
      "\<forall>q. q \<noteq> p \<longrightarrow> q \<in> set (hhead (sems s sem)) \<longrightarrow> q \<in> set (hhead (sems s' sem)) \<and> holders s' q = holders s q"
      "r = Done 0 \<longrightarrow> \<not> current_regs s \<longrightarrow> hd (g_readytorun s') = hd (g_readytorun s)"
      "h \<noteq> hd (g_readytorun s) \<longrightarrow> lockcount (tcbs s (hd (g_readytorun s))) \<noteq> 0 \<longrightarrow> r = Done 0"
      by (rule sem_restoreholderprio_step [OF core mem h])
    then show ?thesis by (auto simp: restore_rel_def restore_pre_def)
  qed
qed (rule TrueI)

text \<open>The first pass over the holders skips the running task and cannot lose the processor.\<close>

definition restoreA_pre :: "addr \<Rightarrow> addr \<Rightarrow> addr \<Rightarrow> addr \<Rightarrow> 'z semstate_scheme \<Rightarrow> bool" where
  "restoreA_pre idle rt sem p s =
     (restore_pre idle sem p s \<and> \<not> current_regs s \<and> hd (g_readytorun s) = rt \<and> lockcount (tcbs s rt) \<noteq> 0)"

definition restoreA_rel :: "addr \<Rightarrow> addr \<Rightarrow> 'z semstate_scheme \<Rightarrow> 'z semstate_scheme \<Rightarrow> bool" where
  "restoreA_rel idle sem s s' = (restore_rel idle sem s s' \<and> hd (g_readytorun s') = hd (g_readytorun s))"

interpretation restoreA: holder_loop "sem_restoreholderprioA st sem" "restoreA_pre idle rt sem" "\<lambda>_ _. True"
    "restoreA_rel idle sem" "\<lambda>r. r = Done 0" for st sem idle rt
proof
  show "restoreA_rel idle sem s s" for s :: "'a semstate_scheme" by (simp add: restoreA_rel_def restore_rel_refl)
  show "restoreA_rel idle sem s s' \<Longrightarrow> restoreA_rel idle sem s' s'' \<Longrightarrow> restoreA_rel idle sem s s''"
    for s s' s'' :: "'a semstate_scheme" by (auto simp: restoreA_rel_def intro: restore_rel_trans)
  fix p and s :: "'a semstate_scheme" assume pre: "restoreA_pre idle rt sem p s" and "htcb (holders s p) \<noteq> None"
  then obtain h where h: "htcb (holders s p) = Some h" by blast
  have core: "sem_core idle s" and mem: "p \<in> set (hhead (sems s sem))"
    using pre by (simp_all add: restoreA_pre_def restore_pre_def)
  have cur: "this_task s = Some rt"
    using core pre core_ready(1) this_task_hd by (auto simp: sem_core_def sched_inv_def restoreA_pre_def)
  show "\<exists>r s'. sem_restoreholderprioA st sem p s = Some (r, s') \<and> r = Done 0 \<and> restoreA_rel idle sem s s' \<and> True
      \<and> (\<forall>q. q \<noteq> p \<longrightarrow> restoreA_pre idle rt sem q s \<longrightarrow> restoreA_pre idle rt sem q s') \<and> (\<forall>q. q \<noteq> p \<longrightarrow> True \<longrightarrow> True)"
  proof (cases "h = rt")
    case True
    then show ?thesis using h cur by (simp add: sem_restoreholderprioA_def restoreA_rel_def restore_rel_refl)
  next
    case False
    obtain r s' where s': "sem_restoreholderprio st sem p s = Some (r, s')" "sem_core idle s'" "sem_frame s s'"
      "r = Done 0 \<or> r = Switched \<and> \<not> current_regs s"
      "\<forall>q. q \<noteq> p \<longrightarrow> q \<in> set (hhead (sems s sem)) \<longrightarrow> q \<in> set (hhead (sems s' sem)) \<and> holders s' q = holders s q"
      "r = Done 0 \<longrightarrow> \<not> current_regs s \<longrightarrow> hd (g_readytorun s') = hd (g_readytorun s)"
      "h \<noteq> hd (g_readytorun s) \<longrightarrow> lockcount (tcbs s (hd (g_readytorun s))) \<noteq> 0 \<longrightarrow> r = Done 0"
      by (rule sem_restoreholderprio_step [OF core mem h])
    have r: "r = Done 0" "hd (g_readytorun s') = rt" using s'(6,7) False pre by (auto simp: restoreA_pre_def)
    have "restoreA_pre idle rt sem q s'" if "q \<noteq> p" "restoreA_pre idle rt sem q s" for q
      using s'(2,3,5) r(2) that by (auto simp: restoreA_pre_def restore_pre_def sem_frame_def)
    moreover have "sem_restoreholderprioA st sem p s = Some (Done 0, s')"
      using s'(1) r(1) False h cur by (simp add: sem_restoreholderprioA_def)
    moreover have "restoreA_rel idle sem s s'"
      using s'(2,3) r(2) pre by (simp add: restoreA_rel_def restore_rel_def restoreA_pre_def)
    ultimately show ?thesis by blast
  qed
qed (rule TrueI)

interpretation restoreB: holder_loop "sem_restoreholderprioB st sem" "restore_pre idle sem" "\<lambda>_ _. True"
    "restore_rel idle sem" "\<lambda>r. r = Done 0 \<or> r = Done 1 \<or> r = Switched" for st sem idle
proof
  show "restore_rel idle sem s s" for s :: "'a semstate_scheme" by (rule restore_rel_refl)
  show "restore_rel idle sem s s' \<Longrightarrow> restore_rel idle sem s' s'' \<Longrightarrow> restore_rel idle sem s s''"
    for s s' s'' :: "'a semstate_scheme" by (rule restore_rel_trans)
  fix p and s :: "'a semstate_scheme" assume pre: "restore_pre idle sem p s" and "htcb (holders s p) \<noteq> None"
  then obtain h where h: "htcb (holders s p) = Some h" by blast
  have core: "sem_core idle s" and mem: "p \<in> set (hhead (sems s sem))" using pre by (simp_all add: restore_pre_def)
  show "\<exists>r s'. sem_restoreholderprioB st sem p s = Some (r, s') \<and> (r = Done 0 \<or> r = Done 1 \<or> r = Switched)
      \<and> restore_rel idle sem s s' \<and> True
      \<and> (\<forall>q. q \<noteq> p \<longrightarrow> restore_pre idle sem q s \<longrightarrow> restore_pre idle sem q s') \<and> (\<forall>q. q \<noteq> p \<longrightarrow> True \<longrightarrow> True)"
  proof (cases "htcb (holders s p) = this_task s")
    case True
    obtain r s' where s': "sem_restoreholderprio st sem p s = Some (r, s')" "sem_core idle s'" "sem_frame s s'"
      "r = Done 0 \<or> r = Switched \<and> \<not> current_regs s"
      "\<forall>q. q \<noteq> p \<longrightarrow> q \<in> set (hhead (sems s sem)) \<longrightarrow> q \<in> set (hhead (sems s' sem)) \<and> holders s' q = holders s q"
      "r = Done 0 \<longrightarrow> \<not> current_regs s \<longrightarrow> hd (g_readytorun s') = hd (g_readytorun s)"
      "h \<noteq> hd (g_readytorun s) \<longrightarrow> lockcount (tcbs s (hd (g_readytorun s))) \<noteq> 0 \<longrightarrow> r = Done 0"
      by (rule sem_restoreholderprio_step [OF core mem h])
    have "sem_restoreholderprioB st sem p s = Some (if r = Switched then Switched else Done 1, s')"
      using s'(1,4) True by (auto simp: sem_restoreholderprioB_def)
    moreover have "restore_pre idle sem q s'" if "q \<noteq> p" "restore_pre idle sem q s" for q
      using s'(2,5) that by (auto simp: restore_pre_def)
    moreover have "restore_rel idle sem s s'" using s'(2,3) by (simp add: restore_rel_def)
    ultimately show ?thesis by (cases "r = Switched") auto
  next
    case False
    then show ?thesis by (simp add: sem_restoreholderprioB_def restore_rel_refl)
  qed
qed (rule TrueI)

lemma sem_core_upd_tcb:
  assumes "sem_core idle s" "sched_inv idle (upd_tcb t f s)"
    "\<And>b. pid (f b) = pid b" "\<And>b. pend_reprios (f b) = pend_reprios b" "\<And>b. npend_reprio (f b) = npend_reprio b"
    "\<And>b. base_priority (f b) = base_priority b" "\<And>b. sched_priority (f b) = sched_priority b"
  shows "sem_core idle (upd_tcb t f s)"
proof -
  have "reprio_ok idle (upd_tcb t f s)"
    by (rule reprio_ok_cong [of idle s]) (use assms(1) in \<open>simp_all add: sem_core_def assms(3-7)\<close>)
  moreover have "holder_pool (upd_tcb t f s)" "holders_ok idle (upd_tcb t f s)"
    using assms(1) by (simp_all add: sem_core_def holder_pool_def holders_ok_def)
  ultimately show ?thesis using assms(2) by (simp add: sem_core_def)
qed

lemma sem_core_upd_sem:
  assumes "sem_core idle s" "\<And>x. hhead (f x) = hhead x"
  shows "sem_core idle (upd_sem a f s)"
proof -
  have "hhead (sems (upd_sem a f s) b) = hhead (sems s b)" for b using assms(2) by simp
  then show ?thesis
    using assms(1) by (simp add: sem_core_def holder_pool_def holders_ok_def reprio_ok_def sched_verifytcb_def del: sem_upd_simps(5))
qed

lemma sem_core_upd_holder:
  assumes "sem_core idle s" "\<And>x. htcb (g x) = htcb x"
  shows "sem_core idle (upd_holder h g s)"
proof -
  have "htcb (holders (upd_holder h g s) b) = htcb (holders s b)" for b using assms(2) by simp
  then show ?thesis
    using assms(1) by (simp add: sem_core_def holder_pool_def holders_ok_def reprio_ok_def sched_verifytcb_def del: sem_upd_simps(13))
qed

lemma sem_findholder_mem: "sem_findholder sem t s = Some p \<Longrightarrow> p \<in> set (hhead (sems s sem)) \<and> htcb (holders s p) = t"
  unfolding sem_findholder_def by (auto simp: find_Some_iff)

lemma sem_core_dropholder:
  assumes "sem_core idle s"
  shows "sem_core idle (sem_dropholder rt sem s)" "sem_frame s (sem_dropholder rt sem s)"
    "lists (sem_dropholder rt sem s) = lists s"
  using assms sem_core_freeholder [of idle s _ sem] freeholder_obs(2) [of _ s sem]
  by (auto simp: sem_dropholder_def dest!: sem_findholder_mem split: option.split)

lemma sem_restorebaseprio_post:
  assumes core: "sem_core idle s" and lock: "\<not> current_regs s \<longrightarrow> lockcount (tcbs s (hd (g_readytorun s))) \<noteq> 0"
    and asrt: "semcount (sems s sem) > 0 \<and> st = None \<or> semcount (sems s sem) \<le> 0 \<and> st \<noteq> None"
  obtains r s' where "sem_restorebaseprio st sem s = Some (r, s')" "sem_core idle s'" "sem_frame s s'"
    "r = Switched \<or> (\<exists>k. r = Done k)"
proof -
  have d: "distinct (hhead (sems s sem))" using core by (simp add: sem_core_def holder_pool_def)
  have ready: "g_readytorun s \<noteq> []" using core core_ready(1) by (auto simp: sem_core_def sched_inv_def)
  have pre: "\<forall>p \<in> set (hhead (sems s sem)). restore_pre idle sem p s" using core by (simp add: restore_pre_def)
  consider "st = None" "current_regs s" | t where "st = Some t" "current_regs s" | "st = None" "\<not> current_regs s"
    | t where "st = Some t" "\<not> current_regs s" by blast
  then show ?thesis
  proof cases
    case 1
    show ?thesis by (rule that [of "Done 0" s]) (use 1 asrt core in \<open>simp_all add: sem_restorebaseprio_def sem_restorebaseprio_irq_def\<close>)
  next
    case (2 t)
    obtain r s' where s': "foreachholder (sem_restoreholderprio t sem) (hhead (sems s sem)) s = Some (r, s')" "restore_rel idle sem s s'"
      using restore.loop [OF d pre, of t] by blast
    show ?thesis
      by (rule that [of r s'])
        (use 2 asrt core s' in \<open>auto simp: sem_restorebaseprio_def sem_restorebaseprio_irq_def sem_foreachholder_def restore_rel_def intro: outcome.exhaust\<close>)
  next
    case 3
    show ?thesis
      by (rule that [of "Done 0" "sem_dropholder (hd (g_readytorun s)) sem s"])
        (use 3 asrt sem_core_dropholder [OF core] in
          \<open>simp_all add: sem_restorebaseprio_def sem_restorebaseprio_task_def this_task_hd [OF ready]\<close>)
  next
    case (4 t)
    let ?rt = "hd (g_readytorun s)"
    have "\<forall>p \<in> set (hhead (sems s sem)). restoreA_pre idle ?rt sem p s"
      using pre 4 lock by (simp add: restoreA_pre_def)
    from restoreA.loop [OF d this, of t] obtain s1 where s1:
      "foreachholder (sem_restoreholderprioA t sem) (hhead (sems s sem)) s = Some (Done 0, s1)" "restoreA_rel idle sem s s1" by blast
    have core1: "sem_core idle s1" and f1: "sem_frame s s1" using s1(2) core by (simp_all add: restoreA_rel_def restore_rel_def)
    have d1: "distinct (hhead (sems s1 sem))" using core1 by (simp add: sem_core_def holder_pool_def)
    have "\<forall>p \<in> set (hhead (sems s1 sem)). restore_pre idle sem p s1" using core1 by (simp add: restore_pre_def)
    from restoreB.loop [OF d1 this, of t] obtain r s2 where s2:
      "foreachholder (sem_restoreholderprioB t sem) (hhead (sems s1 sem)) s1 = Some (r, s2)" "restore_rel idle sem s1 s2" by blast
    have core2: "sem_core idle s2" and f2: "sem_frame s s2"
      using s2(2) core1 f1 by (auto simp: restore_rel_def intro: sem_frame_trans)
    have eq: "sem_restorebaseprio st sem s =
        Some (if r = Switched then (r, s2) else (Done 0, sem_dropholder ?rt sem s2))"
      using 4 asrt s1(1) s2(1)
      by (auto simp: sem_restorebaseprio_def sem_restorebaseprio_task_def this_task_hd [OF ready] sem_foreachholder_def)
    show ?thesis
    proof (cases "r = Switched")
      case True
      then show ?thesis using that [OF _ core2 f2, of r] eq by simp
    next
      case False
      have "sem_frame s (sem_dropholder ?rt sem s2)"
        using f2 sem_core_dropholder(2) [OF core2] by (rule sem_frame_trans)
      with False eq sem_core_dropholder(1) [OF core2] show ?thesis by (intro that [of "Done 0"]) simp_all
    qed
  qed
qed

section \<open>The calls\<close>

text \<open>
  The number of tasks that wait for a semaphore, and the invariant: a task is in the list of waiting
  tasks exactly while it has a semaphore to wait for, and a negative count is the number of waiters.
\<close>

definition nwaiters :: "addr \<Rightarrow> 'z semstate_scheme \<Rightarrow> nat" where
  "nwaiters sem s = size (filter_mset (\<lambda>t. waitsem (tcbs s t) = Some sem) (mset (lists s WaitingForSemaphore)))"

definition waits_ok :: "'z semstate_scheme \<Rightarrow> bool" where
  "waits_ok s =
     ((\<forall>t. waitsem (tcbs s t) \<noteq> None \<longleftrightarrow> t \<in># mset (lists s WaitingForSemaphore))
      \<and> (\<forall>sem. -32768 \<le> semcount (sems s sem) \<and> semcount (sems s sem) \<le> SEM_VALUE_MAX
              \<and> int (nwaiters sem s) = max 0 (- semcount (sems s sem))))"

definition sem_inv :: "addr \<Rightarrow> 'z semstate_scheme \<Rightarrow> bool" where
  "sem_inv idle s = (sem_core idle s \<and> waits_ok s)"

lemma waits_ok_frame: "sem_frame s s' \<Longrightarrow> waits_ok s' = waits_ok s"
  unfolding sem_frame_def waits_ok_def nwaiters_def by simp

lemma waits_ok_cong:
  assumes "\<And>t. waitsem (tcbs s' t) = waitsem (tcbs s t)" "lists s' WaitingForSemaphore = lists s WaitingForSemaphore"
    "\<And>a. semcount (sems s' a) = semcount (sems s a)"
  shows "waits_ok s' = waits_ok s"
  using assms by (simp add: waits_ok_def nwaiters_def)

lemma sem_core_addholder:
  assumes core: "sem_core idle s" and t: "t \<noteq> idle"
  shows "sem_core idle (sem_addholder_tcb t sem s)"
proof (cases "sflags (sems s sem) AND PRIOINHERIT_FLAGS_DISABLE = 0")
  case False
  then show ?thesis using core by (simp add: sem_addholder_tcb_def)
next
  case on: True
  show ?thesis
  proof (cases "sem_findholder sem (Some t) s")
    case (Some p)
    let ?g = "\<lambda>h. h\<lparr>htcb := Some t, hcounts := int16 (hcounts h + 1)\<rparr>"
    have "htcb (holders s p) = Some t" using sem_findholder_mem [OF Some] by simp
    then have "upd_holder p ?g s = upd_holder p (\<lambda>h. h\<lparr>hcounts := int16 (hcounts h + 1)\<rparr>) s"
      by (cases "holders s p") (simp add: upd_holder_def)
    moreover have "sem_addholder_tcb t sem s = upd_holder p ?g s"
      using on Some by (simp add: sem_addholder_tcb_def sem_findorallocateholder_def)
    ultimately show ?thesis using sem_core_upd_holder [OF core] by simp
  next
    case None
    show ?thesis
    proof (cases "g_freeholders s")
      case Nil
      then show ?thesis using on None core
        by (simp add: sem_addholder_tcb_def sem_findorallocateholder_def sem_allocholder_def)
    next
      case (Cons p fs)
      define s1 where "s1 = snd (sem_allocholder sem s)"
      let ?s = "upd_holder p (\<lambda>h. h\<lparr>htcb := Some t, hcounts := int16 (hcounts h + 1)\<rparr>) s1"
      have eq: "sem_addholder_tcb t sem s = ?s"
        using on None Cons by (simp add: sem_addholder_tcb_def sem_findorallocateholder_def sem_allocholder_def s1_def Let_def)
      have obs: "tcbs ?s = tcbs s" "lists ?s = lists s" "g_pidhash ?s = g_pidhash s" "g_freeholders ?s = g_freeholders s1"
        "sems ?s = sems s1" "hhead (sems ?s a) = (if a = sem then p # hhead (sems s a) else hhead (sems s a))"
        "htcb (holders ?s q) = (if q = p then Some t else htcb (holders s q))" for a q
        using Cons by (simp_all add: s1_def sem_allocholder_def Let_def)
      have pool: "holder_pool s" "sched_inv idle s" "holders_ok idle s" "reprio_ok idle s" using core by (simp_all add: sem_core_def)
      have "sched_inv idle ?s" using pool(2) Cons by (simp add: s1_def sem_allocholder_def Let_def)
      moreover have "holder_pool ?s"
        using holder_pool_alloc [OF pool(1) Cons, of sem] by (simp add: holder_pool_def s1_def)
      moreover have fresh: "p \<notin> set (hhead (sems s a))" for a using pool(1) Cons by (auto simp: holder_pool_def)
      have new: "\<forall>q \<in> set (hhead (sems s sem)). htcb (holders s q) \<noteq> Some t"
        using None by (simp add: sem_findholder_def find_None_iff)
      have "holders_ok idle ?s" unfolding holders_ok_def
      proof (intro allI conjI ballI)
        show "\<exists>u. htcb (holders ?s h) = Some u \<and> u \<noteq> idle" if "h \<in> set (hhead (sems ?s a))" for a h
          using that pool(3) t fresh unfolding obs(6,7) holders_ok_def by (auto split: if_splits)
        fix a
        have "inj_on (\<lambda>h. htcb (holders s h)) (set (hhead (sems s a)))" using pool(3) by (simp add: holders_ok_def)
        then show "inj_on (\<lambda>h. htcb (holders ?s h)) (set (hhead (sems ?s a)))"
          using new fresh unfolding obs(6,7) inj_on_def by (auto split: if_splits)
      qed
      moreover have "reprio_ok idle ?s" using pool(4) by (simp add: reprio_ok_def sched_verifytcb_def obs del: sem_upd_simps)
      ultimately show ?thesis by (simp add: eq sem_core_def)
    qed
  qed
qed

end
