(* ===== verification/Semaphore_Spec.thy ===== *)
theory Semaphore_Spec
  imports Semaphore_Inv Sched_Spec
begin

text \<open>
  What the semaphore calls promise: when they block, whom they wake, how the count and the number of
  waiting tasks belong together, and that a task waiting for a semaphore lends its priority to the
  holders.
\<close>

section \<open>Steps shared by the calls\<close>

lemma sched_lock_eq:
  assumes "\<not> current_regs s" "g_readytorun s \<noteq> []" "lockcount (tcbs s (hd (g_readytorun s))) < MAX_LOCK_COUNT"
  shows "sched_lock s = Some (upd_tcb (hd (g_readytorun s))
     (\<lambda>b. b\<lparr>lockcount := lockcount (tcbs s (hd (g_readytorun s))) + 1\<rparr>) s)"
  using assms by (cases "g_readytorun s") (auto simp: sched_lock_def upd_tcb_def)

lemma sem_core_lock:
  assumes core: "sem_core idle s"
  shows "sem_core idle (upd_tcb (hd (g_readytorun s)) (\<lambda>b. b\<lparr>lockcount := lockcount (tcbs s (hd (g_readytorun s))) + 1\<rparr>) s)"
proof (rule sem_core_upd_tcb [OF core])
  let ?n = "lockcount (tcbs s (hd (g_readytorun s)))"
  have sc: "sched_core idle s" using core by (simp add: sem_core_def sched_inv_def)
  then have "0 \<le> ?n" by (simp add: core_defs)
  then show "sched_inv idle (upd_tcb (hd (g_readytorun s)) (\<lambda>b. b\<lparr>lockcount := ?n + 1\<rparr>) s)"
    using core_set_lock [OF sc, of "?n + 1" "hd (g_readytorun s)"] by (simp add: sched_inv_def pend_ok_def)
qed simp_all

lemma sem_core_set_waitsem: "sem_core idle s \<Longrightarrow> sem_core idle (set_waitsem t p s)"
  unfolding set_waitsem_def by (rule sem_core_upd_tcb) (simp_all add: sem_core_def sched_inv_upd_tcb)

lemma sem_core_add_count: "sem_core idle s \<Longrightarrow> sem_core idle (add_count sem d s)"
  unfolding add_count_def by (rule sem_core_upd_sem) simp_all

lemma sem_core_set_errno: "sem_core idle s \<Longrightarrow> sem_core idle (set_errno e s)"
proof -
  assume core: "sem_core idle s"
  have "sem_core idle (upd_tcb t (\<lambda>b. b\<lparr>pterrno := e\<rparr>) s)" for t
    using core by (intro sem_core_upd_tcb) (simp_all add: sem_core_def sched_inv_upd_tcb)
  moreover have "sem_core idle (s\<lparr>g_irqerrno := e\<rparr>)"
    using core by (simp add: sem_core_def holder_pool_def holders_ok_def reprio_ok_def sched_verifytcb_def)
  ultimately show ?thesis by (simp add: set_errno_def split: list.split)
qed

lemma call_obs [simp]:
  "tcbs (add_count sem d s) = tcbs s" "lists (add_count sem d s) = lists s" "holders (add_count sem d s) = holders s"
  "current_regs (add_count sem d s) = current_regs s" "g_pidhash (add_count sem d s) = g_pidhash s"
  "hhead (sems (add_count sem d s) a) = hhead (sems s a)"
  "sflags (sems (add_count sem d s) a) = sflags (sems s a)"
  "semcount (sems (add_count sem d s) a) = (if a = sem then int16 (semcount (sems s a) + d) else semcount (sems s a))"
  "lists (set_waitsem t p s) = lists s" "sems (set_waitsem t p s) = sems s" "holders (set_waitsem t p s) = holders s"
  "current_regs (set_waitsem t p s) = current_regs s" "g_pidhash (set_waitsem t p s) = g_pidhash s"
  "waitsem (tcbs (set_waitsem t p s) a) = (if a = t then p else waitsem (tcbs s a))"
  "task_state (tcbs (set_waitsem t p s) a) = task_state (tcbs s a)"
  "prio (set_waitsem t p s) a = prio s a" "lockcount (tcbs (set_waitsem t p s) a) = lockcount (tcbs s a)"
  "npend_reprio (tcbs (set_waitsem t p s) a) = npend_reprio (tcbs s a)"
  "semstate.more (add_count sem d s) = semstate.more s" "semstate.more (set_waitsem t p s) = semstate.more s"
  by (simp_all add: add_count_def set_waitsem_def)

lemma set_errno_obs [simp]:
  "lists (set_errno e s) = lists s" "current_regs (set_errno e s) = current_regs s"
  "waitsem (tcbs (set_errno e s) a) = waitsem (tcbs s a)" "task_state (tcbs (set_errno e s) a) = task_state (tcbs s a)"
  "prio (set_errno e s) a = prio s a" "lockcount (tcbs (set_errno e s) a) = lockcount (tcbs s a)"
  "g_pidhash (set_errno e s) = g_pidhash s"
  by (simp_all add: set_errno_def split: list.split)

lemma set_errno_sem_obs [simp]:
  "sems (set_errno e s) = sems s" "holders (set_errno e s) = holders s" "semstate.more (set_errno e s) = semstate.more s"
  by (simp_all add: set_errno_def split: list.split)

lemma sem_kept_frame:
  assumes "sched_kept s s'"
  shows "sems s' = sems s" "holders s' = holders s" "waitsem (tcbs s' t) = waitsem (tcbs s t)"
    "semstate.more s' = semstate.more s"
  using assms sched_rest_sem [of s' s] sched_rest_fields(8) [of s' s t] by (simp_all add: sched_kept_def)

lemma sem_core_kept:
  assumes "sem_core idle s" "sched_inv idle s'" "sched_kept s s'"
  shows "sem_core idle s'"
proof -
  from assms(3) have rest: "sched_rest s' = sched_rest s" by (simp add: sched_kept_def)
  note f = sched_rest_fields [OF rest] and g = sched_rest_sem [OF rest]
  have "reprio_ok idle s'"
    by (rule reprio_ok_cong [of idle s])
      (use assms(1,3) f in \<open>simp_all add: sem_core_def sched_kept_def\<close>)
  moreover have "holder_pool s'" "holders_ok idle s'"
    using assms(1) by (simp_all add: sem_core_def holder_pool_def holders_ok_def g)
  ultimately show ?thesis using assms(2) by (simp add: sem_core_def)
qed

text \<open>How a task starting to wait, and one that stops, change the count and the number of waiters.\<close>

lemma waits_ok_mem: "waits_ok s \<Longrightarrow> t \<in># mset (lists s WaitingForSemaphore) \<longleftrightarrow> waitsem (tcbs s t) \<noteq> None"
  unfolding waits_ok_def by blast

lemma waits_ok_count: "waits_ok s \<Longrightarrow> int (nwaiters a s) = max 0 (- semcount (sems s a))"
  unfolding waits_ok_def by blast

lemma waits_ok_range: "waits_ok s \<Longrightarrow> -32768 \<le> semcount (sems s a) \<and> semcount (sems s a) \<le> SEM_VALUE_MAX"
  unfolding waits_ok_def by blast

lemma waiting_count:
  assumes ok: "waits_ok s" and t: "waitsem (tcbs s t) = Some sem"
  shows "semcount (sems s sem) < 0"
proof -
  have "t \<in># filter_mset (\<lambda>t. waitsem (tcbs s t) = Some sem) (mset (lists s WaitingForSemaphore))"
    using waits_ok_mem [OF ok, of t] t by simp
  then have "nwaiters sem s \<noteq> 0" unfolding nwaiters_def by (metis empty_iff set_mset_empty size_eq_0_iff_empty)
  then show ?thesis using waits_ok_count [OF ok, of sem] by auto
qed

lemma waits_ok_enter:
  assumes ok: "waits_ok s" and rt: "waitsem (tcbs s rt) = None" and c: "semcount (sems s sem) \<le> 0" "-32768 < semcount (sems s sem)"
    and w: "\<And>t. waitsem (tcbs s' t) = (if t = rt then Some sem else waitsem (tcbs s t))"
    and l: "mset (lists s' WaitingForSemaphore) = add_mset rt (mset (lists s WaitingForSemaphore))"
    and k: "\<And>a. semcount (sems s' a) = (if a = sem then semcount (sems s a) - 1 else semcount (sems s a))"
  shows "waits_ok s'"
proof -
  have notin: "rt \<notin># mset (lists s WaitingForSemaphore)" using waits_ok_mem [OF ok] rt by blast
  then have "filter_mset (\<lambda>t. waitsem (tcbs s' t) = Some a) (mset (lists s WaitingForSemaphore)) =
      filter_mset (\<lambda>t. waitsem (tcbs s t) = Some a) (mset (lists s WaitingForSemaphore))" for a
    by (intro filter_mset_cong) (auto simp: w)
  then have "nwaiters a s' = (if a = sem then 1 else 0) + nwaiters a s" for a
    by (simp add: nwaiters_def l) (simp add: w)
  then show ?thesis using ok c unfolding waits_ok_def l w k by (auto simp: SEM_VALUE_MAX_def)
qed

lemma waits_ok_leave:
  assumes ok: "waits_ok s" and t: "waitsem (tcbs s t) = Some sem"
    and d: "distinct (lists s WaitingForSemaphore)"
    and w: "\<And>u. waitsem (tcbs s' u) = (if u = t then None else waitsem (tcbs s u))"
    and l: "mset (lists s' WaitingForSemaphore) = mset (lists s WaitingForSemaphore) - {#t#}"
    and k: "\<And>a. semcount (sems s' a) = (if a = sem then semcount (sems s a) + 1 else semcount (sems s a))"
  shows "waits_ok s'"
proof -
  have mem: "t \<in># mset (lists s WaitingForSemaphore)" using waits_ok_mem [OF ok] t by blast
  then obtain M where M: "mset (lists s WaitingForSemaphore) = add_mset t M" by (meson mset_add)
  have "count (mset (lists s WaitingForSemaphore)) t = 1"
    using d mem by (simp add: distinct_count_atmost_1)
  then have notin: "t \<notin># M" by (simp add: M not_in_iff)
  then have "filter_mset (\<lambda>u. waitsem (tcbs s' u) = Some a) M = filter_mset (\<lambda>u. waitsem (tcbs s u) = Some a) M" for a
    by (intro filter_mset_cong) (auto simp: w)
  then have n: "nwaiters a s = (if a = sem then 1 else 0) + nwaiters a s'" for a
    using t by (simp add: nwaiters_def M l)
  have c: "semcount (sems s sem) < 0" by (rule waiting_count [OF ok t])
  have "u \<in># M \<longleftrightarrow> waitsem (tcbs s' u) \<noteq> None" for u
    using ok notin unfolding waits_ok_def M w by auto
  moreover have "int (nwaiters a s') = max 0 (- semcount (sems s' a))" for a
    using waits_ok_count [OF ok, of a] n [of a] c by (cases "a = sem") (simp_all add: k)
  moreover have "-32768 \<le> semcount (sems s' a) \<and> semcount (sems s' a) \<le> SEM_VALUE_MAX" for a
    using waits_ok_range [OF ok, of a] c by (cases "a = sem") (simp_all add: k SEM_VALUE_MAX_def)
  ultimately show "waits_ok s'" unfolding waits_ok_def l M by auto
qed

lemma waits_ok_recount:
  assumes ok: "waits_ok s" and c: "0 \<le> semcount (sems s sem)" and n: "0 \<le> n" "n \<le> SEM_VALUE_MAX"
    and w: "\<And>t. waitsem (tcbs s' t) = waitsem (tcbs s t)"
    and l: "mset (lists s' WaitingForSemaphore) = mset (lists s WaitingForSemaphore)"
    and k: "\<And>a. semcount (sems s' a) = (if a = sem then n else semcount (sems s a))"
  shows "waits_ok s'"
proof -
  have nw: "nwaiters a s' = nwaiters a s" for a by (simp add: nwaiters_def w l)
  have "int (nwaiters a s') = max 0 (- semcount (sems s' a))" for a
    using waits_ok_count [OF ok, of a] c n(1) by (cases "a = sem") (simp_all add: nw k)
  moreover have "-32768 \<le> semcount (sems s' a) \<and> semcount (sems s' a) \<le> SEM_VALUE_MAX" for a
    using waits_ok_range [OF ok, of a] n by (cases "a = sem") (simp_all add: k)
  moreover have "waitsem (tcbs s' t) \<noteq> None \<longleftrightarrow> t \<in># mset (lists s' WaitingForSemaphore)" for t
    using waits_ok_mem [OF ok, of t] unfolding w l by blast
  ultimately show ?thesis unfolding waits_ok_def by blast
qed

section \<open>An example state\<close>

text \<open>
  Task 1 (priority 100) runs, task 2 (priority 50) is ready and holds the only count of semaphore 7, and
  task 3 (priority 150) waits for semaphore 8. Semaphore 9 has two free counts.
\<close>

definition ex_sem :: semstate where
  "ex_sem = \<lparr>
     tcbs = (\<lambda>_. zero_tcb)
       (0 := zero_tcb\<lparr>task_state := TSTATE_TASK_READYTORUN\<rparr>,
        1 := zero_tcb\<lparr>pid := 1, sched_priority := 100, base_priority := 100, task_state := TSTATE_TASK_RUNNING\<rparr>,
        2 := zero_tcb\<lparr>pid := 2, sched_priority := 50, base_priority := 50, task_state := TSTATE_TASK_READYTORUN\<rparr>,
        3 := zero_tcb\<lparr>pid := 3, sched_priority := 150, base_priority := 150, task_state := TSTATE_WAIT_SEM, waitsem := Some 8\<rparr>),
     lists = (\<lambda>_. [])(ReadyToRun := [1, 2, 0], WaitingForSemaphore := [3]),
     g_lastpid = 3,
     g_pidhash = (\<lambda>i. if i < 4 then \<lparr>ph_tcb = Some i, ph_pid = int i\<rparr> else \<lparr>ph_tcb = None, ph_pid = -1\<rparr>),
     current_regs = False, g_irqerrno = 0,
     sems = (\<lambda>_. \<lparr>semcount = 0, sflags = 0, hhead = []\<rparr>)
       (7 := \<lparr>semcount = 0, sflags = 0, hhead = [0]\<rparr>, 8 := \<lparr>semcount = -1, sflags = 0, hhead = []\<rparr>,
        9 := \<lparr>semcount = 2, sflags = 0, hhead = []\<rparr>),
     holders = (\<lambda>_. \<lparr>htcb = None, hcounts = 0\<rparr>)(0 := \<lparr>htcb = Some 2, hcounts = 1\<rparr>),
     g_freeholders = [1..<CONFIG_SEM_PREALLOCHOLDERS]\<rparr>"

lemma ex_sem_sched: "sched_inv 0 ex_sem"
proof -
  have "lists_ok ex_sem" unfolding lists_ok_def
    by (auto simp: ex_sem_def zero_tcb_def descending_def split: if_splits)
  then show ?thesis
    by (auto simp: sched_inv_def pend_ok_def core_defs ex_sem_def zero_tcb_def SCHED_PRIORITY_MIN_def SCHED_PRIORITY_MAX_def)
qed

lemma ex_sem_pool: "holder_pool ex_sem" "holders_ok 0 ex_sem"
proof -
  have h: "hhead (sems ex_sem a) = (if a = 7 then [0] else [])" for a by (simp add: ex_sem_def)
  have f: "g_freeholders ex_sem = [1..<16]" by (simp add: ex_sem_def CONFIG_SEM_PREALLOCHOLDERS_def)
  have "(\<Union>a. set (hhead (sems ex_sem a))) = {0}" by (auto simp: h)
  moreover have "set [1..<16] \<union> {0} = {..<16::nat}" by auto
  ultimately have all: "set [1..<16] \<union> (\<Union>a. set (hhead (sems ex_sem a))) = {..<16}" by (simp only:)
  show "holder_pool ex_sem"
    unfolding holder_pool_def f CONFIG_SEM_PREALLOCHOLDERS_def
    by (intro conjI allI impI all) (auto simp: h)
  show "holders_ok 0 ex_sem" by (auto simp: holders_ok_def h inj_on_def) (simp add: ex_sem_def)
qed

lemma ex_sem_inv: "sem_inv 0 ex_sem"
proof -
  have "reprio_ok 0 ex_sem"
    by (auto simp: reprio_ok_def sched_verifytcb_def ex_sem_def zero_tcb_def PIDHASH_def CONFIG_MAX_TASKS_def CONFIG_SEM_NNESTPRIO_def
        SCHED_PRIORITY_MIN_def SCHED_PRIORITY_MAX_def split: if_splits)
  moreover have "waits_ok ex_sem"
    by (auto simp: waits_ok_def nwaiters_def ex_sem_def zero_tcb_def SEM_VALUE_MAX_def split: if_splits)
  ultimately show ?thesis using ex_sem_sched ex_sem_pool by (simp add: sem_inv_def sem_core_def)
qed

section \<open>Waiting\<close>

lemma running_not_waiting:
  assumes "sem_inv idle s"
  shows "waitsem (tcbs s (hd (g_readytorun s))) = None"
proof -
  have core: "sched_core idle s" using assms by (simp add: sem_inv_def sem_core_def sched_inv_def)
  have "hd (g_readytorun s) \<in> set (g_readytorun s)" using core_ready(1) [OF core] by simp
  then have "hd (g_readytorun s) \<notin> set (lists s WaitingForSemaphore)"
    using core_lists(1) [OF core] by (simp add: lists_ok_member)
  moreover have "waits_ok s" using assms by (simp add: sem_inv_def)
  ultimately show ?thesis using waits_ok_mem by fastforce
qed

text \<open>The state in which \<open>sem_wait\<close> calls \<open>sem_boostpriority\<close>.\<close>

lemma sem_wait_enter:
  assumes inv: "sem_inv idle s" and irq: "\<not> current_regs s"
    and rt: "hd (g_readytorun s) = rt" and lock: "lockcount (tcbs s rt) < MAX_LOCK_COUNT"
    and c: "-32768 < semcount (sems s sem)" "semcount (sems s sem) \<le> 0"
  obtains s2 where "sched_lock (set_waitsem rt (Some sem) (add_count sem (-1) s)) = Some s2" "sem_core idle s2"
    "lists s2 = lists s" "\<not> current_regs s2" "0 < lockcount (tcbs s2 rt)" "holders s2 = holders s"
    "\<forall>a. hhead (sems s2 a) = hhead (sems s a)" "\<forall>a. npend_reprio (tcbs s2 a) = npend_reprio (tcbs s a)"
    "\<forall>a. waitsem (tcbs s2 a) = (if a = rt then Some sem else waitsem (tcbs s a))"
    "\<forall>a. prio s2 a = prio s a"
    "\<forall>a. semcount (sems s2 a) = (if a = sem then semcount (sems s a) - 1 else semcount (sems s a))"
    "g_pidhash s2 = g_pidhash s" "semstate.more s2 = semstate.more s"
proof -
  have core: "sem_core idle s" using inv by (simp add: sem_inv_def)
  have ready: "g_readytorun s \<noteq> []" "0 \<le> lockcount (tcbs s rt)"
    using core core_ready(1) by (auto simp: sem_core_def sched_inv_def core_defs)
  define s1 where "s1 = set_waitsem rt (Some sem) (add_count sem (-1) s)"
  have core1: "sem_core idle s1" unfolding s1_def by (intro sem_core_set_waitsem sem_core_add_count core)
  have max: "semcount (sems s sem) \<le> SEM_VALUE_MAX" using c(2) by (simp add: SEM_VALUE_MAX_def)
  let ?s2 = "upd_tcb rt (\<lambda>b. b\<lparr>lockcount := lockcount (tcbs s1 rt) + 1\<rparr>) s1"
  have "sched_lock s1 = Some ?s2"
    using sched_lock_eq [of s1] irq ready lock rt by (simp add: s1_def)
  moreover have "sem_core idle ?s2" using sem_core_lock [OF core1] rt by (simp add: s1_def)
  ultimately show ?thesis
    by (intro that [of ?s2]) (use irq ready c in \<open>simp_all add: s1_def\<close>)
qed

text \<open>The running task leaves the processor for the list of waiting tasks.\<close>

lemma sem_block_post:
  assumes core: "sem_core idle s" and rt: "hd (g_readytorun s) = rt" "rt \<noteq> idle"
  obtains s' where "up_block_task rt TSTATE_WAIT_SEM (set_errno 0 s) = Some (True, s')" "sem_core idle s'"
    "mset (lists s' WaitingForSemaphore) = add_mset rt (mset (lists s WaitingForSemaphore))"
    "task_state (tcbs s' rt) = TSTATE_WAIT_SEM" "hd (g_readytorun s') \<noteq> rt" "sched_kept (set_errno 0 s) s'"
proof -
  define s4 where "s4 = set_errno 0 s"
  have core4: "sem_core idle s4" using core by (simp add: s4_def sem_core_set_errno)
  then have inv4: "sched_inv idle s4" by (simp add: sem_core_def)
  then have core4': "sched_core idle s4" by (simp add: sched_inv_def)
  have mem: "rt \<in> set (g_readytorun s4)" using core_ready(1) [OF core4'] rt(1) by (auto simp: s4_def)
  obtain sw s5 where s5: "up_block_task rt TSTATE_WAIT_SEM s4 = Some (sw, s5)" "sched_inv idle s5" "g_pendingtasks s5 = []"
    "mset (g_readytorun s5) = runnable s4 - {#rt#}" "sw = (hd (g_readytorun s5) \<noteq> hd (g_readytorun s4))"
    "lists s5 WaitingForSemaphore = (if prioritized WaitingForSemaphore then prio_insert (prio s4) rt (lists s4 WaitingForSemaphore)
        else lists s4 WaitingForSemaphore @ [rt])" "sched_kept s4 s5"
    by (rule up_block_task_post [OF inv4 mem rt(2), of TSTATE_WAIT_SEM WaitingForSemaphore]) simp_all
  have core5: "sem_core idle s5" using core4 s5(2,7) by (rule sem_core_kept)
  have wl: "mset (lists s5 WaitingForSemaphore) = add_mset rt (mset (lists s WaitingForSemaphore))"
    using s5(6) by (simp add: prioritized_def prio.mset_ins s4_def)
  have in5: "rt \<in> set (lists s5 WaitingForSemaphore)" using s5(6) by (simp add: prio.set_ins prioritized_def)
  have lists5: "lists_ok s5" using s5(2) by (simp add: sched_inv_def sched_core_def)
  have st5: "task_state (tcbs s5 rt) = TSTATE_WAIT_SEM" and hd5: "rt \<notin> set (g_readytorun s5)"
    using in5 lists_ok_member [OF lists5, of rt] by (cases "task_state (tcbs s5 rt)"; simp)+
  have ne: "hd (g_readytorun s5) \<noteq> rt"
    using hd5 core_ready(1) [of idle s5] s5(2) hd_in_set by (fastforce simp: sched_inv_def)
  then have "sw" using s5(5) rt(1) by (simp add: s4_def)
  with s5(1,7) core5 wl st5 ne show ?thesis unfolding s4_def by (intro that [of s5]) simp_all
qed

lemma sem_wait_blocks_post:
  assumes inv: "sem_inv idle s" and irq: "\<not> current_regs s"
    and rt: "hd (g_readytorun s) = rt" "rt \<noteq> idle" and lock: "lockcount (tcbs s rt) < MAX_LOCK_COUNT"
    and c: "-32768 < semcount (sems s sem)" "semcount (sems s sem) \<le> 0"
    and room: "\<forall>p \<in> set (hhead (sems s sem)). \<forall>h. htcb (holders s p) = Some h \<longrightarrow> npend_reprio (tcbs s h) < CONFIG_SEM_NNESTPRIO"
  obtains s' where "sem_wait (Some sem) s = Some (Switched, s')" "sem_inv idle s'"
    "task_state (tcbs s' rt) = TSTATE_WAIT_SEM" "waitsem (tcbs s' rt) = Some sem" "hd (g_readytorun s') \<noteq> rt"
    "semcount (sems s' sem) = semcount (sems s sem) - 1"
    "\<forall>p \<in> set (hhead (sems s' sem)). \<exists>h. htcb (holders s' p) = Some h \<and> prio s' rt \<le> prio s' h"
    "g_pidhash s' = g_pidhash s" "semstate.more s' = semstate.more s" "\<not> current_regs s'"
proof -
  obtain s2 where s2: "sched_lock (set_waitsem rt (Some sem) (add_count sem (-1) s)) = Some s2" "sem_core idle s2"
    "lists s2 = lists s" "\<not> current_regs s2" "0 < lockcount (tcbs s2 rt)" "holders s2 = holders s"
    "\<forall>a. hhead (sems s2 a) = hhead (sems s a)" "\<forall>a. npend_reprio (tcbs s2 a) = npend_reprio (tcbs s a)"
    "\<forall>a. waitsem (tcbs s2 a) = (if a = rt then Some sem else waitsem (tcbs s a))"
    "\<forall>a. prio s2 a = prio s a"
    "\<forall>a. semcount (sems s2 a) = (if a = sem then semcount (sems s a) - 1 else semcount (sems s a))"
    "g_pidhash s2 = g_pidhash s" "semstate.more s2 = semstate.more s"
    by (rule sem_wait_enter [OF inv irq rt(1) lock c])
  have rt2: "hd (g_readytorun s2) = rt" "lockcount (tcbs s2 rt) \<noteq> 0" using s2(3,5) rt(1) by auto
  have room2: "\<forall>p \<in> set (hhead (sems s2 sem)). \<forall>h. htcb (holders s2 p) = Some h \<longrightarrow> npend_reprio (tcbs s2 h) < CONFIG_SEM_NNESTPRIO"
    using room s2(6-8) by simp
  obtain s3 where s3: "sem_boostpriority sem s2 = Some (Done 0, s3)" "sem_core idle s3" "sem_frame s2 s3"
    "hd (g_readytorun s3) = rt" "prio s3 rt = prio s2 rt"
    "\<forall>p \<in> set (hhead (sems s3 sem)). \<exists>h. htcb (holders s3 p) = Some h \<and> prio s3 rt \<le> prio s3 h"
    by (rule sem_boostpriority_post [OF s2(2) rt2(1) rt(2) s2(4) rt2(2) room2])
  obtain s5 where s5: "up_block_task rt TSTATE_WAIT_SEM (set_errno 0 s3) = Some (True, s5)" "sem_core idle s5"
    "mset (lists s5 WaitingForSemaphore) = add_mset rt (mset (lists s3 WaitingForSemaphore))"
    "task_state (tcbs s5 rt) = TSTATE_WAIT_SEM" "hd (g_readytorun s5) \<noteq> rt" "sched_kept (set_errno 0 s3) s5"
    by (rule sem_block_post [OF s3(2,4) rt(2)])
  have wl: "mset (lists s5 WaitingForSemaphore) = add_mset rt (mset (lists s WaitingForSemaphore))"
    using s5(3) s3(3) s2(3) by (simp add: sem_frame_def)
  have w5: "waitsem (tcbs s5 t) = (if t = rt then Some sem else waitsem (tcbs s t))" for t
    using sem_kept_frame(3) [OF s5(6)] s3(3) s2(9) by (simp add: sem_frame_def)
  have c5: "semcount (sems s5 a) = (if a = sem then semcount (sems s a) - 1 else semcount (sems s a))" for a
    using sem_kept_frame(1) [OF s5(6)] s3(3) s2(11) by (simp add: sem_frame_def)
  have nw: "waitsem (tcbs s rt) = None" using running_not_waiting [OF inv] rt(1) by simp
  have "waits_ok s" using inv by (simp add: sem_inv_def)
  then have ok5: "waits_ok s5" using nw c(2,1) w5 wl c5 by (rule waits_ok_enter)
  have "this_task s = Some rt"
    using inv core_ready(1) [of idle s] this_task_hd [of s] rt(1) by (auto simp: sem_inv_def sem_core_def sched_inv_def)
  then have "sem_wait (Some sem) s = Some (Switched, s5)"
    using irq c(2) nw s2(1) s3(1) s5(1) by (simp add: sem_wait_def Let_def)
  moreover have "prio s5 a = prio s3 a" for a using sched_kept_prio [OF s5(6)] by simp
  moreover have "g_pidhash s5 = g_pidhash s" "semstate.more s5 = semstate.more s" "\<not> current_regs s5"
    using sched_rest_fields(11,13) [of s5 "set_errno 0 s3"] sched_rest_sem(4) [of s5 "set_errno 0 s3"] s5(6) s3(3) s2(4,12,13)
    by (simp_all add: sched_kept_def sem_frame_def)
  ultimately show ?thesis
    using s5(2,4,5) ok5 w5 c5 s3(6) sem_kept_frame(1,2) [OF s5(6)] by (intro that [of s5]) (auto simp: sem_inv_def)
qed

text \<open>
  C15. \<open>sem_wait\<close> on a semaphore without a free count blocks: the call returns no value, the task is in the
  list of waiting tasks and no longer runs, the count has gone down by one, and every task that holds a
  count of the semaphore now runs at least at the priority of the waiting task. The invariant holds
  again, so the count is still minus the number of waiting tasks. The hypothesis on \<open>npend_reprio\<close> is
  that the holders have room to remember one more priority.
\<close>

theorem sem_wait_blocks:
  assumes inv: "sem_inv idle s" and irq: "\<not> current_regs s"
    and rt: "hd (g_readytorun s) = rt" "rt \<noteq> idle" and lock: "lockcount (tcbs s rt) < MAX_LOCK_COUNT"
    and c: "-32768 < semcount (sems s sem)" "semcount (sems s sem) \<le> 0"
    and room: "\<forall>p \<in> set (hhead (sems s sem)). \<forall>h. htcb (holders s p) = Some h \<longrightarrow> npend_reprio (tcbs s h) < CONFIG_SEM_NNESTPRIO"
  shows "\<exists>s'. sem_wait (Some sem) s = Some (Switched, s') \<and> sem_inv idle s'
     \<and> task_state (tcbs s' rt) = TSTATE_WAIT_SEM \<and> waitsem (tcbs s' rt) = Some sem \<and> hd (g_readytorun s') \<noteq> rt
     \<and> semcount (sems s' sem) = semcount (sems s sem) - 1
     \<and> (\<forall>p \<in> set (hhead (sems s' sem)). \<exists>h. htcb (holders s' p) = Some h \<and> prio s' rt \<le> prio s' h)"
  by (rule sem_wait_blocks_post [OF assms]) blast

text \<open>Task 1 waits for semaphore 7 and the holder, task 2, is raised from priority 50 to at least 100.\<close>

theorem sem_wait_blocks_witness:
  "\<exists>s'. sem_wait (Some 7) ex_sem = Some (Switched, s') \<and> sem_inv 0 s' \<and> waitsem (tcbs s' 1) = Some 7
     \<and> semcount (sems s' 7) = -1"
  using sem_wait_blocks [of 0 ex_sem 1 7, OF ex_sem_inv]
  by (auto simp: ex_sem_def zero_tcb_def MAX_LOCK_COUNT_def CONFIG_SEM_NNESTPRIO_def)

lemma addholder_obs [simp]:
  "tcbs (sem_addholder_tcb t sem s) = tcbs s" "lists (sem_addholder_tcb t sem s) = lists s"
  "current_regs (sem_addholder_tcb t sem s) = current_regs s" "g_pidhash (sem_addholder_tcb t sem s) = g_pidhash s"
  "semcount (sems (sem_addholder_tcb t sem s) a) = semcount (sems s a)" "semstate.more (sem_addholder_tcb t sem s) = semstate.more s"
  by (auto simp: sem_addholder_tcb_def sem_findorallocateholder_def sem_allocholder_def Let_def split: option.split list.split)

lemma releaseholder_obs [simp]:
  "tcbs (sem_releaseholder sem s) = tcbs s" "lists (sem_releaseholder sem s) = lists s"
  "current_regs (sem_releaseholder sem s) = current_regs s" "sems (sem_releaseholder sem s) = sems s"
  "semstate.more (sem_releaseholder sem s) = semstate.more s"
  by (auto simp: sem_releaseholder_def split: option.split)

lemma sem_core_releaseholder: "sem_core idle s \<Longrightarrow> sem_core idle (sem_releaseholder sem s)"
  by (auto simp: sem_releaseholder_def intro: sem_core_upd_holder split: option.split)

text \<open>The state after taking a free count.\<close>

definition sem_taken :: "addr \<Rightarrow> addr \<Rightarrow> 'z semstate_scheme \<Rightarrow> 'z semstate_scheme" where
  "sem_taken rt sem s = set_waitsem rt None (sem_addholder_tcb rt sem (add_count sem (-1) s))"

lemma sem_taken_post:
  assumes inv: "sem_inv idle s" and rt: "hd (g_readytorun s) = rt" "rt \<noteq> idle" and c: "0 < semcount (sems s sem)"
  shows "sem_inv idle (sem_taken rt sem s)" "semcount (sems (sem_taken rt sem s) sem) = semcount (sems s sem) - 1"
    "\<not> current_regs s \<Longrightarrow> sem_wait (Some sem) s = Some (Done OK, sem_taken rt sem s)"
    "\<not> current_regs s \<Longrightarrow> sem_trywait (Some sem) s = Some (OK, sem_taken rt sem s)"
proof -
  have core: "sem_core idle s" and w: "waits_ok s" using inv by (simp_all add: sem_inv_def)
  have cur: "this_task s = Some rt"
    using core core_ready(1) this_task_hd rt(1) by (auto simp: sem_core_def sched_inv_def)
  then have cur': "this_task (add_count sem (-1) s) = Some rt" by (simp add: this_task_def)
  show "sem_wait (Some sem) s = Some (Done OK, sem_taken rt sem s)" "sem_trywait (Some sem) s = Some (OK, sem_taken rt sem s)"
    if "\<not> current_regs s"
    using that c cur cur' by (simp_all add: sem_wait_def sem_trywait_def sem_addholder_def sem_taken_def Let_def)
  have rng: "semcount (sems s sem) \<le> 32767" using waits_ok_range [OF w, of sem] by (simp add: SEM_VALUE_MAX_def)
  show "semcount (sems (sem_taken rt sem s) sem) = semcount (sems s sem) - 1" using c rng by (simp add: sem_taken_def)
  have "sem_core idle (sem_taken rt sem s)" unfolding sem_taken_def
    by (intro sem_core_set_waitsem sem_core_addholder sem_core_add_count core rt)
  moreover have "waits_ok (sem_taken rt sem s)"
    by (rule waits_ok_recount [OF w, of sem "semcount (sems s sem) - 1"])
      (use c rng running_not_waiting [OF inv] rt in \<open>simp_all add: SEM_VALUE_MAX_def sem_taken_def\<close>)
  ultimately show "sem_inv idle (sem_taken rt sem s)" by (simp add: sem_inv_def)
qed



section \<open>Posting\<close>

text \<open>The task that is woken: the first of the list has the highest priority of all that wait for the semaphore.\<close>

lemma first_waiter_Some:
  assumes inv: "sem_inv idle s" and c: "semcount (sems s sem) < 0"
  obtains w where "first_waiter sem s = Some w" "w \<in> set (lists s WaitingForSemaphore)" "waitsem (tcbs s w) = Some sem"
    "w \<noteq> idle" "\<forall>t. waitsem (tcbs s t) = Some sem \<longrightarrow> prio s t \<le> prio s w"
proof -
  have core: "sched_core idle s" and ok: "waits_ok s" using inv by (simp_all add: sem_inv_def sem_core_def sched_inv_def)
  have "nwaiters sem s \<noteq> 0" using waits_ok_count [OF ok, of sem] c by auto
  then have "\<exists>t \<in> set (lists s WaitingForSemaphore). waitsem (tcbs s t) = Some sem"
    by (auto simp: nwaiters_def filter_mset_eq_conv)
  then obtain w where w: "first_waiter sem s = Some w"
    by (cases "first_waiter sem s") (auto simp: first_waiter_def find_None_iff)
  then obtain i where i: "i < length (lists s WaitingForSemaphore)" "w = lists s WaitingForSemaphore ! i"
      "waitsem (tcbs s w) = Some sem" "\<forall>j < i. waitsem (tcbs s (lists s WaitingForSemaphore ! j)) \<noteq> Some sem"
    unfolding first_waiter_def find_Some_iff by blast
  have desc: "descending (prio s) (lists s WaitingForSemaphore)"
    by (rule core_lists(3) [OF core]) (simp add: prioritized_def)
  have "prio s t \<le> prio s w" if t: "waitsem (tcbs s t) = Some sem" for t
  proof -
    have "t \<in># mset (lists s WaitingForSemaphore)" using waits_ok_mem [OF ok, of t] t by simp
    then obtain k where k: "k < length (lists s WaitingForSemaphore)" "t = lists s WaitingForSemaphore ! k"
      by (auto simp: in_set_conv_nth)
    then have "i \<le> k" using i(4) t by (meson not_le)
    then show ?thesis using desc k i unfolding descending_def
      by (cases "i = k") (auto simp: sorted_wrt_iff_nth_less)
  qed
  moreover have mem: "w \<in> set (lists s WaitingForSemaphore)" using i by simp
  moreover have "w \<noteq> idle"
  proof
    assume "w = idle"
    with core_idle_ready [OF core] have "w \<in> set (g_readytorun s)" by simp
    with mem core_lists(1) [OF core] show False by (simp add: lists_ok_member)
  qed
  ultimately show ?thesis using that w i(3) by blast
qed

lemma lock_kept_sem:
  fixes s s' :: "'z semstate_scheme"
  assumes "lock_kept s s'"
  shows "sems s' = sems s" "holders s' = holders s" "g_freeholders s' = g_freeholders s" "semstate.more s' = semstate.more s"
proof -
  have obs: "sems (task_rest u) = sems u" "holders (task_rest u) = holders u"
    "g_freeholders (task_rest u) = g_freeholders u" "semstate.more (task_rest u) = semstate.more u" for u :: "'z semstate_scheme"
    by (simp_all add: task_rest_def)
  have r: "task_rest s' = task_rest s" using assms by (simp add: lock_kept_def)
  show "sems s' = sems s" "holders s' = holders s" "g_freeholders s' = g_freeholders s" "semstate.more s' = semstate.more s"
    by (simp_all only: obs [of s', symmetric] r obs [of s])
qed

lemma sem_inv_lock_kept:
  assumes "sem_inv idle s" "sched_inv idle s'" "lock_kept s s'"
  shows "sem_inv idle s'"
proof -
  note f = lock_kept_fields [OF assms(3)] and g = lock_kept_sem [OF assms(3)]
  have "reprio_ok idle s'"
    by (rule reprio_ok_cong [of idle s]) (use assms f in \<open>simp_all add: sem_inv_def sem_core_def lock_kept_def\<close>)
  moreover have "holder_pool s'" "holders_ok idle s'"
    using assms(1) by (simp_all add: sem_inv_def sem_core_def holder_pool_def holders_ok_def g)
  moreover have "waits_ok s' = waits_ok s"
    by (rule waits_ok_cong) (use assms(3) f g in \<open>simp_all add: lock_kept_def same_blocked_def\<close>)
  ultimately show ?thesis using assms(1,2) by (simp add: sem_inv_def sem_core_def)
qed

lemma sem_post_unlock_post:
  assumes "sem_inv idle s"
  obtains r s' where "sem_post_unlock s = Some (r, s')" "sem_inv idle s'" "r = Done OK \<or> r = Switched" "lock_kept s s'"
    "runnable s' = runnable s"
proof -
  have inv: "sched_inv idle s" using assms by (simp add: sem_inv_def sem_core_def)
  obtain r s' where s': "sched_unlock s = Some (r, s')" "sched_inv idle s'"
    "r = Done OK \<or> r = Switched \<and> \<not> current_regs s" "runnable s' = runnable s" "lock_kept s s'"
    by (rule sched_unlock_inv [OF inv])
  have "sem_inv idle s'" using assms s'(2,5) by (rule sem_inv_lock_kept)
  with s' show ?thesis by (intro that [of "case r of Done _ \<Rightarrow> Done OK | Switched \<Rightarrow> Switched" s'])
      (auto simp: sem_post_unlock_def)
qed

text \<open>The state in which \<open>sem_post\<close> looks for a task to wake.\<close>

lemma sem_post_enter:
  assumes inv: "sem_inv idle s" and lock: "current_regs s \<or> lockcount (tcbs s (hd (g_readytorun s))) < MAX_LOCK_COUNT"
    and c: "semcount (sems s sem) < SEM_VALUE_MAX"
  obtains s3 where "sched_lock (add_count sem 1 (sem_releaseholder sem s)) = Some s3" "sem_core idle s3" "lists s3 = lists s"
    "current_regs s3 = current_regs s" "\<not> current_regs s \<longrightarrow> 0 < lockcount (tcbs s3 (hd (g_readytorun s)))"
    "\<forall>t. waitsem (tcbs s3 t) = waitsem (tcbs s t)" "\<forall>t. prio s3 t = prio s t"
    "\<forall>a. semcount (sems s3 a) = (if a = sem then semcount (sems s a) + 1 else semcount (sems s a))"
    "semstate.more s3 = semstate.more s"
proof -
  have core: "sem_core idle s" and ok: "waits_ok s" using inv by (simp_all add: sem_inv_def)
  have ready: "g_readytorun s \<noteq> []" "0 \<le> lockcount (tcbs s t)" for t
    using core core_ready(1) by (auto simp: sem_core_def sched_inv_def core_defs)
  define s2 where "s2 = add_count sem 1 (sem_releaseholder sem s)"
  have core2: "sem_core idle s2" unfolding s2_def by (intro sem_core_add_count sem_core_releaseholder core)
  have rng: "-32768 \<le> semcount (sems s sem)" using waits_ok_range [OF ok] by blast
  have cnt: "semcount (sems s2 a) = (if a = sem then semcount (sems s a) + 1 else semcount (sems s a))" for a
    using rng c by (simp add: s2_def SEM_VALUE_MAX_def)
  show ?thesis
  proof (cases "current_regs s")
    case True
    then have "sched_lock s2 = Some s2" by (simp add: sched_lock_def s2_def split: list.split)
    then show ?thesis using core2 True cnt by (intro that [of s2]) (simp_all add: s2_def)
  next
    case False
    let ?h = "hd (g_readytorun s)"
    let ?s3 = "upd_tcb ?h (\<lambda>b. b\<lparr>lockcount := lockcount (tcbs s2 ?h) + 1\<rparr>) s2"
    have "sched_lock s2 = Some ?s3" using sched_lock_eq [of s2] False ready lock by (simp add: s2_def)
    moreover have "sem_core idle ?s3" using sem_core_lock [OF core2] by (simp add: s2_def)
    ultimately show ?thesis using False cnt ready(2) [of ?h] by (intro that [of ?s3]) (simp_all add: s2_def)
  qed
qed

lemma sem_wakeup_post:
  assumes inv: "sem_inv idle s" and c: "semcount (sems s sem) < 0" and w: "first_waiter sem s = Some w"
    and core: "sem_core idle s3" and obs: "lists s3 = lists s" "\<forall>t. waitsem (tcbs s3 t) = waitsem (tcbs s t)"
      "\<forall>a. semcount (sems s3 a) = (if a = sem then semcount (sems s a) + 1 else semcount (sems s a))"
  obtains sw s5 where "sem_wakeup sem s3 = Some ((Some w, sw), s5)" "sem_inv idle s5"
    "\<forall>a. semcount (sems s5 a) = semcount (sems s3 a)" "waitsem (tcbs s5 w) = None" "runnable s5 = add_mset w (runnable s)"
    "current_regs s5 = current_regs s3" "\<forall>t. lockcount (tcbs s5 t) = lockcount (tcbs s3 t)"
    "lockcount (tcbs s3 (hd (g_readytorun s))) \<noteq> 0 \<longrightarrow> \<not> sw \<and> hd (g_readytorun s5) = hd (g_readytorun s)"
    "mset (lists s5 WaitingForSemaphore) = mset (lists s WaitingForSemaphore) - {#w#}" "semstate.more s5 = semstate.more s3"
proof -
  have ok: "waits_ok s" using inv by (simp add: sem_inv_def)
  obtain w' where "first_waiter sem s = Some w'" "w' \<in> set (lists s WaitingForSemaphore)" "waitsem (tcbs s w') = Some sem" "w' \<noteq> idle"
    by (rule first_waiter_Some [OF inv c])
  with w have mem: "w \<in> set (lists s WaitingForSemaphore)" and ws: "waitsem (tcbs s w) = Some sem" and wi: "w \<noteq> idle" by simp_all
  define s4 where "s4 = set_waitsem w None (sem_addholder_tcb w sem s3)"
  have core4: "sem_core idle s4" unfolding s4_def by (intro sem_core_set_waitsem sem_core_addholder core wi)
  then have inv4: "sched_inv idle s4" by (simp add: sem_core_def)
  have obs4: "lists s4 = lists s" "lockcount (tcbs s4 t) = lockcount (tcbs s3 t)" "current_regs s4 = current_regs s3" for t
    by (simp_all add: s4_def obs(1))
  obtain sw s5 where s5: "up_unblock_task w s4 = Some (sw, s5)" "sched_inv idle s5" "sched_kept s4 s5"
    "lists s5 WaitingForSemaphore = remove1 w (lists s4 WaitingForSemaphore)" "runnable s5 = add_mset w (runnable s4)"
    "hd (g_readytorun s5) = (if sw then w else hd (g_readytorun s4))"
    "sw = (lockcount (tcbs s4 (hd (g_readytorun s4))) = 0 \<and> prio s4 (hd (g_readytorun s4)) < prio s4 w)"
    by (rule up_unblock_task_post [OF inv4, of w WaitingForSemaphore]) (use mem in \<open>simp_all add: obs4(1)\<close>)
  have core5: "sem_core idle s5" using core4 s5(2,3) by (rule sem_core_kept)
  have cnt: "semcount (sems s5 a) = semcount (sems s3 a)" for a using sem_kept_frame(1) [OF s5(3)] by (simp add: s4_def)
  have w5: "waitsem (tcbs s5 u) = (if u = w then None else waitsem (tcbs s u))" for u
    using sem_kept_frame(3) [OF s5(3), of u] obs(2) by (simp add: s4_def)
  have l5: "mset (lists s5 WaitingForSemaphore) = mset (lists s WaitingForSemaphore) - {#w#}"
    using s5(4) by (simp add: obs4(1))
  have "distinct (lists s WaitingForSemaphore)"
    using inv core_lists(2) by (auto simp: sem_inv_def sem_core_def sched_inv_def)
  then have "waits_ok s5"
    using waits_ok_leave [OF ok ws _ w5 l5] cnt obs(3) by simp
  moreover have "sem_wakeup sem s3 = Some ((Some w, sw), s5)"
  proof -
    have "first_waiter sem s3 = Some w" using w obs(1,2) by (simp add: first_waiter_def)
    then show ?thesis using c obs(3) s5(1) by (simp add: sem_wakeup_def s4_def)
  qed
  moreover have "current_regs s5 = current_regs s3"
    using sched_rest_fields(13) [of s5 s4] s5(3) by (simp add: sched_kept_def obs4(3))
  moreover have "semstate.more s5 = semstate.more s3" using sem_kept_frame(4) [OF s5(3)] by (simp add: s4_def)
  ultimately show ?thesis
    using that [of sw s5] core5 cnt w5 s5(5-7) sched_kept_lock [OF s5(3)] l5 by (auto simp: sem_inv_def obs4)
qed

text \<open>Waking a task, if there is one to wake; \<open>st\<close> is the woken task.\<close>

lemma sem_wakeup_cases:
  assumes inv: "sem_inv idle s" and c: "semcount (sems s sem) < SEM_VALUE_MAX"
    and s3: "sem_core idle s3" "lists s3 = lists s"
    "current_regs s3 = current_regs s" "\<not> current_regs s \<longrightarrow> 0 < lockcount (tcbs s3 (hd (g_readytorun s)))"
    "\<forall>t. waitsem (tcbs s3 t) = waitsem (tcbs s t)"
    "\<forall>a. semcount (sems s3 a) = (if a = sem then semcount (sems s a) + 1 else semcount (sems s a))"
  obtains st sw s5 where "sem_wakeup sem s3 = Some ((st, sw), s5)" "sem_inv idle s5" "semcount (sems s5 sem) = semcount (sems s sem) + 1"
    "current_regs s5 = current_regs s" "\<not> current_regs s \<longrightarrow> \<not> sw \<and> lockcount (tcbs s5 (hd (g_readytorun s5))) \<noteq> 0"
    "(st = None) = (semcount (sems s sem) \<ge> 0)" "\<forall>w. st = Some w \<longrightarrow> first_waiter sem s = Some w"
    "runnable s5 = (case st of None \<Rightarrow> runnable s | Some w \<Rightarrow> add_mset w (runnable s))"
    "\<forall>w. st = Some w \<longrightarrow> waitsem (tcbs s5 w) = None \<and> (\<forall>t. waitsem (tcbs s t) = Some sem \<longrightarrow> prio s t \<le> prio s w)"
    "mset (lists s5 WaitingForSemaphore) = (case st of None \<Rightarrow> mset (lists s WaitingForSemaphore) | Some w \<Rightarrow> mset (lists s WaitingForSemaphore) - {#w#})"
    "semstate.more s5 = semstate.more s3"
proof (cases "semcount (sems s sem) < 0")
  case True
  obtain w where w: "first_waiter sem s = Some w" "\<forall>t. waitsem (tcbs s t) = Some sem \<longrightarrow> prio s t \<le> prio s w"
    by (rule first_waiter_Some [OF inv True])
  obtain sw s5 where s5: "sem_wakeup sem s3 = Some ((Some w, sw), s5)" "sem_inv idle s5"
    "\<forall>a. semcount (sems s5 a) = semcount (sems s3 a)" "waitsem (tcbs s5 w) = None" "runnable s5 = add_mset w (runnable s)"
    "current_regs s5 = current_regs s3" "\<forall>t. lockcount (tcbs s5 t) = lockcount (tcbs s3 t)"
    "lockcount (tcbs s3 (hd (g_readytorun s))) \<noteq> 0 \<longrightarrow> \<not> sw \<and> hd (g_readytorun s5) = hd (g_readytorun s)"
    "mset (lists s5 WaitingForSemaphore) = mset (lists s WaitingForSemaphore) - {#w#}" "semstate.more s5 = semstate.more s3"
    by (rule sem_wakeup_post [OF inv True w(1) s3(1,2,5,6)])
  show ?thesis by (rule that [of "Some w" sw s5]) (use s5 True w s3(3,4,6) in auto)
next
  case False
  have ok: "waits_ok s" using inv by (simp add: sem_inv_def)
  have "waits_ok s3" by (rule waits_ok_recount [OF ok, of sem "semcount (sems s sem) + 1"]) (use False c s3(2,5,6) in simp_all)
  then have "sem_inv idle s3" using s3(1) by (simp add: sem_inv_def)
  moreover have "sem_wakeup sem s3 = Some ((None, False), s3)" using False s3(6) by (simp add: sem_wakeup_def)
  ultimately show ?thesis by (intro that [of None False s3]) (use False s3(2-4,6) in auto)
qed

lemma sem_post_post:
  assumes inv: "sem_inv idle s" and lock: "current_regs s \<or> lockcount (tcbs s (hd (g_readytorun s))) < MAX_LOCK_COUNT"
    and c: "semcount (sems s sem) < SEM_VALUE_MAX"
  shows "\<exists>r s'. sem_post (Some sem) s = Some (r, s') \<and> sem_inv idle s' \<and> (r = Done OK \<or> r = Switched)
     \<and> semcount (sems s' sem) = semcount (sems s sem) + 1 \<and> semstate.more s' = semstate.more s
     \<and> (if semcount (sems s sem) < 0
        then \<exists>w. first_waiter sem s = Some w \<and> (\<forall>t. waitsem (tcbs s t) = Some sem \<longrightarrow> prio s t \<le> prio s w)
               \<and> waitsem (tcbs s' w) = None \<and> runnable s' = add_mset w (runnable s)
               \<and> mset (lists s' WaitingForSemaphore) = mset (lists s WaitingForSemaphore) - {#w#}
        else runnable s' = runnable s \<and> mset (lists s' WaitingForSemaphore) = mset (lists s WaitingForSemaphore))"
proof -
  obtain s3 where s3: "sched_lock (add_count sem 1 (sem_releaseholder sem s)) = Some s3" "sem_core idle s3" "lists s3 = lists s"
    "current_regs s3 = current_regs s" "\<not> current_regs s \<longrightarrow> 0 < lockcount (tcbs s3 (hd (g_readytorun s)))"
    "\<forall>t. waitsem (tcbs s3 t) = waitsem (tcbs s t)" "\<forall>t. prio s3 t = prio s t"
    "\<forall>a. semcount (sems s3 a) = (if a = sem then semcount (sems s a) + 1 else semcount (sems s a))"
    "semstate.more s3 = semstate.more s"
    by (rule sem_post_enter [OF inv lock c])
  obtain st sw s5 where s5: "sem_wakeup sem s3 = Some ((st, sw), s5)" "sem_inv idle s5" "semcount (sems s5 sem) = semcount (sems s sem) + 1"
    "current_regs s5 = current_regs s" "\<not> current_regs s \<longrightarrow> \<not> sw \<and> lockcount (tcbs s5 (hd (g_readytorun s5))) \<noteq> 0"
    "(st = None) = (semcount (sems s sem) \<ge> 0)" "\<forall>w. st = Some w \<longrightarrow> first_waiter sem s = Some w"
    "runnable s5 = (case st of None \<Rightarrow> runnable s | Some w \<Rightarrow> add_mset w (runnable s))"
    "\<forall>w. st = Some w \<longrightarrow> waitsem (tcbs s5 w) = None \<and> (\<forall>t. waitsem (tcbs s t) = Some sem \<longrightarrow> prio s t \<le> prio s w)"
    "mset (lists s5 WaitingForSemaphore) = (case st of None \<Rightarrow> mset (lists s WaitingForSemaphore) | Some w \<Rightarrow> mset (lists s WaitingForSemaphore) - {#w#})"
    "semstate.more s5 = semstate.more s3"
    by (rule sem_wakeup_cases [OF inv c s3(2-6,8)])
  have core5: "sem_core idle s5" using s5(2) by (simp add: sem_inv_def)
  have asrt: "semcount (sems s5 sem) > 0 \<and> st = None \<or> semcount (sems s5 sem) \<le> 0 \<and> st \<noteq> None" using s5(3,6) by auto
  obtain r s6 where s6: "sem_restorebaseprio st sem s5 = Some (r, s6)" "sem_core idle s6" "sem_frame s5 s6"
    by (rule sem_restorebaseprio_post [OF core5 _ asrt]) (use s5(4,5) in auto)
  have inv6: "sem_inv idle s6" using s6(2) waits_ok_frame [OF s6(3)] s5(2) by (simp add: sem_inv_def)
  have fr: "semcount (sems s6 sem) = semcount (sems s5 sem)" "runnable s6 = runnable s5"
    "mset (lists s6 WaitingForSemaphore) = mset (lists s5 WaitingForSemaphore)" "waitsem (tcbs s6 t) = waitsem (tcbs s5 t)" for t
    using s6(3) by (simp_all add: sem_frame_def)
  obtain u s7 where s7: "sem_post_unlock s6 = Some (u, s7)" "sem_inv idle s7" "u = Done OK \<or> u = Switched" "lock_kept s6 s7"
    "runnable s7 = runnable s6" by (rule sem_post_unlock_post [OF inv6])
  have fr7: "semcount (sems s7 sem) = semcount (sems s6 sem)" "mset (lists s7 WaitingForSemaphore) = mset (lists s6 WaitingForSemaphore)"
    "waitsem (tcbs s7 t) = waitsem (tcbs s6 t)" for t
    using lock_kept_sem(1) [OF s7(4)] lock_kept_fields(6) [OF s7(4)] s7(4) by (simp_all add: lock_kept_def same_blocked_def)
  define r' s' where "r' = (if r = Switched then Switched else u)" and "s' = (if r = Switched then s6 else s7)"
  have "sem_post (Some sem) s = Some (r', s')"
    using c s3(1) s5(1,4,5) s6(1) s7(1) by (auto simp: sem_post_def Let_def r'_def s'_def)
  moreover have "sem_inv idle s'" "r' = Done OK \<or> r' = Switched" "semcount (sems s' sem) = semcount (sems s sem) + 1"
    "runnable s' = runnable s5" "mset (lists s' WaitingForSemaphore) = mset (lists s5 WaitingForSemaphore)" "waitsem (tcbs s' t) = waitsem (tcbs s5 t)" for t
    using inv6 s7(2,3,5) fr fr7 s5(3) by (auto simp: s'_def r'_def)
  moreover have "semstate.more s' = semstate.more s"
    using s3(9) s5(11) s6(3) lock_kept_sem(4) [OF s7(4)] by (simp add: s'_def sem_frame_def)
  ultimately show ?thesis using s5(6-10) by (cases st) (auto simp: not_less)
qed

text \<open>
  C16. \<open>sem_post\<close> returns, in a task and in an interrupt handler: no assertion fails, the count goes up by
  one, and the invariant holds again. If tasks wait, then of all tasks waiting for the semaphore the one
  with the highest priority, the first of them in the list, stops waiting and becomes runnable, and all
  others keep waiting; otherwise no task is moved.
\<close>

theorem sem_post_correct:
  assumes inv: "sem_inv idle s" and lock: "current_regs s \<or> lockcount (tcbs s (hd (g_readytorun s))) < MAX_LOCK_COUNT"
    and c: "semcount (sems s sem) < SEM_VALUE_MAX"
  shows "\<exists>r s'. sem_post (Some sem) s = Some (r, s') \<and> sem_inv idle s' \<and> (r = Done OK \<or> r = Switched)
     \<and> semcount (sems s' sem) = semcount (sems s sem) + 1
     \<and> (if semcount (sems s sem) < 0
        then \<exists>w. first_waiter sem s = Some w \<and> (\<forall>t. waitsem (tcbs s t) = Some sem \<longrightarrow> prio s t \<le> prio s w)
               \<and> waitsem (tcbs s' w) = None \<and> runnable s' = add_mset w (runnable s)
               \<and> mset (lists s' WaitingForSemaphore) = mset (lists s WaitingForSemaphore) - {#w#}
        else runnable s' = runnable s \<and> mset (lists s' WaitingForSemaphore) = mset (lists s WaitingForSemaphore))"
  using sem_post_post [OF assms] by blast

text \<open>A post to semaphore 8 wakes task 3.\<close>

theorem sem_post_correct_witness:
  "\<exists>r s'. sem_post (Some 8) ex_sem = Some (r, s') \<and> sem_inv 0 s' \<and> semcount (sems s' 8) = 0 \<and> waitsem (tcbs s' 3) = None"
  using sem_post_correct [of 0 ex_sem 8, OF ex_sem_inv]
  by (auto simp: ex_sem_def zero_tcb_def MAX_LOCK_COUNT_def SEM_VALUE_MAX_def first_waiter_def)

section \<open>Timeouts and signals\<close>

interpretation restore_irq: holder_loop "sem_restoreholderprio st sem" "\<lambda>p s. restore_pre idle sem p s \<and> current_regs s" "\<lambda>_ _. True"
    "restore_rel idle sem" "\<lambda>r. r = Done 0" for st sem idle
proof
  show "restore_rel idle sem s s" for s :: "'a semstate_scheme" by (rule restore_rel_refl)
  show "restore_rel idle sem s s' \<Longrightarrow> restore_rel idle sem s' s'' \<Longrightarrow> restore_rel idle sem s s''"
    for s s' s'' :: "'a semstate_scheme" by (rule restore_rel_trans)
  fix p and s :: "'a semstate_scheme" assume pre: "restore_pre idle sem p s \<and> current_regs s" and "htcb (holders s p) \<noteq> None"
  then obtain h where h: "htcb (holders s p) = Some h" by blast
  have core: "sem_core idle s" and mem: "p \<in> set (hhead (sems s sem))" using pre by (simp_all add: restore_pre_def)
  obtain r s' where s': "sem_restoreholderprio st sem p s = Some (r, s')" "sem_core idle s'" "sem_frame s s'"
    "r = Done 0 \<or> r = Switched \<and> \<not> current_regs s"
    "\<forall>q. q \<noteq> p \<longrightarrow> q \<in> set (hhead (sems s sem)) \<longrightarrow> q \<in> set (hhead (sems s' sem)) \<and> holders s' q = holders s q"
    by (rule sem_restoreholderprio_step [OF core mem h])
  then show "\<exists>r s'. sem_restoreholderprio st sem p s = Some (r, s') \<and> r = Done 0 \<and> restore_rel idle sem s s' \<and> True
      \<and> (\<forall>q. q \<noteq> p \<longrightarrow> restore_pre idle sem q s \<and> current_regs s \<longrightarrow> restore_pre idle sem q s' \<and> current_regs s')
      \<and> (\<forall>q. q \<noteq> p \<longrightarrow> True \<longrightarrow> True)"
    using pre by (auto simp: restore_rel_def restore_pre_def sem_frame_def)
qed (rule TrueI)

lemma sem_canceled_irq:
  assumes inv: "sem_inv idle s" and irq: "current_regs s" and c: "semcount (sems s sem) \<le> 0"
  obtains s1 where "sem_canceled t sem s = Some (Done 0, s1)" "sem_inv idle s1" "sem_frame s s1"
proof -
  have core: "sem_core idle s" and ok: "waits_ok s" using inv by (simp_all add: sem_inv_def)
  have d: "distinct (hhead (sems s sem))" using core by (simp add: sem_core_def holder_pool_def)
  have "\<forall>p \<in> set (hhead (sems s sem)). restore_pre idle sem p s \<and> current_regs s" using core irq by (simp add: restore_pre_def)
  from restore_irq.loop [OF d this, of t] obtain s1 where s1:
    "foreachholder (sem_restoreholderprio t sem) (hhead (sems s sem)) s = Some (Done 0, s1)" "restore_rel idle sem s s1" by blast
  have f: "sem_frame s s1" and core1: "sem_core idle s1" using s1(2) core by (simp_all add: restore_rel_def)
  moreover have "sem_canceled t sem s = Some (Done 0, s1)" using c s1(1) by (simp add: sem_canceled_def sem_foreachholder_def)
  ultimately show ?thesis using ok waits_ok_frame [OF f] by (intro that [of s1]) (simp_all add: sem_inv_def)
qed

lemma sem_waitirq_post:
  assumes inv: "sem_inv idle s" and irq: "current_regs s" and t: "waitsem (tcbs s t) = Some sem"
  obtains s' where "sem_waitirq t e s = Some (Done OK, s')" "sem_inv idle s'" "waitsem (tcbs s' t) = None"
    "pterrno (tcbs s' t) = e" "t \<in># runnable s'" "semcount (sems s' sem) = semcount (sems s sem) + 1"
    "current_regs s'" "semstate.more s' = semstate.more s" "g_pidhash s' = g_pidhash s" "runnable s' = add_mset t (runnable s)"
    "\<forall>u. u \<noteq> t \<longrightarrow> waitsem (tcbs s' u) = waitsem (tcbs s u) \<and> pterrno (tcbs s' u) = pterrno (tcbs s u)"
proof -
  have core: "sem_core idle s" and ok: "waits_ok s" using inv by (simp_all add: sem_inv_def)
  have sc: "sched_core idle s" using core by (simp add: sem_core_def sched_inv_def)
  have mem: "t \<in> set (lists s WaitingForSemaphore)" using waits_ok_mem [OF ok, of t] t by simp
  have st: "task_state (tcbs s t) = TSTATE_WAIT_SEM"
    using mem core_lists(1) [OF sc] by (cases "task_state (tcbs s t)") (auto simp: lists_ok_member)
  have cneg: "semcount (sems s sem) < 0" by (rule waiting_count [OF ok t])
  obtain s1 where s1: "sem_canceled t sem s = Some (Done 0, s1)" "sem_inv idle s1" and f1: "sem_frame s s1"
    by (rule sem_canceled_irq [OF inv irq less_imp_le [OF cneg]])
  have core1: "sem_core idle s1" and ok1: "waits_ok s1" using s1(2) by (simp_all add: sem_inv_def)
  have l1: "mset (lists s1 WaitingForSemaphore) = mset (lists s WaitingForSemaphore)" using f1 by (simp add: sem_frame_def)
  define s4 where "s4 = upd_tcb t (\<lambda>b. b\<lparr>pterrno := e\<rparr>) (set_waitsem t None (add_count sem 1 s1))"
  have core4: "sem_core idle s4" unfolding s4_def
    by (rule sem_core_upd_tcb) (use core1 in \<open>simp_all add: sem_core_set_waitsem sem_core_add_count sched_inv_upd_tcb\<close>,
      use core1 in \<open>simp add: sem_core_def set_waitsem_def add_count_def sched_inv_upd_tcb\<close>)
  then have inv4: "sched_inv idle s4" by (simp add: sem_core_def)
  have mem4: "t \<in> set (lists s4 WaitingForSemaphore)" using mem l1 by (metis call_obs(2,9) mset_eq_setD s4_def upd_simps(2))
  obtain sw s5 where s5: "up_unblock_task t s4 = Some (sw, s5)" "sched_inv idle s5" "sched_kept s4 s5"
    "lists s5 WaitingForSemaphore = remove1 t (lists s4 WaitingForSemaphore)" "runnable s5 = add_mset t (runnable s4)"
    by (rule up_unblock_task_post [OF inv4 mem4]) simp_all
  have core5: "sem_core idle s5" using core4 s5(2,3) by (rule sem_core_kept)
  have t1: "waitsem (tcbs s1 t) = Some sem" using t f1 by (simp add: sem_frame_def)
  have c1: "semcount (sems s1 sem) = semcount (sems s sem)" "semcount (sems s1 sem) < 0"
    using f1 waiting_count [OF ok1 t1] by (simp_all add: sem_frame_def)
  have rng: "-32768 \<le> semcount (sems s1 sem)" using waits_ok_range [OF ok1] by blast
  have w5: "waitsem (tcbs s5 u) = (if u = t then None else waitsem (tcbs s1 u))" for u
    using sem_kept_frame(3) [OF s5(3), of u] by (simp add: s4_def)
  have k5: "semcount (sems s5 a) = (if a = sem then semcount (sems s1 a) + 1 else semcount (sems s1 a))" for a
    using sem_kept_frame(1) [OF s5(3)] c1(2) rng by (simp add: s4_def)
  have l5: "mset (lists s5 WaitingForSemaphore) = mset (lists s1 WaitingForSemaphore) - {#t#}" using s5(4) by (simp add: s4_def)
  have "distinct (lists s1 WaitingForSemaphore)" using core1 core_lists(2) by (auto simp: sem_core_def sched_inv_def)
  then have ok5: "waits_ok s5" by (rule waits_ok_leave [OF ok1 t1 _ w5 l5 k5])
  have irq5: "current_regs s5" using sched_rest_fields(13) [of s5 s4] s5(3) irq f1 by (simp add: sched_kept_def s4_def sem_frame_def)
  have "sem_waitirq t e s = Some (Done OK, s5)"
    using st t cneg s1(1) s5(1) irq5
    by (simp add: sem_waitirq_def sem_waitirq_resume_def s4_def switch_outcome_def Let_def)
  moreover have "pterrno (tcbs s5 t) = e"
    using sched_rest_fields(10) [of s5 s4 t] s5(3) by (simp add: sched_kept_def s4_def)
  moreover have "t \<in># runnable s5" unfolding s5(5) by simp
  moreover have "semstate.more s5 = semstate.more s" "g_pidhash s5 = g_pidhash s"
    using sched_rest_sem(4) [of s5 s4] sched_rest_fields(11) [of s5 s4] s5(3) f1 by (simp_all add: sched_kept_def s4_def sem_frame_def)
  moreover have "\<forall>u. u \<noteq> t \<longrightarrow> waitsem (tcbs s5 u) = waitsem (tcbs s u) \<and> pterrno (tcbs s5 u) = pterrno (tcbs s u)"
    using w5 sched_rest_fields(10) [of s5 s4] s5(3) f1 by (simp add: sched_kept_def s4_def sem_frame_def set_waitsem_def add_count_def)
  moreover have "runnable s5 = add_mset t (runnable s)" using s5(5) f1 by (simp add: s4_def sem_frame_def)
  ultimately show ?thesis using core5 ok5 w5 k5 c1(1) irq5 by (intro that [of s5]) (simp_all add: sem_inv_def)
qed

text \<open>
  C23. A timeout (or a signal) that ends a wait in interrupt context: the task stops waiting for the
  semaphore, is runnable again and finds the error code in its \<open>errno\<close>; the count it had taken in
  advance is returned, so that count and number of waiters agree again.
\<close>

theorem sem_waitirq_correct:
  assumes inv: "sem_inv idle s" and irq: "current_regs s" and t: "waitsem (tcbs s t) = Some sem"
  shows "\<exists>s'. sem_waitirq t e s = Some (Done OK, s') \<and> sem_inv idle s' \<and> waitsem (tcbs s' t) = None
     \<and> pterrno (tcbs s' t) = e \<and> t \<in># runnable s' \<and> semcount (sems s' sem) = semcount (sems s sem) + 1"
  by (rule sem_waitirq_post [OF assms]) blast

lemma sem_inv_regs: "sem_inv idle (s\<lparr>current_regs := b\<rparr>) = sem_inv idle s"
  by (simp add: sem_inv_def sem_core_def holder_pool_def holders_ok_def reprio_ok_def sched_verifytcb_def waits_ok_def nwaiters_def)

theorem sem_waitirq_correct_witness:
  "\<exists>s'. sem_waitirq 3 ETIMEDOUT (ex_sem\<lparr>current_regs := True\<rparr>) = Some (Done OK, s') \<and> sem_inv 0 s'
     \<and> waitsem (tcbs s' 3) = None \<and> pterrno (tcbs s' 3) = 110 \<and> semcount (sems s' 8) = 0"
proof -
  have inv: "sem_inv 0 (ex_sem\<lparr>current_regs := True\<rparr>)" using ex_sem_inv by (simp add: sem_inv_regs)
  show ?thesis
    using sem_waitirq_correct [OF inv, of 3 8 ETIMEDOUT] by (auto simp: ex_sem_def zero_tcb_def ETIMEDOUT_def)
qed

section \<open>Releasing an inherited priority\<close>

text \<open>
  C35. When a holder runs at an inherited priority and no other inherited priority is recorded for it,
  \<open>sem_restoreholderprio\<close> gives it its base priority back, and keeps the invariant.
\<close>

theorem sem_restoreholderprio_base:
  assumes core: "sem_core idle s" and mem: "p \<in> set (hhead (sems s sem))" and h: "htcb (holders s p) = Some h"
    and v: "sched_verifytcb h s" and n: "npend_reprio (tcbs s h) = 0"
  shows "\<exists>r s'. sem_restoreholderprio st sem p s = Some (r, s') \<and> sem_core idle s' \<and> prio s' h = base_priority (tcbs s h)"
proof (cases "prio s h = base_priority (tcbs s h)")
  case True
  then show ?thesis using core h v by (simp add: sem_restoreholderprio_def)
next
  case False
  have hi: "h \<noteq> idle" using sem_core_holder [OF core mem] h by auto
  obtain r s' where "sched_reprioritize h (int (base_priority (tcbs s h))) s = Some (r, s')" "sem_core idle s'"
    "prio s' h = base_priority (tcbs s h)"
    by (rule sem_reprioritize_base [OF core hi v n])
  then show ?thesis using False h v n by (simp add: sem_restoreholderprio_def)
qed

theorem sem_restoreholderprio_base_witness:
  "\<exists>r s'. sem_restoreholderprio 1 7 0 ex_sem = Some (r, s') \<and> prio s' 2 = 50"
  using sem_restoreholderprio_base [of 0 ex_sem 0 7 2 1] ex_sem_inv
  by (auto simp: sem_inv_def ex_sem_def zero_tcb_def sched_verifytcb_def PIDHASH_def CONFIG_MAX_TASKS_def)

section \<open>The unchecked array\<close>

text \<open>
  C37. \<open>sem_boostholderprio\<close> writes past the end of \<open>pend_reprios\<close>: when the waiting task does not outrank
  the holder's present priority the code records its priority without the test against
  \<open>CONFIG_SEM_NNESTPRIO\<close> that the other branch has. With the array full the write is outside it; the
  model has no result there.
\<close>

theorem sem_boostholderprio_overflow:
  assumes h: "htcb (holders s p) = Some h" "sched_verifytcb h s"
    and pr: "base_priority (tcbs s h) < prio s rt" "prio s rt \<le> prio s h"
    and full: "length (pend_reprios (tcbs s h)) = CONFIG_SEM_NNESTPRIO" "npend_reprio (tcbs s h) = CONFIG_SEM_NNESTPRIO"
  shows "sem_boostholderprio rt sem p s = None"
  using assms by (simp add: sem_boostholderprio_def array_set_def)

text \<open>The holder, task 2, has inherited priority 120 and has recorded sixteen waiters.\<close>

theorem sem_boostholderprio_overflow_witness:
  "sem_boostholderprio 1 7 0 (upd_tcb 2 (\<lambda>b. b\<lparr>sched_priority := 120, npend_reprio := 16\<rparr>) ex_sem) = None"
  using sem_boostholderprio_overflow [of "upd_tcb 2 (\<lambda>b. b\<lparr>sched_priority := 120, npend_reprio := 16\<rparr>) ex_sem" 0 2 1 7]
  by (simp add: ex_sem_def zero_tcb_def sched_verifytcb_def PIDHASH_def CONFIG_MAX_TASKS_def CONFIG_SEM_NNESTPRIO_def upd_tcb_def)

end
