(* ===== verification/Mqueue.thy ===== *)
theory Mqueue
  imports Semaphore_Spec
begin

unbundle bit_operations_syntax

text \<open>
  Message queues: src/os/kernel/mqueue with src/os/include/tinyara/mqueue.h, in the configuration
  \<open>CONFIG_MQ_MAXMSGSIZE = 600\<close>, \<open>CONFIG_PREALLOC_MQ_MSGS = 4\<close>. The state extends that of the scheduler by
  the queues, the message structures and the two lists of free messages; singly linked lists are
  lists of addresses, as everywhere (theory \<open>Lib_Queue\<close>).

  Modelled are the allocation of messages and queues, sending and receiving with their waits, and
  the end of a wait by a signal, a timeout or the exit of the task. What \<open>kmm_malloc\<close> returns is an
  argument \<open>mem\<close>. The notification of a task about a message is a signal; \<open>sig_mqnotempty\<close> is an
  argument \<open>sig\<close> of the sending operations. The timed variants and the descriptors are not modelled.
\<close>

section \<open>Data\<close>

datatype mqalloc_e = MQ_ALLOC_FIXED | MQ_ALLOC_DYN | MQ_ALLOC_IRQ

record mqueue_msg_s =
  mtype :: mqalloc_e
  priority :: nat
  msglen :: nat
  mail :: "8 word list"

record mqueue_inode_s =
  msglist :: "addr list"
  maxmsgs :: int
  nmsgs :: int
  nwaitnotfull :: int
  nwaitnotempty :: int
  maxmsgsize :: nat
  ntmqdes :: ptr
  ntpid :: int
  ntsigno :: int
  ntvalue :: int

record mq_des =
  msgq :: addr
  oflags :: "32 word"

record mqstate = kstate +
  mqs :: "addr \<Rightarrow> mqueue_inode_s"
  msgs :: "addr \<Rightarrow> mqueue_msg_s"
  g_msgfree :: "addr list"
  g_msgfreeirq :: "addr list"

definition MQ_MAX_BYTES :: nat where "MQ_MAX_BYTES = 600"
definition MQ_MAX_MSGS :: int where "MQ_MAX_MSGS = 16"
definition MQ_PRIO_MAX :: int where "MQ_PRIO_MAX = 255"
definition NUM_INTERRUPT_MSGS :: nat where "NUM_INTERRUPT_MSGS = 8"
definition CONFIG_PREALLOC_MQ_MSGS :: nat where "CONFIG_PREALLOC_MQ_MSGS = 4"
definition INVALID_PROCESS_ID :: int where "INVALID_PROCESS_ID = -1"
definition O_RDOK :: "32 word" where "O_RDOK = 1"
definition O_WROK :: "32 word" where "O_WROK = 2"
definition O_NONBLOCK :: "32 word" where "O_NONBLOCK = 64"
definition EPERM :: int where "EPERM = 1"
definition EMSGSIZE :: int where "EMSGSIZE = 90"

definition upd_mq :: "addr \<Rightarrow> (mqueue_inode_s \<Rightarrow> mqueue_inode_s) \<Rightarrow> 'z mqstate_scheme \<Rightarrow> 'z mqstate_scheme" where
  "upd_mq q f s = s\<lparr>mqs := (mqs s)(q := f (mqs s q))\<rparr>"

definition upd_msg :: "addr \<Rightarrow> (mqueue_msg_s \<Rightarrow> mqueue_msg_s) \<Rightarrow> 'z mqstate_scheme \<Rightarrow> 'z mqstate_scheme" where
  "upd_msg m f s = s\<lparr>msgs := (msgs s)(m := f (msgs s m))\<rparr>"

definition set_msgwaitq :: "addr \<Rightarrow> ptr \<Rightarrow> 'z kstate_scheme \<Rightarrow> 'z kstate_scheme" where
  "set_msgwaitq t q s = upd_tcb t (\<lambda>b. b\<lparr>msgwaitq := q\<rparr>) s"

section \<open>Allocation\<close>

text \<open>The loop of \<open>mq_msgblockalloc\<close> over the addresses of the block.\<close>

definition mq_msgblockalloc :: "addr list \<Rightarrow> mqalloc_e \<Rightarrow> 'z mqstate_scheme \<Rightarrow> addr list \<times> 'z mqstate_scheme" where
  "mq_msgblockalloc block ty s = (block, fold (\<lambda>m. upd_msg m (\<lambda>x. x\<lparr>mtype := ty\<rparr>)) block s)"

text \<open>The two arguments are the addresses of the messages in the blocks \<open>kmm_malloc\<close> returns, none if it fails.\<close>

definition mq_initialize :: "addr list \<Rightarrow> addr list \<Rightarrow> 'z mqstate_scheme \<Rightarrow> 'z mqstate_scheme" where
  "mq_initialize fixed irq s =
     (let (free, s) = mq_msgblockalloc fixed MQ_ALLOC_FIXED s;
          (freeirq, s) = mq_msgblockalloc irq MQ_ALLOC_IRQ s
      in s\<lparr>g_msgfree := free, g_msgfreeirq := freeirq\<rparr>)"

definition mq_msgalloc :: "ptr \<Rightarrow> 'z mqstate_scheme \<Rightarrow> (ptr \<times> 'z mqstate_scheme) option" where
  "mq_msgalloc mem s =
     (if current_regs s then
        (case g_msgfree s of
           m # ms \<Rightarrow> Some (Some m, s\<lparr>g_msgfree := ms\<rparr>)
         | [] \<Rightarrow> (case g_msgfreeirq s of
             m # ms \<Rightarrow> Some (Some m, s\<lparr>g_msgfreeirq := ms\<rparr>)
           | [] \<Rightarrow> Some (None, s)))
      else
        (case g_msgfree s of
           m # ms \<Rightarrow> Some (Some m, s\<lparr>g_msgfree := ms\<rparr>)
         | [] \<Rightarrow> do {
             m \<leftarrow> mem;
             Some (Some m, upd_msg m (\<lambda>x. x\<lparr>mtype := MQ_ALLOC_DYN\<rparr>) s)
           }))"

text \<open>Memory given to \<open>sched_kfree\<close> is not used again by this code.\<close>

definition mq_msgfree :: "addr \<Rightarrow> 'z mqstate_scheme \<Rightarrow> 'z mqstate_scheme" where
  "mq_msgfree m s = (case mtype (msgs s m) of
       MQ_ALLOC_FIXED \<Rightarrow> s\<lparr>g_msgfree := g_msgfree s @ [m]\<rparr>
     | MQ_ALLOC_IRQ \<Rightarrow> s\<lparr>g_msgfreeirq := g_msgfreeirq s @ [m]\<rparr>
     | MQ_ALLOC_DYN \<Rightarrow> s)"

text \<open>The attributes are a maximum number of messages and a maximum size.\<close>

definition mq_msgqalloc :: "ptr \<Rightarrow> (int \<times> nat) option \<Rightarrow> 'z mqstate_scheme \<Rightarrow> (ptr \<times> 'z mqstate_scheme) option" where
  "mq_msgqalloc mem attr s = do {
     ASSERT (case attr of None \<Rightarrow> True | Some (_, sz) \<Rightarrow> sz \<le> MQ_MAX_BYTES);
     case mem of
       None \<Rightarrow> Some (None, s)
     | Some q \<Rightarrow> Some (Some q, upd_mq q (\<lambda>_.
         \<lparr>msglist = [],
          maxmsgs = (case attr of None \<Rightarrow> MQ_MAX_MSGS | Some (n, _) \<Rightarrow> int16 n),
          nmsgs = 0, nwaitnotfull = 0, nwaitnotempty = 0,
          maxmsgsize = (case attr of None \<Rightarrow> MQ_MAX_BYTES | Some (_, sz) \<Rightarrow> sz),
          ntmqdes = None, ntpid = INVALID_PROCESS_ID, ntsigno = 0, ntvalue = 0\<rparr>) s)
   }"

definition mq_msgqfree :: "addr \<Rightarrow> 'z mqstate_scheme \<Rightarrow> 'z mqstate_scheme" where
  "mq_msgqfree q s = fold mq_msgfree (msglist (mqs s q)) s"

section \<open>Sending\<close>

definition mq_verifysend :: "mq_des option \<Rightarrow> 8 word list option \<Rightarrow> nat \<Rightarrow> int \<Rightarrow> 'z mqstate_scheme \<Rightarrow> int \<times> 'z mqstate_scheme" where
  "mq_verifysend d msg len p s = (case (msg, d) of
       (Some _, Some des) \<Rightarrow>
         if p < 0 \<or> p > MQ_PRIO_MAX then (ERROR, set_errno EINVAL s)
         else if oflags des AND O_WROK = 0 then (ERROR, set_errno EPERM s)
         else if len > maxmsgsize (mqs s (msgq des)) then (ERROR, set_errno EMSGSIZE s)
         else (OK, s)
     | _ \<Rightarrow> (ERROR, set_errno EINVAL s))"

definition mq_full :: "addr \<Rightarrow> 'z mqstate_scheme \<Rightarrow> bool" where
  "mq_full q s = (nmsgs (mqs s q) \<ge> maxmsgs (mqs s q))"

text \<open>The loop of \<open>mq_waitsend\<close>. A task that loses the processor continues in \<open>mq_waitsend_resume\<close>.\<close>

partial_function (option) waitsend_loop :: "addr \<Rightarrow> 'z mqstate_scheme \<Rightarrow> (int outcome \<times> 'z mqstate_scheme) option" where
  "waitsend_loop q s =
     (if mq_full q s then do {
        rtcb \<leftarrow> this_task s;
        let s = set_msgwaitq rtcb (Some q) s;
        let s = upd_mq q (\<lambda>x. x\<lparr>nwaitnotfull := int16 (nwaitnotfull x + 1)\<rparr>) s;
        let s = set_errno OK s;
        (sw, s) \<leftarrow> up_block_task rtcb TSTATE_WAIT_MQNOTFULL s;
        if sw then Some (Switched, s)
        else if get_errno s \<noteq> OK then Some (Done ERROR, s) else waitsend_loop q s
      }
      else Some (Done OK, s))"

definition mq_waitsend_resume :: "addr \<Rightarrow> 'z mqstate_scheme \<Rightarrow> (int outcome \<times> 'z mqstate_scheme) option" where
  "mq_waitsend_resume q s = (if get_errno s \<noteq> OK then Some (Done ERROR, s) else waitsend_loop q s)"

definition mq_waitsend :: "mq_des \<Rightarrow> 'z mqstate_scheme \<Rightarrow> (int outcome \<times> 'z mqstate_scheme) option" where
  "mq_waitsend des s =
     (if mq_full (msgq des) s then
        if oflags des AND O_NONBLOCK \<noteq> 0 then Some (Done ERROR, set_errno EAGAIN s)
        else waitsend_loop (msgq des) s
      else Some (Done OK, s))"

text \<open>\<open>memcpy\<close> of \<open>len\<close> bytes to the beginning of an array.\<close>

definition copy_bytes :: "8 word list \<Rightarrow> nat \<Rightarrow> 8 word list \<Rightarrow> 8 word list option" where
  "copy_bytes src len dst =
     (if len \<le> length src \<and> len \<le> length dst then Some (take len src @ drop len dst) else None)"

text \<open>
  Waking the first task of a list that waits for the queue; \<open>ASSERT(btcb)\<close> fails if there is none. The
  list is in the order of the priorities.
\<close>

definition mq_wake :: "tasklist \<Rightarrow> addr \<Rightarrow> (mqueue_inode_s \<Rightarrow> mqueue_inode_s) \<Rightarrow> 'z mqstate_scheme
    \<Rightarrow> (bool \<times> 'z mqstate_scheme) option" where
  "mq_wake l q dec s = do {
     btcb \<leftarrow> List.find (\<lambda>t. msgwaitq (tcbs s t) = Some q) (lists s l);
     let s = set_msgwaitq btcb None s;
     let s = upd_mq q dec s;
     up_unblock_task btcb s
   }"

definition mq_notify_pending :: "(int \<Rightarrow> int \<Rightarrow> int \<Rightarrow> 'z mqstate_scheme \<Rightarrow> 'z mqstate_scheme option) \<Rightarrow> addr
    \<Rightarrow> 'z mqstate_scheme \<Rightarrow> 'z mqstate_scheme option" where
  "mq_notify_pending sig q s =
     (let x = mqs s q in
      if ntmqdes x \<noteq> None
      then sig (ntpid x) (ntsigno x) (ntvalue x)
             (upd_mq q (\<lambda>x. x\<lparr>ntpid := INVALID_PROCESS_ID, ntsigno := 0, ntvalue := 0, ntmqdes := None\<rparr>) s)
      else Some s)"

text \<open>The search loop stops at the first message of smaller priority; the new message goes in front of it.\<close>

definition mq_insert :: "addr \<Rightarrow> addr \<Rightarrow> nat \<Rightarrow> 'z mqstate_scheme \<Rightarrow> 'z mqstate_scheme" where
  "mq_insert q m p s = upd_mq q (\<lambda>x. x\<lparr>
     msglist := takeWhile (\<lambda>n. p \<le> priority (msgs s n)) (msglist x) @ m
                # dropWhile (\<lambda>n. p \<le> priority (msgs s n)) (msglist x),
     nmsgs := int16 (nmsgs x + 1)\<rparr>) s"

definition mq_dosend :: "(int \<Rightarrow> int \<Rightarrow> int \<Rightarrow> 'z mqstate_scheme \<Rightarrow> 'z mqstate_scheme option) \<Rightarrow> mq_des \<Rightarrow> addr
    \<Rightarrow> 8 word list \<Rightarrow> nat \<Rightarrow> int \<Rightarrow> 'z mqstate_scheme \<Rightarrow> (int outcome \<times> 'z mqstate_scheme) option" where
  "mq_dosend sig des m msg len p s = do {
     s \<leftarrow> sched_lock s;
     let q = msgq des;
     mail' \<leftarrow> copy_bytes msg len (mail (msgs s m));
     let s = upd_msg m (\<lambda>x. x\<lparr>priority := nat p, msglen := len, mail := mail'\<rparr>) s;
     let s = mq_insert q m (nat p) s;
     s \<leftarrow> mq_notify_pending sig q s;
     (sw, s) \<leftarrow> (if nwaitnotempty (mqs s q) > 0
       then mq_wake WaitingForMqNotEmpty q (\<lambda>x. x\<lparr>nwaitnotempty := int16 (nwaitnotempty x - 1)\<rparr>) s
       else Some (False, s));
     if sw \<and> \<not> current_regs s then Some (Switched, s)
     else sched_unlock s
   }"

text \<open>What \<open>mq_send\<close> does after the wait, which gave \<open>ret\<close>.\<close>

definition mq_send_finish :: "(int \<Rightarrow> int \<Rightarrow> int \<Rightarrow> 'z mqstate_scheme \<Rightarrow> 'z mqstate_scheme option) \<Rightarrow> ptr \<Rightarrow> mq_des
    \<Rightarrow> 8 word list \<Rightarrow> nat \<Rightarrow> int \<Rightarrow> int \<Rightarrow> 'z mqstate_scheme \<Rightarrow> (int outcome \<times> 'z mqstate_scheme) option" where
  "mq_send_finish sig mem des msg len p ret s = do {
     (m, s) \<leftarrow> (if ret = OK then mq_msgalloc mem s else Some (None, s));
     (r, s) \<leftarrow> (case m of Some m \<Rightarrow> mq_dosend sig des m msg len p s | None \<Rightarrow> Some (Done ERROR, s));
     case r of
       Switched \<Rightarrow> Some (Switched, s)
     | Done ret \<Rightarrow> do {
         (u, s) \<leftarrow> sched_unlock s;
         Some (case u of Done _ \<Rightarrow> Done ret | Switched \<Rightarrow> Switched, s)
       }
   }"

definition mq_send :: "(int \<Rightarrow> int \<Rightarrow> int \<Rightarrow> 'z mqstate_scheme \<Rightarrow> 'z mqstate_scheme option) \<Rightarrow> ptr \<Rightarrow> mq_des option
    \<Rightarrow> 8 word list option \<Rightarrow> nat \<Rightarrow> int \<Rightarrow> 'z mqstate_scheme \<Rightarrow> (int outcome \<times> 'z mqstate_scheme) option" where
  "mq_send sig mem d msg len p s =
     (case mq_verifysend d msg len p s of (v, s) \<Rightarrow>
      if v \<noteq> OK then Some (Done ERROR, s)
      else do {
        des \<leftarrow> d;
        bytes \<leftarrow> msg;
        s \<leftarrow> sched_lock s;
        (w, s) \<leftarrow> (if current_regs s \<or> \<not> mq_full (msgq des) s then Some (Done OK, s) else mq_waitsend des s);
        case w of
          Switched \<Rightarrow> Some (Switched, s)
        | Done ret \<Rightarrow> mq_send_finish sig mem des bytes len p ret s
      })"

definition mq_send_resume :: "(int \<Rightarrow> int \<Rightarrow> int \<Rightarrow> 'z mqstate_scheme \<Rightarrow> 'z mqstate_scheme option) \<Rightarrow> ptr \<Rightarrow> mq_des
    \<Rightarrow> 8 word list \<Rightarrow> nat \<Rightarrow> int \<Rightarrow> 'z mqstate_scheme \<Rightarrow> (int outcome \<times> 'z mqstate_scheme) option" where
  "mq_send_resume sig mem des msg len p s = do {
     (w, s) \<leftarrow> mq_waitsend_resume (msgq des) s;
     case w of
       Switched \<Rightarrow> Some (Switched, s)
     | Done ret \<Rightarrow> mq_send_finish sig mem des msg len p ret s
   }"

section \<open>Receiving\<close>

definition mq_verifyreceive :: "mq_des option \<Rightarrow> bool \<Rightarrow> nat \<Rightarrow> 'z mqstate_scheme \<Rightarrow> int \<times> 'z mqstate_scheme" where
  "mq_verifyreceive d buffer len s = (case d of
       Some des \<Rightarrow>
         if \<not> buffer then (ERROR, set_errno EINVAL s)
         else if oflags des AND O_RDOK = 0 then (ERROR, set_errno EPERM s)
         else if len < maxmsgsize (mqs s (msgq des)) then (ERROR, set_errno EMSGSIZE s)
         else (OK, s)
     | None \<Rightarrow> (ERROR, set_errno EINVAL s))"

text \<open>The loop of \<open>mq_waitreceive\<close>; the result is the message, or \<open>None\<close> for the null pointer.\<close>

partial_function (option) waitreceive_loop :: "mq_des \<Rightarrow> 'z mqstate_scheme \<Rightarrow> (ptr outcome \<times> 'z mqstate_scheme) option" where
  "waitreceive_loop des s =
     (case msglist (mqs s (msgq des)) of
        m # ms \<Rightarrow> Some (Done (Some m), upd_mq (msgq des) (\<lambda>x. x\<lparr>msglist := ms, nmsgs := int16 (nmsgs x - 1)\<rparr>) s)
      | [] \<Rightarrow>
          if oflags des AND O_NONBLOCK = 0 then do {
            rtcb \<leftarrow> this_task s;
            let s = set_msgwaitq rtcb (Some (msgq des)) s;
            let s = upd_mq (msgq des) (\<lambda>x. x\<lparr>nwaitnotempty := int16 (nwaitnotempty x + 1)\<rparr>) s;
            let s = set_errno OK s;
            (sw, s) \<leftarrow> up_block_task rtcb TSTATE_WAIT_MQNOTEMPTY s;
            if sw then Some (Switched, s)
            else if get_errno s \<noteq> OK then Some (Done None, s) else waitreceive_loop des s
          }
          else Some (Done None, set_errno EAGAIN s))"

definition mq_waitreceive_resume :: "mq_des \<Rightarrow> 'z mqstate_scheme \<Rightarrow> (ptr outcome \<times> 'z mqstate_scheme) option" where
  "mq_waitreceive_resume des s = (if get_errno s \<noteq> OK then Some (Done None, s) else waitreceive_loop des s)"

definition mq_waitreceive :: "mq_des \<Rightarrow> 'z mqstate_scheme \<Rightarrow> (ptr outcome \<times> 'z mqstate_scheme) option" where
  "mq_waitreceive des s = waitreceive_loop des s"

text \<open>The result is the message copied to the caller and its priority; its length is the return value.\<close>

definition mq_doreceive :: "mq_des \<Rightarrow> addr \<Rightarrow> 'z mqstate_scheme
    \<Rightarrow> ((8 word list \<times> nat) outcome \<times> 'z mqstate_scheme) option" where
  "mq_doreceive des m s = do {
     let q = msgq des;
     let x = msgs s m;
     ASSERT (msglen x \<le> length (mail x));
     let s = mq_msgfree m s;
     (sw, s) \<leftarrow> (if nwaitnotfull (mqs s q) > 0
       then mq_wake WaitingForMqNotFull q (\<lambda>x. x\<lparr>nwaitnotfull := int16 (nwaitnotfull x - 1)\<rparr>) s
       else Some (False, s));
     Some (if sw \<and> \<not> current_regs s then Switched else Done (take (msglen x) (mail x), priority x), s)
   }"

text \<open>The result \<open>None\<close> is the return value \<open>ERROR\<close>.\<close>

definition mq_receive_finish :: "mq_des \<Rightarrow> ptr \<Rightarrow> 'z mqstate_scheme
    \<Rightarrow> ((8 word list \<times> nat) option outcome \<times> 'z mqstate_scheme) option" where
  "mq_receive_finish des m s = do {
     (r, s) \<leftarrow> (case m of
         Some m \<Rightarrow> do {
           (r, s) \<leftarrow> mq_doreceive des m s;
           Some (case r of Done x \<Rightarrow> Done (Some x) | Switched \<Rightarrow> Switched, s)
         }
       | None \<Rightarrow> Some (Done None, s));
     case r of
       Switched \<Rightarrow> Some (Switched, s)
     | Done ret \<Rightarrow> do {
         (u, s) \<leftarrow> sched_unlock s;
         Some (case u of Done _ \<Rightarrow> Done ret | Switched \<Rightarrow> Switched, s)
       }
   }"

definition mq_receive :: "mq_des option \<Rightarrow> bool \<Rightarrow> nat \<Rightarrow> 'z mqstate_scheme
    \<Rightarrow> ((8 word list \<times> nat) option outcome \<times> 'z mqstate_scheme) option" where
  "mq_receive d buffer len s = do {
     ASSERT (\<not> current_regs s);
     let (v, s) = mq_verifyreceive d buffer len s;
     if v \<noteq> OK then Some (Done None, s)
     else do {
       des \<leftarrow> d;
       s \<leftarrow> sched_lock s;
       (w, s) \<leftarrow> mq_waitreceive des s;
       case w of
         Switched \<Rightarrow> Some (Switched, s)
       | Done m \<Rightarrow> mq_receive_finish des m s
     }
   }"

definition mq_receive_resume :: "mq_des \<Rightarrow> 'z mqstate_scheme
    \<Rightarrow> ((8 word list \<times> nat) option outcome \<times> 'z mqstate_scheme) option" where
  "mq_receive_resume des s = do {
     (w, s) \<leftarrow> mq_waitreceive_resume des s;
     case w of
       Switched \<Rightarrow> Some (Switched, s)
     | Done m \<Rightarrow> mq_receive_finish des m s
   }"

section \<open>The end of a wait\<close>

definition mq_waitirq :: "addr \<Rightarrow> int \<Rightarrow> 'z mqstate_scheme \<Rightarrow> (bool \<times> 'z mqstate_scheme) option" where
  "mq_waitirq wtcb errcode s =
     (if task_state (tcbs s wtcb) \<in> {TSTATE_WAIT_MQNOTEMPTY, TSTATE_WAIT_MQNOTFULL} then do {
        q \<leftarrow> msgwaitq (tcbs s wtcb);
        let s = set_msgwaitq wtcb None s;
        s \<leftarrow> (if task_state (tcbs s wtcb) = TSTATE_WAIT_MQNOTEMPTY then do {
               ASSERT (nwaitnotempty (mqs s q) > 0);
               Some (upd_mq q (\<lambda>x. x\<lparr>nwaitnotempty := int16 (nwaitnotempty x - 1)\<rparr>) s)
             } else do {
               ASSERT (nwaitnotfull (mqs s q) > 0);
               Some (upd_mq q (\<lambda>x. x\<lparr>nwaitnotfull := int16 (nwaitnotfull x - 1)\<rparr>) s)
             });
        let s = upd_tcb wtcb (\<lambda>b. b\<lparr>pterrno := errcode\<rparr>) s;
        up_unblock_task wtcb s
      }
      else Some (False, s))"

definition mq_recover :: "addr \<Rightarrow> 'z mqstate_scheme \<Rightarrow> 'z mqstate_scheme option" where
  "mq_recover t s =
     (if task_state (tcbs s t) = TSTATE_WAIT_MQNOTEMPTY then do {
        q \<leftarrow> msgwaitq (tcbs s t);
        ASSERT (nwaitnotempty (mqs s q) > 0);
        Some (upd_mq q (\<lambda>x. x\<lparr>nwaitnotempty := int16 (nwaitnotempty x - 1)\<rparr>) s)
      }
      else if task_state (tcbs s t) = TSTATE_WAIT_MQNOTFULL then do {
        q \<leftarrow> msgwaitq (tcbs s t);
        ASSERT (nwaitnotfull (mqs s q) > 0);
        Some (upd_mq q (\<lambda>x. x\<lparr>nwaitnotfull := int16 (nwaitnotfull x - 1)\<rparr>) s)
      }
      else Some s)"

section \<open>What a queue holds\<close>

text \<open>The messages of a queue as pairs of priority and contents, in the order of delivery.\<close>

definition contents :: "addr \<Rightarrow> 'z mqstate_scheme \<Rightarrow> (nat \<times> 8 word list) list" where
  "contents q s = map (\<lambda>m. (priority (msgs s m), take (msglen (msgs s m)) (mail (msgs s m)))) (msglist (mqs s q))"

definition mq_waiters :: "tasklist \<Rightarrow> addr \<Rightarrow> 'z mqstate_scheme \<Rightarrow> addr list" where
  "mq_waiters l q s = filter (\<lambda>t. msgwaitq (tcbs s t) = Some q) (lists s l)"

text \<open>
  The invariant: counts agree with the lists, the messages of a queue are in descending priority, no
  message is in two places, and every message structure has room for the longest message.
\<close>

definition queue_ok :: "addr \<Rightarrow> 'z mqstate_scheme \<Rightarrow> bool" where
  "queue_ok q s = (let x = mqs s q in
     nmsgs x = int (length (msglist x)) \<and> nmsgs x \<le> 32767 \<and> maxmsgs x \<le> 32767 \<and> maxmsgsize x \<le> MQ_MAX_BYTES
     \<and> descending (\<lambda>m. priority (msgs s m)) (msglist x)
     \<and> nwaitnotempty x = int (length (mq_waiters WaitingForMqNotEmpty q s)) \<and> nwaitnotempty x \<le> 32767
     \<and> nwaitnotfull x = int (length (mq_waiters WaitingForMqNotFull q s)) \<and> nwaitnotfull x \<le> 32767)"

text \<open>Where a message is: in a queue or in one of the two free lists.\<close>

datatype place = Queue addr | Free | FreeIrq

fun at_place :: "place \<Rightarrow> 'z mqstate_scheme \<Rightarrow> addr list" where
  "at_place (Queue q) s = msglist (mqs s q)"
| "at_place Free s = g_msgfree s"
| "at_place FreeIrq s = g_msgfreeirq s"

definition pool_ok :: "'z mqstate_scheme \<Rightarrow> bool" where
  "pool_ok s = ((\<forall>p. distinct (at_place p s)) \<and> (\<forall>p p'. p \<noteq> p' \<longrightarrow> set (at_place p s) \<inter> set (at_place p' s) = {})
     \<and> (\<forall>m. length (mail (msgs s m)) = MQ_MAX_BYTES)
     \<and> (\<forall>p. \<forall>m \<in> set (at_place p s). p = Free \<longrightarrow> mtype (msgs s m) = MQ_ALLOC_FIXED)
     \<and> (\<forall>p. \<forall>m \<in> set (at_place p s). p = FreeIrq \<longrightarrow> mtype (msgs s m) = MQ_ALLOC_IRQ)
     \<and> (\<forall>q. \<forall>m \<in> set (msglist (mqs s q)). msglen (msgs s m) \<le> MQ_MAX_BYTES))"

definition mq_inv :: "addr \<Rightarrow> 'z mqstate_scheme \<Rightarrow> bool" where
  "mq_inv idle s = (sched_inv idle s \<and> (\<forall>q. queue_ok q s) \<and> pool_ok s)"
end
