(* ===== verification/Mqueue_Spec.thy ===== *)
theory Mqueue_Spec
  imports Mqueue
begin

text \<open>
  What the message queues promise: a message sent is delivered behind all messages of at least its
  priority, a message received is the first of the queue with its contents unchanged, and a task that
  waits for the queue is woken. The invariant \<open>mq_inv\<close> of theory \<open>Mqueue\<close> holds again after each call.
\<close>

section \<open>The parts of the state\<close>

lemma mq_upd_simps [simp]:
  "tcbs (upd_mq q f s) = tcbs s" "lists (upd_mq q f s) = lists s" "current_regs (upd_mq q f s) = current_regs s"
  "mqs (upd_mq q f s) = (mqs s)(q := f (mqs s q))" "msgs (upd_mq q f s) = msgs s"
  "g_msgfree (upd_mq q f s) = g_msgfree s" "g_msgfreeirq (upd_mq q f s) = g_msgfreeirq s"
  "tcbs (upd_msg m g s) = tcbs s" "lists (upd_msg m g s) = lists s" "current_regs (upd_msg m g s) = current_regs s"
  "mqs (upd_msg m g s) = mqs s" "msgs (upd_msg m g s) = (msgs s)(m := g (msgs s m))"
  "g_msgfree (upd_msg m g s) = g_msgfree s" "g_msgfreeirq (upd_msg m g s) = g_msgfreeirq s"
  by (simp_all add: upd_mq_def upd_msg_def)

lemma sched_inv_cong:
  assumes "tcbs s' = tcbs s" "lists s' = lists s"
  shows "sched_inv idle s' = sched_inv idle s"
  using assms by (simp add: sched_inv_def pend_ok_def core_defs lists_ok_def)

lemma more_mq:
  assumes "kstate.more s' = kstate.more s"
  shows "mqs s' = mqs s" "msgs s' = msgs s" "g_msgfree s' = g_msgfree s" "g_msgfreeirq s' = g_msgfreeirq s"
  using assms by (cases s; cases s'; simp)+

lemma set_msgwaitq_obs [simp]:
  "lists (set_msgwaitq t q s) = lists s" "current_regs (set_msgwaitq t q s) = current_regs s"
  "kstate.more (set_msgwaitq t q s) = kstate.more s"
  "prio (set_msgwaitq t q s) a = prio s a" "lockcount (tcbs (set_msgwaitq t q s) a) = lockcount (tcbs s a)"
  "msgwaitq (tcbs (set_msgwaitq t q s) a) = (if a = t then q else msgwaitq (tcbs s a))"
  "sched_inv idle (set_msgwaitq t q s) = sched_inv idle s"
  by (simp_all add: set_msgwaitq_def sched_inv_upd_tcb) (simp add: upd_tcb_def)

lemma set_msgwaitq_mq [simp]:
  "mqs (set_msgwaitq t q s) = mqs s" "msgs (set_msgwaitq t q s) = msgs s"
  "g_msgfree (set_msgwaitq t q s) = g_msgfree s" "g_msgfreeirq (set_msgwaitq t q s) = g_msgfreeirq s"
  by (rule more_mq; simp)+

text \<open>The message part of the invariant, and what it depends on.\<close>

definition mq_part :: "'z mqstate_scheme \<Rightarrow> bool" where
  "mq_part s = ((\<forall>q. queue_ok q s) \<and> pool_ok s)"

definition waits_kept :: "'z kstate_scheme \<Rightarrow> 'z kstate_scheme \<Rightarrow> bool" where
  "waits_kept s s' = ((\<forall>t. msgwaitq (tcbs s' t) = msgwaitq (tcbs s t))
     \<and> lists s' WaitingForMqNotEmpty = lists s WaitingForMqNotEmpty
     \<and> lists s' WaitingForMqNotFull = lists s WaitingForMqNotFull)"

lemma at_place_cong:
  "mqs s' = mqs s \<Longrightarrow> g_msgfree s' = g_msgfree s \<Longrightarrow> g_msgfreeirq s' = g_msgfreeirq s \<Longrightarrow> at_place p s' = at_place p s"
  by (cases p) simp_all

lemma contents_cong: "mqs s' = mqs s \<Longrightarrow> msgs s' = msgs s \<Longrightarrow> contents q s' = contents q s"
  by (simp add: contents_def)

lemma mq_part_cong:
  assumes "kstate.more s' = kstate.more s" "waits_kept s s'"
  shows "mq_part s' = mq_part s"
proof -
  note m = more_mq [OF assms(1)]
  have "mq_waiters l q s' = mq_waiters l q s" if "l \<in> {WaitingForMqNotEmpty, WaitingForMqNotFull}" for l q
    using that assms(2) by (auto simp: mq_waiters_def waits_kept_def)
  then show ?thesis
    by (simp add: mq_part_def queue_ok_def pool_ok_def m at_place_cong [OF m(1,3,4)])
qed

lemma mq_inv_part: "mq_inv idle s = (sched_inv idle s \<and> mq_part s)"
  by (simp add: mq_inv_def mq_part_def)

lemma lock_kept_mq:
  assumes "lock_kept s s'"
  shows "kstate.more s' = kstate.more s" "waits_kept s s'" "current_regs s' = current_regs s"
  using lock_kept_fields [OF assms] assms by (simp_all add: waits_kept_def lock_kept_def same_blocked_def)

section \<open>Locking\<close>

lemma mq_lock:
  assumes "mq_inv idle s" "\<not> current_regs s" "lockcount (tcbs s (hd (g_readytorun s))) < MAX_LOCK_COUNT"
  obtains s1 where "sched_lock s = Some s1" "mq_inv idle s1" "lists s1 = lists s" "kstate.more s1 = kstate.more s"
    "\<not> current_regs s1" "waits_kept s s1" "\<forall>t. prio s1 t = prio s t"
    "lockcount (tcbs s1 (hd (g_readytorun s))) = lockcount (tcbs s (hd (g_readytorun s))) + 1"
proof -
  have inv: "sched_inv idle s" using assms(1) by (simp add: mq_inv_part)
  then obtain r rs where r: "g_readytorun s = r # rs"
    using core_ready(1) by (cases "g_readytorun s") (auto simp: sched_inv_def)
  obtain s1 where s1: "sched_lock s = Some s1" "sched_inv idle s1" "lists s1 = lists s"
    by (rule sched_lock_inv [OF inv]) (use assms(3) in auto)
  then have eq: "s1 = upd_tcb r (\<lambda>b. b\<lparr>lockcount := lockcount b + 1\<rparr>) s"
    using assms(2,3) r by (simp add: sched_lock_def)
  have k: "kstate.more s1 = kstate.more s" "waits_kept s s1"
    by (simp_all add: eq waits_kept_def) (simp add: upd_tcb_def)
  show thesis
    by (rule that [OF s1(1)])
      (use s1(2,3) k mq_part_cong [OF k] assms(1,2) r in \<open>simp_all add: mq_inv_part eq\<close>)
qed

lemma mq_unlock:
  assumes "mq_inv idle s"
  obtains r s' where "sched_unlock s = Some (r, s')" "mq_inv idle s'" "r = Done OK \<or> r = Switched"
    "runnable s' = runnable s" "kstate.more s' = kstate.more s" "waits_kept s s'" "current_regs s' = current_regs s"
    "g_pendingtasks s = [] \<longrightarrow> r = Done OK"
proof -
  have "sched_inv idle s" using assms by (simp add: mq_inv_part)
  then obtain r s' where s': "sched_unlock s = Some (r, s')" "sched_inv idle s'"
    "r = Done OK \<or> r = Switched \<and> \<not> current_regs s" "runnable s' = runnable s" "lock_kept s s'"
    by (rule sched_unlock_inv)
  note k = lock_kept_mq [OF s'(5)]
  have "g_pendingtasks s = [] \<longrightarrow> r = Done OK"
    using s'(1) by (auto simp: sched_unlock_def Let_def split: list.splits if_splits)
  then show thesis
    by (intro that [OF s'(1)])
      (use s' k mq_part_cong [OF k(1,2)] assms in \<open>auto simp: mq_inv_part\<close>)
qed

text \<open>An inner unlock only counts down.\<close>

lemma mq_unlock_nested:
  assumes "mq_inv idle s" "\<not> current_regs s" "1 < lockcount (tcbs s (hd (g_readytorun s)))"
  obtains s' where "sched_unlock s = Some (Done OK, s')" "mq_inv idle s'" "lists s' = lists s"
    "kstate.more s' = kstate.more s" "waits_kept s s'" "\<not> current_regs s'"
proof -
  have "sched_inv idle s" using assms(1) by (simp add: mq_inv_part)
  then obtain t ts where r: "g_readytorun s = t # ts"
    using core_ready(1) by (cases "g_readytorun s") (auto simp: sched_inv_def)
  obtain r s' where s': "sched_unlock s = Some (r, s')" "mq_inv idle s'" "kstate.more s' = kstate.more s"
    "waits_kept s s'" "current_regs s' = current_regs s"
    using mq_unlock [OF assms(1)] by metis
  moreover have "r = Done OK" "lists s' = lists s"
    using s'(1) assms(2,3) r by (auto simp: sched_unlock_def)
  ultimately show thesis using that assms(2) by simp
qed

section \<open>Waking a task\<close>

text \<open>The count of a list of waiting tasks goes down by one.\<close>

definition one_less :: "tasklist \<Rightarrow> mqueue_inode_s \<Rightarrow> mqueue_inode_s" where
  "one_less l x = (if l = WaitingForMqNotEmpty then x\<lparr>nwaitnotempty := int16 (nwaitnotempty x - 1)\<rparr>
                   else x\<lparr>nwaitnotfull := int16 (nwaitnotfull x - 1)\<rparr>)"

lemma one_less_obs [simp]:
  "msglist (one_less l x) = msglist x" "nmsgs (one_less l x) = nmsgs x" "maxmsgs (one_less l x) = maxmsgs x"
  "maxmsgsize (one_less l x) = maxmsgsize x"
  by (simp_all add: one_less_def)

lemma find_filter: "List.find P xs = (case filter P xs of [] \<Rightarrow> None | x # _ \<Rightarrow> Some x)"
  by (induction xs) simp_all

lemma filter_remove_first:
  assumes "distinct xs" "filter P xs = w # ws" "\<And>t. t \<noteq> w \<Longrightarrow> P' t = P t" "\<not> P' w"
  shows "filter P' (remove1 w xs) = ws"
proof -
  have "filter P' (remove1 w xs) = filter P (remove1 w xs)"
    using assms by (intro filter_cong) auto
  also have "\<dots> = remove1 w (filter P xs)"
    using assms(1,2) by (simp add: filter_remove1)
  finally show ?thesis using assms(2) by simp
qed

lemma filter_remove_other:
  assumes "distinct xs" "\<not> P w" "\<And>t. t \<noteq> w \<Longrightarrow> P' t = P t" "\<not> P' w"
  shows "filter P' (remove1 w xs) = filter P xs"
proof -
  have "filter P' (remove1 w xs) = filter P (remove1 w xs)"
    using assms by (intro filter_cong) auto
  also have "\<dots> = filter P xs"
    using assms(2) by (induction xs) auto
  finally show ?thesis .
qed

abbreviation mq_list :: "tasklist \<Rightarrow> bool" where
  "mq_list l \<equiv> l \<in> {WaitingForMqNotEmpty, WaitingForMqNotFull}"

lemma mq_part_wake:
  assumes "mq_part s" "mq_list l" "mq_waiters l q s = w # ws"
    and m: "mqs s' = (mqs s)(q := one_less l (mqs s q))" "msgs s' = msgs s" "g_msgfree s' = g_msgfree s"
      "g_msgfreeirq s' = g_msgfreeirq s"
    and wait: "\<And>k q'. mq_list k \<Longrightarrow> mq_waiters k q' s' = (if k = l \<and> q' = q then ws else mq_waiters k q' s)"
  shows "mq_part s'"
proof -
  have places: "at_place p s' = at_place p s" for p
    using m by (cases p) simp_all
  have lists: "msglist (mqs s' a) = msglist (mqs s a)" for a
    using m(1) by simp
  have "pool_ok s'"
    using assms(1) by (simp add: mq_part_def pool_ok_def places lists m(2))
  moreover have "queue_ok a s'" for a
  proof -
    have ok: "queue_ok a s" using assms(1) by (simp add: mq_part_def)
    show ?thesis
      using ok assms(2,3) wait [of WaitingForMqNotEmpty a] wait [of WaitingForMqNotFull a]
      by (auto simp: queue_ok_def Let_def m one_less_def)
  qed
  ultimately show ?thesis by (simp add: mq_part_def)
qed

lemma mq_waiters_wake:
  assumes "lists_ok s" "mq_list l" "mq_waiters l q s = w # ws" "mq_list k"
    and wq: "\<And>t. msgwaitq (tcbs s' t) = (if t = w then None else msgwaitq (tcbs s t))"
    and l: "lists s' l = remove1 w (lists s l)" "\<And>m. m \<noteq> l \<Longrightarrow> mq_list m \<Longrightarrow> lists s' m = lists s m"
  shows "mq_waiters k q' s' = (if k = l \<and> q' = q then ws else mq_waiters k q' s)"
proof -
  have dist: "distinct (lists s l)" using assms(1) by (simp add: lists_ok_def)
  have "w \<in> set (mq_waiters l q s)" using assms(3) by simp
  then have w: "w \<in> set (lists s l)" "msgwaitq (tcbs s w) = Some q"
    by (auto simp: mq_waiters_def)
  consider "k = l" "q' = q" | "k = l" "q' \<noteq> q" | "k \<noteq> l" by blast
  then show ?thesis
  proof cases
    case 1
    then show ?thesis
      using filter_remove_first [OF dist assms(3) [unfolded mq_waiters_def], of "\<lambda>t. msgwaitq (tcbs s' t) = Some q"] wq l(1)
      by (simp add: mq_waiters_def)
  next
    case 2
    then show ?thesis
      using filter_remove_other [OF dist, of "\<lambda>t. msgwaitq (tcbs s t) = Some q'" w "\<lambda>t. msgwaitq (tcbs s' t) = Some q'"] wq l(1) w(2)
      by (simp add: mq_waiters_def)
  next
    case 3
    then have "w \<notin> set (lists s k)"
      using w(1) assms(1) by (auto simp: lists_ok_member)
    then show ?thesis
      using 3 wq l(2) [OF _ assms(4)] by (auto simp: mq_waiters_def intro!: filter_cong)
  qed
qed

lemma mq_wake_post:
  assumes inv: "mq_inv idle s" and irq: "\<not> current_regs s" and lock: "0 < lockcount (tcbs s (hd (g_readytorun s)))"
    and l: "mq_list l" and ws: "mq_waiters l q s = w # ws"
  obtains s' where "mq_wake l q (one_less l) s = Some (False, s')" "mq_inv idle s'" "mq_waiters l q s' = ws"
    "runnable s' = add_mset w (runnable s)" "mqs s' = (mqs s)(q := one_less l (mqs s q))" "msgs s' = msgs s"
    "hd (g_readytorun s') = hd (g_readytorun s)" "\<forall>t. lockcount (tcbs s' t) = lockcount (tcbs s t)" "\<not> current_regs s'"
proof -
  let ?s = "upd_mq q (one_less l) (set_msgwaitq w None s)"
  have si: "sched_inv idle s" "lists_ok s" using inv by (simp_all add: mq_inv_part sched_inv_def sched_core_def)
  have "w \<in> set (mq_waiters l q s)" using ws by simp
  then have w: "w \<in> set (lists s l)" by (simp add: mq_waiters_def)
  have u: "sched_inv idle ?s" using si(1) by (simp add: sched_inv_cong [of ?s "set_msgwaitq w None s"])
  obtain sw s' where s': "up_unblock_task w ?s = Some (sw, s')" "sched_inv idle s'" "sched_kept ?s s'"
    "lists s' l = remove1 w (lists ?s l)"
    "\<forall>m. m \<noteq> l \<longrightarrow> m \<noteq> ReadyToRun \<longrightarrow> m \<noteq> PendingTasks \<longrightarrow> lists s' m = lists ?s m"
    "runnable s' = add_mset w (runnable ?s)" "hd (g_readytorun s') = (if sw then w else hd (g_readytorun ?s))"
    "sw = (lockcount (tcbs ?s (hd (g_readytorun ?s))) = 0 \<and> prio ?s (hd (g_readytorun ?s)) < prio ?s w)"
    by (rule up_unblock_task_post [OF u, of w l]) (use w l in auto)
  have nsw: "\<not> sw" using s'(8) lock by simp
  have rest: "sched_rest s' = sched_rest ?s" using s'(3) by (simp add: sched_kept_def)
  note f = sched_rest_fields [OF rest]
  have "kstate.more s' = kstate.more ?s" by (rule f)
  note m = more_mq [OF this]
  have wq: "msgwaitq (tcbs s' t) = (if t = w then None else msgwaitq (tcbs s t))" for t
    using f(9) by simp
  have wt: "mq_waiters k q' s' = (if k = l \<and> q' = q then ws else mq_waiters k q' s)" if "mq_list k" for k q'
    by (rule mq_waiters_wake [OF si(2) l ws that]) (use wq s'(4,5) in auto)
  have "mq_part s'"
    by (rule mq_part_wake [OF _ l ws _ _ _ _ wt]) (use inv m in \<open>simp_all add: mq_inv_part\<close>)
  moreover have "mq_wake l q (one_less l) s = Some (False, s')" "hd (g_readytorun s') = hd (g_readytorun s)"
    using ws s'(1,7) nsw by (simp_all add: mq_wake_def find_filter mq_waiters_def)
  ultimately show thesis
    by (intro that) (use s'(2,6) wt [OF l, of q] m f(6,13) irq in \<open>simp_all add: mq_inv_part\<close>)
qed

section \<open>Messages\<close>

definition unused :: "addr \<Rightarrow> 'z mqstate_scheme \<Rightarrow> bool" where
  "unused m s = (\<forall>p. m \<notin> set (at_place p s))"

lemma unused_queue: "unused m s \<Longrightarrow> m \<notin> set (msglist (mqs s q))"
  unfolding unused_def by (metis at_place.simps(1))

declare at_place.simps [simp del]

lemma pool_okD:
  assumes "pool_ok s"
  shows "distinct (at_place p s)" "p \<noteq> p' \<Longrightarrow> n \<in> set (at_place p s) \<Longrightarrow> n \<notin> set (at_place p' s)"
    "length (mail (msgs s n)) = MQ_MAX_BYTES"
    "n \<in> set (at_place Free s) \<Longrightarrow> mtype (msgs s n) = MQ_ALLOC_FIXED"
    "n \<in> set (at_place FreeIrq s) \<Longrightarrow> mtype (msgs s n) = MQ_ALLOC_IRQ"
    "n \<in> set (at_place (Queue q) s) \<Longrightarrow> msglen (msgs s n) \<le> MQ_MAX_BYTES"
  using assms unfolding pool_ok_def by (auto simp: disjoint_iff at_place.simps(1))

lemma pool_okI:
  assumes "\<And>p. distinct (at_place p s)" "\<And>p p' n. p \<noteq> p' \<Longrightarrow> n \<in> set (at_place p s) \<Longrightarrow> n \<notin> set (at_place p' s)"
    "\<And>n. length (mail (msgs s n)) = MQ_MAX_BYTES"
    "\<And>n. n \<in> set (at_place Free s) \<Longrightarrow> mtype (msgs s n) = MQ_ALLOC_FIXED"
    "\<And>n. n \<in> set (at_place FreeIrq s) \<Longrightarrow> mtype (msgs s n) = MQ_ALLOC_IRQ"
    "\<And>n q. n \<in> set (at_place (Queue q) s) \<Longrightarrow> msglen (msgs s n) \<le> MQ_MAX_BYTES"
  shows "pool_ok s"
  unfolding pool_ok_def disjoint_iff using assms by (metis at_place.simps(1))

text \<open>Taking messages out of their places, and putting an unused one into a place.\<close>

lemma pool_ok_sub:
  assumes ok: "pool_ok s" and d: "\<And>p. distinct (at_place p s')"
    and sub: "\<And>p. set (at_place p s') \<subseteq> set (at_place p s)" and "msgs s' = msgs s"
  shows "pool_ok s'"
proof (rule pool_okI)
  show "n \<notin> set (at_place p' s')" if "p \<noteq> p'" "n \<in> set (at_place p s')" for p p' n
    using pool_okD(2) [OF ok that(1)] that(2) sub by blast
  show "msglen (msgs s' n) \<le> MQ_MAX_BYTES" if "n \<in> set (at_place (Queue q) s')" for n q
    using pool_okD(6) [OF ok subsetD [OF sub that]] assms(4) by simp
qed (use d subsetD [OF sub] assms(4) pool_okD(3-6) [OF ok] in simp_all)

lemma pool_ok_add:
  assumes ok: "pool_ok s" and un: "unused m s" and d: "\<And>p'. distinct (at_place p' s')"
    and pl: "\<And>p'. set (at_place p' s') = (if p' = p then insert m (set (at_place p s)) else set (at_place p' s))"
    and oth: "\<And>n. n \<noteq> m \<Longrightarrow> msgs s' n = msgs s n" and len: "length (mail (msgs s' m)) = MQ_MAX_BYTES"
    and ty: "p = Free \<Longrightarrow> mtype (msgs s' m) = MQ_ALLOC_FIXED" "p = FreeIrq \<Longrightarrow> mtype (msgs s' m) = MQ_ALLOC_IRQ"
      "\<And>q. p = Queue q \<Longrightarrow> msglen (msgs s' m) \<le> MQ_MAX_BYTES"
  shows "pool_ok s'"
proof (rule pool_okI)
  have nm: "m \<notin> set (at_place a s)" for a using un by (simp add: unused_def)
  note D = pool_okD [OF ok]
  show "n \<notin> set (at_place b s')" if "a \<noteq> b" "n \<in> set (at_place a s')" for a b n
    using that D(2) [OF that(1)] nm unfolding pl by (auto split: if_splits)
  show "length (mail (msgs s' n)) = MQ_MAX_BYTES" for n using len oth [of n] D(3) [of n] by (cases "n = m") simp_all
  show "mtype (msgs s' n) = MQ_ALLOC_FIXED" if "n \<in> set (at_place Free s')" for n
    using that ty(1) oth [of n] D(4) [of n] nm unfolding pl by (cases "n = m") (auto split: if_splits)
  show "mtype (msgs s' n) = MQ_ALLOC_IRQ" if "n \<in> set (at_place FreeIrq s')" for n
    using that ty(2) oth [of n] D(5) [of n] nm unfolding pl by (cases "n = m") (auto split: if_splits)
  show "msglen (msgs s' n) \<le> MQ_MAX_BYTES" if "n \<in> set (at_place (Queue q) s')" for n q
    using that ty(3) [of q] oth [of n] D(6) [of n q] nm unfolding pl by (cases "n = m") (auto split: if_splits)
qed (rule d)

lemma queue_ok_msgs:
  assumes "queue_ok q s" "mqs s' q = mqs s q" "tcbs s' = tcbs s" "lists s' = lists s"
    and "\<And>n. n \<in> set (msglist (mqs s q)) \<Longrightarrow> priority (msgs s' n) = priority (msgs s n)"
  shows "queue_ok q s'"
proof -
  have "descending (\<lambda>m. priority (msgs s' m)) (msglist (mqs s q)) = descending (\<lambda>m. priority (msgs s m)) (msglist (mqs s q))"
    using assms(5) by (rule descending_cong)
  then show ?thesis
    using assms(1-4) by (simp add: queue_ok_def mq_waiters_def)
qed

lemma mq_msgalloc_post:
  assumes inv: "mq_inv idle s" and irq: "\<not> current_regs s" and mem: "g_msgfree s = [] \<Longrightarrow> \<exists>m. mem = Some m \<and> unused m s"
  obtains m s1 where "mq_msgalloc mem s = Some (Some m, s1)" "mq_inv idle s1" "unused m s1" "tcbs s1 = tcbs s"
    "lists s1 = lists s" "\<not> current_regs s1" "mqs s1 = mqs s" "\<forall>q. contents q s1 = contents q s"
proof (cases "g_msgfree s")
  case (Cons m ms)
  let ?s = "s\<lparr>g_msgfree := ms\<rparr>"
  have pool: "pool_ok s" "\<forall>q. queue_ok q s" "sched_inv idle s" using inv by (simp_all add: mq_inv_def)
  have pl: "at_place p ?s = (if p = Free then ms else at_place p s)" for p by (cases p) (simp_all add: at_place.simps)
  have fr: "at_place Free s = m # ms" using Cons by (simp add: at_place.simps)
  have d: "distinct (m # ms)" using pool_okD(1) [OF pool(1), of Free] fr by simp
  have "m \<notin> set (at_place p s)" if "p \<noteq> Free" for p
    using pool_okD(2) [OF pool(1), of Free p m] that fr by auto
  then have un: "unused m ?s" using d unfolding unused_def pl by simp
  have "pool_ok ?s"
    by (rule pool_ok_sub [OF pool(1)]) (use d fr pool_okD(1) [OF pool(1)] in \<open>auto simp: pl\<close>)
  moreover have "queue_ok q ?s" for q using pool(2) by (simp add: queue_ok_def mq_waiters_def)
  moreover have "sched_inv idle ?s" using pool(3) sched_inv_cong [of ?s s] by simp
  ultimately have "mq_inv idle ?s" by (simp add: mq_inv_def)
  then show thesis
    by (rule that [of m ?s, rotated]) (use un irq Cons in \<open>simp_all add: mq_msgalloc_def contents_def\<close>)
next
  case Nil
  then obtain m where m: "mem = Some m" "unused m s" using mem by blast
  let ?s = "upd_msg m (\<lambda>x. x\<lparr>mtype := MQ_ALLOC_DYN\<rparr>) s"
  have pool: "pool_ok s" "\<forall>q. queue_ok q s" "sched_inv idle s" using inv by (simp_all add: mq_inv_def)
  have pl: "at_place p ?s = at_place p s" for p by (cases p) (simp_all add: at_place.simps)
  have nm: "m \<notin> set (at_place p s)" for p using m(2) by (simp add: unused_def)
  have "pool_ok ?s"
    by (rule pool_okI) (use pool_okD [OF pool(1)] nm in \<open>auto simp: pl\<close>)
  moreover have "queue_ok q ?s" for q
    by (rule queue_ok_msgs [of q s]) (use pool(2) in simp_all)
  moreover have "sched_inv idle ?s" using pool(3) sched_inv_cong [of ?s s] by simp
  ultimately have "mq_inv idle ?s" by (simp add: mq_inv_def)
  then show thesis
    by (rule that [of m ?s, rotated])
      (use m irq Nil in \<open>simp_all add: mq_msgalloc_def contents_def unused_def pl\<close>)
qed

section \<open>Sending\<close>

text \<open>A message as its receiver sees it.\<close>

definition as_sent :: "'z mqstate_scheme \<Rightarrow> addr \<Rightarrow> nat \<times> 8 word list" where
  "as_sent s m = (priority (msgs s m), take (msglen (msgs s m)) (mail (msgs s m)))"

lemma contents_as_sent: "contents q s = map (as_sent s) (msglist (mqs s q))"
  by (simp add: contents_def as_sent_def)

lemma map_prio_insert:
  "map f (prio_insert (\<lambda>x. fst (f x)) m xs) = prio_insert fst (f m) (map f xs)"
  by (simp add: prio_insert_def takeWhile_map dropWhile_map comp_def)

lemma mq_insert_post:
  fixes p :: nat
  assumes part: "mq_part s" and un: "unused m s" and room: "nmsgs (mqs s q) < 32767"
    and msg: "len \<le> MQ_MAX_BYTES" "length mail' = MQ_MAX_BYTES"
  defines "s1 \<equiv> upd_msg m (\<lambda>x. x\<lparr>priority := p, msglen := len, mail := mail'\<rparr>) s"
  shows "mq_part (mq_insert q m p s1)"
    and "contents q' (mq_insert q m p s1) =
      (if q' = q then prio_insert fst (p, take len mail') (contents q s) else contents q' s)"
proof -
  let ?s = "mq_insert q m p s1" and ?old = "msglist (mqs s q)"
  let ?key = "\<lambda>n. priority (msgs s1 n)"
  have nm: "m \<notin> set (msglist (mqs s a))" for a by (rule unused_queue [OF un])
  have pm: "?key m = p" by (simp add: s1_def)
  have new: "msglist (mqs ?s a) = (if a = q then prio_insert ?key m ?old else msglist (mqs s a))" for a
    using pm by (simp add: mq_insert_def prio_insert_def s1_def)
  have oth: "msgs ?s n = msgs s n" if "n \<noteq> m" for n using that by (simp add: mq_insert_def s1_def)
  have ms: "msgs ?s = msgs s1" by (simp add: mq_insert_def)
  have sent: "as_sent s1 n = as_sent s n" if "n \<noteq> m" for n using that by (simp add: as_sent_def s1_def)
  have sentl: "map (as_sent s1) (msglist (mqs s a)) = map (as_sent s) (msglist (mqs s a))" for a
    using nm [of a] by (intro map_cong refl sent) auto
  show "contents q' ?s = (if q' = q then prio_insert fst (p, take len mail') (contents q s) else contents q' s)"
  proof -
    have "as_sent ?s = as_sent s1" by (simp add: as_sent_def ms fun_eq_iff)
    moreover have "as_sent s1 m = (p, take len mail')" by (simp add: as_sent_def s1_def)
    moreover have "(\<lambda>x. fst (as_sent s1 x)) = ?key" by (simp add: as_sent_def)
    ultimately show ?thesis
      using map_prio_insert [of "as_sent s1" m ?old] sentl by (simp add: contents_as_sent new)
  qed
  have pl: "set (at_place a ?s) = (if a = Queue q then insert m (set (at_place (Queue q) s)) else set (at_place a s))"
    "distinct (at_place a ?s)" for a
    using new part nm pool_okD(1) [of s a]
    by (cases a; auto simp: at_place.simps mq_part_def prio.set_ins prio.distinct_ins; simp add: mq_insert_def s1_def)+
  have "pool_ok ?s"
    by (rule pool_ok_add [OF _ un pl(2) pl(1) oth]) (use part msg in \<open>simp_all add: mq_part_def mq_insert_def s1_def\<close>)
  moreover have "queue_ok a ?s" for a
  proof (cases "a = q")
    case False
    show ?thesis
      by (rule queue_ok_msgs [of a s])
        (use part False nm [of a] oth in \<open>auto simp: mq_part_def mq_insert_def s1_def\<close>)
  next
    case True
    have ok: "queue_ok q s" using part by (simp add: mq_part_def)
    have "descending ?key ?old = descending (\<lambda>n. priority (msgs s n)) ?old"
      by (rule descending_cong) (use nm [of q] in \<open>auto simp: s1_def\<close>)
    then have "descending ?key (prio_insert ?key m ?old)"
      using ok by (intro prio.descending_ins) (simp add: queue_ok_def Let_def)
    then show ?thesis
      using True ok room new [of q] ms
      by (simp add: queue_ok_def Let_def prio.length_ins mq_waiters_def) (simp add: mq_insert_def s1_def)
  qed
  ultimately show "mq_part ?s" by (simp add: mq_part_def)
qed

lemma waits_kept_waiters: "waits_kept s s' \<Longrightarrow> mq_list l \<Longrightarrow> mq_waiters l q s' = mq_waiters l q s"
  by (auto simp: waits_kept_def mq_waiters_def)

text \<open>The tasks runnable after one that waits in the list, if there is one, was woken.\<close>

definition woken :: "tasklist \<Rightarrow> addr \<Rightarrow> 'z mqstate_scheme \<Rightarrow> addr multiset" where
  "woken l q s = (case mq_waiters l q s of [] \<Rightarrow> {#} | w # _ \<Rightarrow> {#w#})"

text \<open>The part of sending and receiving that wakes a waiting task, run with the preemption lock held.\<close>

lemma mq_wake_if_post:
  assumes inv: "mq_inv idle s" and irq: "\<not> current_regs s" and lock: "0 < lockcount (tcbs s (hd (g_readytorun s)))"
    and l: "mq_list l" and n: "n = (if l = WaitingForMqNotEmpty then nwaitnotempty (mqs s q) else nwaitnotfull (mqs s q))"
  obtains s' where "(if n > 0 then mq_wake l q (one_less l) s else Some (False, s)) = Some (False, s')"
    "mq_inv idle s'" "mq_waiters l q s' = tl (mq_waiters l q s)" "runnable s' = runnable s + woken l q s"
    "\<forall>a. contents a s' = contents a s" "hd (g_readytorun s') = hd (g_readytorun s)"
    "\<forall>t. lockcount (tcbs s' t) = lockcount (tcbs s t)" "\<not> current_regs s'" "mq_waiters l q s = [] \<longrightarrow> lists s' = lists s"
proof -
  have ok: "queue_ok q s" using inv by (simp add: mq_inv_def)
  have cnt: "n = int (length (mq_waiters l q s))" using ok l n by (auto simp: queue_ok_def Let_def)
  show thesis
  proof (cases "mq_waiters l q s")
    case Nil
    then show thesis using that [of s] inv irq cnt by (simp add: woken_def)
  next
    case (Cons w ws)
    obtain s' where s': "mq_wake l q (one_less l) s = Some (False, s')" "mq_inv idle s'" "mq_waiters l q s' = ws"
      "runnable s' = add_mset w (runnable s)" "mqs s' = (mqs s)(q := one_less l (mqs s q))" "msgs s' = msgs s"
      "hd (g_readytorun s') = hd (g_readytorun s)" "\<forall>t. lockcount (tcbs s' t) = lockcount (tcbs s t)" "\<not> current_regs s'"
      by (rule mq_wake_post [OF inv irq lock l Cons])
    have "contents a s' = contents a s" for a using s'(5,6) by (simp add: contents_def)
    then show thesis using that [of s'] s' cnt Cons by (simp add: woken_def)
  qed
qed

lemma one_less_eqs:
  "(\<lambda>x. x\<lparr>nwaitnotempty := int16 (nwaitnotempty x - 1)\<rparr>) = one_less WaitingForMqNotEmpty"
  "(\<lambda>x. x\<lparr>nwaitnotfull := int16 (nwaitnotfull x - 1)\<rparr>) = one_less WaitingForMqNotFull"
  by (simp_all add: one_less_def fun_eq_iff)

lemma mq_dosend_post:
  assumes inv: "mq_inv idle s" and irq: "\<not> current_regs s"
    and lock: "0 < lockcount (tcbs s (hd (g_readytorun s)))" "lockcount (tcbs s (hd (g_readytorun s))) < MAX_LOCK_COUNT"
    and un: "unused m s" and q: "msgq des = q" "ntmqdes (mqs s q) = None" "nmsgs (mqs s q) < 32767"
    and msg: "len \<le> length msg" "len \<le> MQ_MAX_BYTES"
  obtains s' where "mq_dosend sig des m msg len p s = Some (Done OK, s')" "mq_inv idle s'"
    "\<forall>a. contents a s' = (if a = q then prio_insert fst (nat p, take len msg) (contents q s) else contents a s)"
    "mq_waiters WaitingForMqNotEmpty q s' = tl (mq_waiters WaitingForMqNotEmpty q s)"
    "runnable s' = runnable s + woken WaitingForMqNotEmpty q s" "\<not> current_regs s'"
    "mq_waiters WaitingForMqNotEmpty q s = [] \<longrightarrow> lists s' = lists s"
proof -
  let ?l = WaitingForMqNotEmpty
  obtain s1 where s1: "sched_lock s = Some s1" "mq_inv idle s1" "lists s1 = lists s" "kstate.more s1 = kstate.more s"
    "\<not> current_regs s1" "waits_kept s s1" "\<forall>t. prio s1 t = prio s t"
    "lockcount (tcbs s1 (hd (g_readytorun s))) = lockcount (tcbs s (hd (g_readytorun s))) + 1"
    by (rule mq_lock [OF inv irq lock(2)])
  note m1 = more_mq [OF s1(4)]
  have len: "length (mail (msgs s1 m)) = MQ_MAX_BYTES" using s1(2) by (simp add: mq_inv_def pool_okD(3))
  let ?mail = "take len msg @ drop len (mail (msgs s1 m))"
  define s2 where "s2 = mq_insert q m (nat p) (upd_msg m (\<lambda>x. x\<lparr>priority := nat p, msglen := len, mail := ?mail\<rparr>) s1)"
  have "unused m s1" using un by (simp add: unused_def at_place_cong [OF m1(1,3,4)])
  note ins = mq_insert_post [where s = s1 and m = m and q = q and len = len and mail' = ?mail and p = "nat p",
      OF _ this, folded s2_def]
  have part: "mq_part s2"
    by (rule ins(1)) (use s1(2) q(3) m1 msg len in \<open>simp_all add: mq_inv_part\<close>)
  have con: "contents a s2 = (if a = q then prio_insert fst (nat p, take len msg) (contents q s) else contents a s)" for a
    using ins(2) [where q' = a] s1(2) q(3) m1 msg len contents_cong [OF m1(1,2)] by (simp add: mq_inv_part)
  have e2: "tcbs s2 = tcbs s1" "lists s2 = lists s" "current_regs s2 = current_regs s1" "ntmqdes (mqs s2 q) = None"
    using s1(3) q(2) m1 by (simp_all add: s2_def mq_insert_def)
  have inv2: "mq_inv idle s2"
    using part s1(2,3) e2 sched_inv_cong [of s2 s1] by (simp add: mq_inv_part)
  have w2: "mq_waiters ?l q s2 = mq_waiters ?l q s" using s1(6) e2 by (simp add: mq_waiters_def waits_kept_def)
  obtain s3 where s3: "(if nwaitnotempty (mqs s2 q) > 0 then mq_wake ?l q (one_less ?l) s2 else Some (False, s2)) = Some (False, s3)"
    "mq_inv idle s3" "mq_waiters ?l q s3 = tl (mq_waiters ?l q s2)" "runnable s3 = runnable s2 + woken ?l q s2"
    "\<forall>a. contents a s3 = contents a s2" "hd (g_readytorun s3) = hd (g_readytorun s2)"
    "\<forall>t. lockcount (tcbs s3 t) = lockcount (tcbs s2 t)" "\<not> current_regs s3" "mq_waiters ?l q s2 = [] \<longrightarrow> lists s3 = lists s2"
    by (rule mq_wake_if_post [OF inv2, of ?l "nwaitnotempty (mqs s2 q)" q]) (use s1(5,8) e2 lock in auto)
  obtain s4 where s4: "sched_unlock s3 = Some (Done OK, s4)" "mq_inv idle s4" "lists s4 = lists s3"
    "kstate.more s4 = kstate.more s3" "waits_kept s3 s4" "\<not> current_regs s4"
    by (rule mq_unlock_nested [OF s3(2,8)]) (use s3(6,7) e2 s1(8) lock in auto)
  have "mq_dosend sig des m msg len p s = Some (Done OK, s4)"
    using s1(1) s3(1) s4(1) msg len e2(4)
    by (auto simp: mq_dosend_def copy_bytes_def q(1) s2_def [symmetric] mq_notify_pending_def one_less_eqs
        split: if_splits)
  moreover have "contents a s4 = contents a s3" for a using more_mq [OF s4(4)] by (simp add: contents_def)
  moreover have "woken ?l q s2 = woken ?l q s" using w2 by (simp add: woken_def)
  ultimately show thesis
    by (intro that [of s4]) (use s4 s3 con w2 e2 waits_kept_waiters [OF s4(5), of ?l q] in simp_all)
qed

section \<open>Receiving\<close>

text \<open>The first message leaves its queue.\<close>

lemma mq_dequeue_post:
  fixes s :: "'z mqstate_scheme"
  assumes inv: "mq_inv idle s" and q: "msglist (mqs s q) = m # ms"
  defines "s' \<equiv> upd_mq q (\<lambda>x. x\<lparr>msglist := ms, nmsgs := int16 (nmsgs x - 1)\<rparr>) s"
  shows "mq_inv idle s'" "unused m s'" "\<forall>a. contents a s' = (if a = q then tl (contents q s) else contents a s)"
proof -
  have ok: "pool_ok s" "\<forall>q. queue_ok q s" "sched_inv idle s" using inv by (simp_all add: mq_inv_def)
  have pl: "at_place p s' = (if p = Queue q then ms else at_place p s)" for p
    by (cases p) (simp_all add: at_place.simps s'_def)
  have qq: "at_place (Queue q) s = m # ms" using q by (simp add: at_place.simps)
  have d: "distinct (m # ms)" using pool_okD(1) [OF ok(1), of "Queue q"] qq by simp
  have "m \<notin> set (at_place p s)" if "p \<noteq> Queue q" for p
    using pool_okD(2) [OF ok(1), of "Queue q" p m] that qq by auto
  then show "unused m s'" using d unfolding unused_def pl by simp
  have "msgs s' = msgs s" by (simp add: s'_def)
  then have "pool_ok s'"
    by (intro pool_ok_sub [OF ok(1)]) (use d qq pool_okD(1) [OF ok(1)] in \<open>auto simp: pl\<close>)
  moreover have "queue_ok a s'" for a
  proof (cases "a = q")
    case True
    have "queue_ok q s" using ok(2) by simp
    then show ?thesis using True q
      by (auto simp: queue_ok_def Let_def s'_def mq_waiters_def int16_def descending_def)
  next
    case False
    then show ?thesis using ok(2) by (simp add: queue_ok_def s'_def mq_waiters_def)
  qed
  moreover have "sched_inv idle s'" using ok(3) sched_inv_cong [of s' s] by (simp add: s'_def)
  ultimately show "mq_inv idle s'" by (simp add: mq_inv_def)
  show "\<forall>a. contents a s' = (if a = q then tl (contents q s) else contents a s)"
    using q by (simp add: contents_def s'_def)
qed

lemma mq_msgfree_post:
  fixes s :: "'z mqstate_scheme"
  assumes inv: "mq_inv idle s" and un: "unused m s"
  shows "mq_inv idle (mq_msgfree m s)" "tcbs (mq_msgfree m s) = tcbs s" "lists (mq_msgfree m s) = lists s"
    "current_regs (mq_msgfree m s) = current_regs s" "mqs (mq_msgfree m s) = mqs s" "msgs (mq_msgfree m s) = msgs s"
proof -
  let ?s = "mq_msgfree m s"
  show e: "tcbs ?s = tcbs s" "lists ?s = lists s" "current_regs ?s = current_regs s" "mqs ?s = mqs s" "msgs ?s = msgs s"
    by (simp_all add: mq_msgfree_def split: mqalloc_e.split)
  have ok: "pool_ok s" "\<forall>q. queue_ok q s" "sched_inv idle s" using inv by (simp_all add: mq_inv_def)
  have nm: "m \<notin> set (at_place p s)" for p using un by (simp add: unused_def)
  note D = pool_okD(1,3) [OF ok(1)]
  have "pool_ok ?s"
  proof (cases "mtype (msgs s m)")
    case MQ_ALLOC_FIXED
    then have pl: "at_place p ?s = (if p = Free then at_place p s @ [m] else at_place p s)" for p
      by (cases p) (simp_all add: at_place.simps mq_msgfree_def)
    show ?thesis
      by (rule pool_ok_add [OF ok(1) un, where p = Free]) (use D nm e MQ_ALLOC_FIXED in \<open>simp_all add: pl\<close>)
  next
    case MQ_ALLOC_IRQ
    then have pl: "at_place p ?s = (if p = FreeIrq then at_place p s @ [m] else at_place p s)" for p
      by (cases p) (simp_all add: at_place.simps mq_msgfree_def)
    show ?thesis
      by (rule pool_ok_add [OF ok(1) un, where p = FreeIrq]) (use D nm e MQ_ALLOC_IRQ in \<open>simp_all add: pl\<close>)
  next
    case MQ_ALLOC_DYN
    then show ?thesis using ok(1) by (simp add: mq_msgfree_def)
  qed
  moreover have "queue_ok a ?s" for a by (rule queue_ok_msgs [of a s]) (use ok(2) e in simp_all)
  moreover have "sched_inv idle ?s" using ok(3) sched_inv_cong [of ?s s] e by simp
  ultimately show "mq_inv idle ?s" by (simp add: mq_inv_def)
qed

lemma mq_doreceive_post:
  assumes inv: "mq_inv idle s" and irq: "\<not> current_regs s" and lock: "0 < lockcount (tcbs s (hd (g_readytorun s)))"
    and un: "unused m s" and q: "msgq des = q" and len: "msglen (msgs s m) \<le> MQ_MAX_BYTES"
  obtains s' where "mq_doreceive des m s = Some (Done (snd (as_sent s m), fst (as_sent s m)), s')" "mq_inv idle s'"
    "\<forall>a. contents a s' = contents a s" "mq_waiters WaitingForMqNotFull q s' = tl (mq_waiters WaitingForMqNotFull q s)"
    "runnable s' = runnable s + woken WaitingForMqNotFull q s"
    "mq_waiters WaitingForMqNotFull q s = [] \<longrightarrow> lists s' = lists s"
proof -
  let ?l = WaitingForMqNotFull
  define s1 where "s1 = mq_msgfree m s"
  note f = mq_msgfree_post [OF inv un, folded s1_def]
  have w: "mq_waiters ?l q s1 = mq_waiters ?l q s" by (simp add: mq_waiters_def f)
  obtain s2 where s2: "(if nwaitnotfull (mqs s1 q) > 0 then mq_wake ?l q (one_less ?l) s1 else Some (False, s1)) = Some (False, s2)"
    "mq_inv idle s2" "mq_waiters ?l q s2 = tl (mq_waiters ?l q s1)" "runnable s2 = runnable s1 + woken ?l q s1"
    "\<forall>a. contents a s2 = contents a s1" "mq_waiters ?l q s1 = [] \<longrightarrow> lists s2 = lists s1"
    by (rule mq_wake_if_post [OF f(1), of ?l "nwaitnotfull (mqs s1 q)" q]) (use irq lock f in auto)
  have "length (mail (msgs s m)) = MQ_MAX_BYTES" using inv by (simp add: mq_inv_def pool_okD(3))
  then have "mq_doreceive des m s = Some (Done (snd (as_sent s m), fst (as_sent s m)), s2)"
    using s2(1) len by (auto simp: mq_doreceive_def Let_def q s1_def [symmetric] one_less_eqs as_sent_def split: if_splits)
  then show thesis
    by (rule that) (use s2 w f contents_cong [OF f(5,6)] in \<open>simp_all add: woken_def\<close>)
qed

section \<open>An example\<close>

text \<open>Task 3 waits for queue 20 to become non-empty; queue 21 holds two messages; two messages are free.\<close>

definition ex_mail :: "8 word list \<Rightarrow> 8 word list" where
  "ex_mail xs = xs @ replicate (MQ_MAX_BYTES - length xs) 0"

definition ex_mq :: mqstate where
  "ex_mq = \<lparr>tcbs = (\<lambda>_. zero_tcb)
       (0 := zero_tcb\<lparr>task_state := TSTATE_TASK_READYTORUN\<rparr>,
        1 := zero_tcb\<lparr>pid := 1, sched_priority := 100, base_priority := 100, task_state := TSTATE_TASK_RUNNING\<rparr>,
        3 := zero_tcb\<lparr>pid := 3, sched_priority := 150, base_priority := 150, task_state := TSTATE_WAIT_MQNOTEMPTY,
               msgwaitq := Some 20\<rparr>),
     lists = (\<lambda>_. [])(ReadyToRun := [1, 0], WaitingForMqNotEmpty := [3]),
     g_lastpid = 3,
     g_pidhash = (\<lambda>i. if i \<in> {0, 1, 3} then \<lparr>ph_tcb = Some i, ph_pid = int i\<rparr> else \<lparr>ph_tcb = None, ph_pid = -1\<rparr>),
     current_regs = False, g_irqerrno = 0,
     mqs = (\<lambda>_. \<lparr>msglist = [], maxmsgs = 16, nmsgs = 0, nwaitnotfull = 0, nwaitnotempty = 0, maxmsgsize = 600,
         ntmqdes = None, ntpid = INVALID_PROCESS_ID, ntsigno = 0, ntvalue = 0\<rparr>)
       (20 := \<lparr>msglist = [], maxmsgs = 16, nmsgs = 0, nwaitnotfull = 0, nwaitnotempty = 1, maxmsgsize = 600,
         ntmqdes = None, ntpid = INVALID_PROCESS_ID, ntsigno = 0, ntvalue = 0\<rparr>,
        21 := \<lparr>msglist = [40, 41], maxmsgs = 2, nmsgs = 2, nwaitnotfull = 0, nwaitnotempty = 0, maxmsgsize = 8,
         ntmqdes = None, ntpid = INVALID_PROCESS_ID, ntsigno = 0, ntvalue = 0\<rparr>),
     msgs = (\<lambda>_. \<lparr>mtype = MQ_ALLOC_FIXED, priority = 0, msglen = 0, mail = ex_mail []\<rparr>)
       (40 := \<lparr>mtype = MQ_ALLOC_FIXED, priority = 5, msglen = 2, mail = ex_mail [7, 8]\<rparr>,
        41 := \<lparr>mtype = MQ_ALLOC_FIXED, priority = 2, msglen = 1, mail = ex_mail [9]\<rparr>),
     g_msgfree = [42, 43], g_msgfreeirq = []\<rparr>"

lemma ex_mq_sched: "sched_inv 0 ex_mq"
proof -
  have "lists_ok ex_mq" unfolding lists_ok_def
    by (auto simp: ex_mq_def zero_tcb_def descending_def split: if_splits)
  then show ?thesis
    by (auto simp: sched_inv_def pend_ok_def core_defs ex_mq_def zero_tcb_def SCHED_PRIORITY_MIN_def SCHED_PRIORITY_MAX_def)
qed

lemma ex_mq_inv: "mq_inv 0 ex_mq"
proof -
  have mail: "length (mail (msgs ex_mq n)) = MQ_MAX_BYTES" for n
    by (simp add: ex_mq_def ex_mail_def MQ_MAX_BYTES_def)
  have pl: "at_place p ex_mq = (if p = Queue 21 then [40, 41] else if p = Free then [42, 43] else [])" for p
    by (cases p) (simp_all add: at_place.simps ex_mq_def)
  have "pool_ok ex_mq"
    by (rule pool_okI) (auto simp: pl mail split: if_splits, auto simp: ex_mq_def MQ_MAX_BYTES_def)
  moreover have "queue_ok q ex_mq" for q
    by (auto simp: queue_ok_def mq_waiters_def ex_mq_def zero_tcb_def descending_def MQ_MAX_BYTES_def)
  ultimately show ?thesis using ex_mq_sched by (simp add: mq_inv_def)
qed

section \<open>Properties\<close>

text \<open>
  C9. \<open>mq_send\<close> to a queue with room returns \<open>OK\<close>, unless a task with higher priority gets the processor at the
  final \<open>sched_unlock\<close>, which takes a waiting receiver or a pending task. Either way the message stands in
  its queue behind all messages of the same or a higher priority and before those of a lower one, cut to the given
  length; no other queue changes, the first task waiting for the queue to become non-empty, if there is one, stops
  waiting and is runnable, and the invariant of scheduler, queues and message pool is kept.
\<close>

theorem mq_send_correct:
  assumes inv: "mq_inv idle s" and irq: "\<not> current_regs s"
    and lock: "lockcount (tcbs s (hd (g_readytorun s))) + 1 < MAX_LOCK_COUNT"
    and q: "msgq des = q" "oflags des AND O_WROK \<noteq> 0" "\<not> mq_full q s" "ntmqdes (mqs s q) = None"
    and msg: "len \<le> length bytes" "len \<le> maxmsgsize (mqs s q)" "0 \<le> p" "p \<le> MQ_PRIO_MAX"
    and mem: "g_msgfree s = [] \<Longrightarrow> \<exists>m. mem = Some m \<and> unused m s"
  shows "\<exists>r s'. mq_send sig mem (Some des) (Some bytes) len p s = Some (r, s') \<and> mq_inv idle s'
    \<and> (r = Done OK \<or> r = Switched \<and> (mq_waiters WaitingForMqNotEmpty q s \<noteq> [] \<or> g_pendingtasks s \<noteq> []))
    \<and> (\<forall>a. contents a s' = (if a = q then prio_insert fst (nat p, take len bytes) (contents q s) else contents a s))
    \<and> mq_waiters WaitingForMqNotEmpty q s' = tl (mq_waiters WaitingForMqNotEmpty q s)
    \<and> runnable s' = runnable s + woken WaitingForMqNotEmpty q s"
proof -
  let ?l = WaitingForMqNotEmpty
  have ok: "queue_ok q s" using inv by (simp add: mq_inv_def)
  have n0: "0 \<le> lockcount (tcbs s (hd (g_readytorun s)))"
    using inv by (simp add: mq_inv_def sched_inv_def sched_core_def locks_ok_def)
  obtain s1 where s1: "sched_lock s = Some s1" "mq_inv idle s1" "lists s1 = lists s" "kstate.more s1 = kstate.more s"
    "\<not> current_regs s1" "waits_kept s s1" "\<forall>t. prio s1 t = prio s t"
    "lockcount (tcbs s1 (hd (g_readytorun s))) = lockcount (tcbs s (hd (g_readytorun s))) + 1"
    by (rule mq_lock [OF inv irq]) (use lock in auto)
  note m1 = more_mq [OF s1(4)]
  have mem1: "\<exists>m. mem = Some m \<and> unused m s1" if "g_msgfree s1 = []"
    using mem that m1 by (simp add: unused_def at_place_cong [OF m1(1,3,4)])
  obtain m s2 where s2: "mq_msgalloc mem s1 = Some (Some m, s2)" "mq_inv idle s2" "unused m s2" "tcbs s2 = tcbs s1"
    "lists s2 = lists s1" "\<not> current_regs s2" "mqs s2 = mqs s1" "\<forall>a. contents a s2 = contents a s1"
    by (rule mq_msgalloc_post [OF s1(2,5) mem1])
  have w2: "mq_waiters ?l q s2 = mq_waiters ?l q s" using s1(3,6) s2(4,5) by (simp add: mq_waiters_def waits_kept_def)
  have pre: "nmsgs (mqs s2 q) < 32767" "len \<le> MQ_MAX_BYTES" "ntmqdes (mqs s2 q) = None"
    using ok q(3,4) msg(2) s2(7) m1 by (auto simp: queue_ok_def Let_def mq_full_def)
  obtain s3 where s3: "mq_dosend sig des m bytes len p s2 = Some (Done OK, s3)" "mq_inv idle s3"
    "\<forall>a. contents a s3 = (if a = q then prio_insert fst (nat p, take len bytes) (contents q s2) else contents a s2)"
    "mq_waiters ?l q s3 = tl (mq_waiters ?l q s2)" "runnable s3 = runnable s2 + woken ?l q s2" "\<not> current_regs s3"
    "mq_waiters ?l q s2 = [] \<longrightarrow> lists s3 = lists s2"
    by (rule mq_dosend_post [OF s2(2,6) _ _ s2(3) q(1) pre(3,1) msg(1) pre(2), where p = p and sig = sig])
      (use s1(3,8) s2(4,5) lock n0 in auto)
  obtain u s4 where s4: "sched_unlock s3 = Some (u, s4)" "mq_inv idle s4" "u = Done OK \<or> u = Switched"
    "runnable s4 = runnable s3" "kstate.more s4 = kstate.more s3" "waits_kept s3 s4" "current_regs s4 = current_regs s3" "g_pendingtasks s3 = [] \<longrightarrow> u = Done OK"
    by (rule mq_unlock [OF s3(2)])
  have full1: "\<not> mq_full q s1" using q(3) m1 by (simp add: mq_full_def)
  have "mq_send sig mem (Some des) (Some bytes) len p s = Some (u, s4)"
    using q(1,2) msg full1 s1(1) s2(1) s3(1) s4(1,3)
    by (auto simp: mq_send_def mq_verifysend_def mq_send_finish_def)
  moreover have "contents a s4 = contents a s3" for a using more_mq [OF s4(5)] by (simp add: contents_def)
  moreover have "woken ?l q s2 = woken ?l q s" using w2 by (simp add: woken_def)
  moreover have "u = Done OK" if "mq_waiters ?l q s = []" "g_pendingtasks s = []"
    using that s4(8) s3(7) w2 s2(5) s1(3) by simp
  ultimately show ?thesis
    using s4(2-6) s3 w2 s2(5,8) s1(3) contents_cong [OF m1(1,2)] waits_kept_waiters [OF s4(6), of ?l q] by auto
qed

theorem mq_send_correct_witness:
  "\<exists>r s'. mq_send (\<lambda>_ _ _. Some) None (Some \<lparr>msgq = 20, oflags = O_WROK\<rparr>) (Some [1, 2, 3]) 2 7 ex_mq = Some (r, s')
    \<and> mq_inv 0 s' \<and> contents 20 s' = [(7, [1, 2])] \<and> contents 21 s' = [(5, [7, 8]), (2, [9])]
    \<and> mq_waiters WaitingForMqNotEmpty 20 s' = [] \<and> runnable s' = {#0, 1, 3#}"
proof -
  have c: "contents 20 ex_mq = []" "contents 21 ex_mq = [(5, [7, 8]), (2, [9])]"
    "mq_waiters WaitingForMqNotEmpty 20 ex_mq = [3]" "runnable ex_mq = {#0, 1#}"
    by (simp_all add: ex_mq_def contents_def ex_mail_def mq_waiters_def zero_tcb_def)
  have h: "\<not> current_regs ex_mq" "lockcount (tcbs ex_mq (hd (g_readytorun ex_mq))) + 1 < MAX_LOCK_COUNT"
    "\<not> mq_full 20 ex_mq" "ntmqdes (mqs ex_mq 20) = None" "2 \<le> maxmsgsize (mqs ex_mq 20)" "g_msgfree ex_mq \<noteq> []"
    by (simp_all add: ex_mq_def zero_tcb_def MAX_LOCK_COUNT_def mq_full_def)
  note sent = mq_send_correct [OF ex_mq_inv h(1,2) _ _ h(3,4) _ h(5), where des = "\<lparr>msgq = 20, oflags = O_WROK\<rparr>"
      and bytes = "[1, 2, 3]" and p = 7 and mem = None and sig = "\<lambda>_ _ _. Some"]
  obtain r s' where s': "mq_send (\<lambda>_ _ _. Some) None (Some \<lparr>msgq = 20, oflags = O_WROK\<rparr>) (Some [1, 2, 3]) 2 7 ex_mq = Some (r, s')"
    "mq_inv 0 s'" "\<forall>a. contents a s' = (if a = 20 then prio_insert fst (nat 7, take 2 [1, 2, 3]) (contents 20 ex_mq) else contents a ex_mq)"
    "mq_waiters WaitingForMqNotEmpty 20 s' = tl (mq_waiters WaitingForMqNotEmpty 20 ex_mq)"
    "runnable s' = runnable ex_mq + woken WaitingForMqNotEmpty 20 ex_mq"
    using sent h(6) by (simp add: O_WROK_def MQ_PRIO_MAX_def) blast
  show ?thesis
    by (intro exI conjI, rule s'(1), rule s'(2)) (use s'(3-5) c in \<open>simp_all add: woken_def prio_insert_def\<close>)
qed


end
