(* ===== verification/Wdog.thy ===== *)
theory Wdog
  imports Semaphore
begin

text \<open>
  Watchdog timers (src/os/kernel/wdog): the pool of timers, the list of active timers and the timer
  interrupt. Each active timer stores its delay relative to the timer before it. The routine a timer runs
  when it expires is a parameter: a function of the code address, the arguments and the state. The
  address \<open>kmm_malloc\<close> returns is an argument of \<open>wd_create\<close>; memory given to \<open>sched_kfree\<close> is not used
  again by this code. The configuration has \<open>CONFIG_PREALLOC_WDOGS = 32\<close>, \<open>CONFIG_WDOG_INTRESERVE = 4\<close>,
  \<open>CONFIG_MAX_WDOGPARMS = 4\<close>, debug assertions on and no tickless mode. The watchdog lists are singly linked
  queues; as with the task lists, a queue is the list of its addresses (\<open>sq_rep\<close> of theory \<open>Lib_Queue\<close>).
\<close>

section \<open>Data\<close>

record wdog =
  w_func :: nat
  w_lag :: int
  w_flags :: "8 word"
  w_argc :: nat
  w_parm :: "32 word list"

record wdstate = semstate +
  wdogs :: "addr \<Rightarrow> wdog"
  g_wdfreelist :: "addr list"
  g_wdactivelist :: "addr list"
  g_wdnfree :: nat

definition CONFIG_PREALLOC_WDOGS :: nat where "CONFIG_PREALLOC_WDOGS = 32"
definition CONFIG_WDOG_INTRESERVE :: nat where "CONFIG_WDOG_INTRESERVE = 4"
definition CONFIG_MAX_WDOGPARMS :: nat where "CONFIG_MAX_WDOGPARMS = 4"
definition WDOGF_ACTIVE :: "8 word" where "WDOGF_ACTIVE = 1"
definition WDOGF_ALLOCED :: "8 word" where "WDOGF_ALLOCED = 2"
definition WDOGF_STATIC :: "8 word" where "WDOGF_STATIC = 4"
definition INT_MAX :: int where "INT_MAX = 2147483647"

definition upd_wdog :: "addr \<Rightarrow> (wdog \<Rightarrow> wdog) \<Rightarrow> 'z wdstate_scheme \<Rightarrow> 'z wdstate_scheme" where
  "upd_wdog w f s = s\<lparr>wdogs := (wdogs s)(w := f (wdogs s w))\<rparr>"

abbreviation lag :: "'z wdstate_scheme \<Rightarrow> addr \<Rightarrow> int" where
  "lag s w \<equiv> w_lag (wdogs s w)"

definition set_lag :: "addr \<Rightarrow> int \<Rightarrow> 'z wdstate_scheme \<Rightarrow> 'z wdstate_scheme" where
  "set_lag w n s = upd_wdog w (\<lambda>d. d\<lparr>w_lag := n\<rparr>) s"

definition WDOG_ISACTIVE :: "'z wdstate_scheme \<Rightarrow> addr \<Rightarrow> bool" where
  "WDOG_ISACTIVE s w = (w_flags (wdogs s w) AND WDOGF_ACTIVE \<noteq> 0)"

definition WDOG_SETACTIVE :: "addr \<Rightarrow> 'z wdstate_scheme \<Rightarrow> 'z wdstate_scheme" where
  "WDOG_SETACTIVE w s = upd_wdog w (\<lambda>d. d\<lparr>w_flags := w_flags d OR WDOGF_ACTIVE\<rparr>) s"

definition WDOG_CLRACTIVE :: "addr \<Rightarrow> 'z wdstate_scheme \<Rightarrow> 'z wdstate_scheme" where
  "WDOG_CLRACTIVE w s = upd_wdog w (\<lambda>d. d\<lparr>w_flags := w_flags d AND NOT WDOGF_ACTIVE\<rparr>) s"

section \<open>Operations\<close>

text \<open>\<open>g_wdpool\<close> is the array of the pre-allocated timers.\<close>

definition wd_initialize :: "(nat \<Rightarrow> addr) \<Rightarrow> 'z wdstate_scheme \<Rightarrow> 'z wdstate_scheme" where
  "wd_initialize g_wdpool s =
     s\<lparr>g_wdfreelist := fold (\<lambda>i ws. ws @ [g_wdpool i]) [0..<CONFIG_PREALLOC_WDOGS] [],
       g_wdactivelist := [], g_wdnfree := CONFIG_PREALLOC_WDOGS\<rparr>"

text \<open>The first argument is the result of the call of \<open>kmm_malloc\<close>, if it comes to that.\<close>

definition wd_create :: "ptr \<Rightarrow> 'z wdstate_scheme \<Rightarrow> (ptr \<times> 'z wdstate_scheme) option" where
  "wd_create m s =
     (if g_wdnfree s > CONFIG_WDOG_INTRESERVE \<or> current_regs s
      then case g_wdfreelist s of
             wdog # rest \<Rightarrow> do {
               ASSERT (g_wdnfree s > 0);
               Some (Some wdog, upd_wdog wdog (\<lambda>d. d\<lparr>w_flags := 0\<rparr>)
                      (s\<lparr>g_wdfreelist := rest, g_wdnfree := g_wdnfree s - 1\<rparr>))
             }
           | [] \<Rightarrow> do { ASSERT (g_wdnfree s = 0); Some (None, s) }
      else Some (m, case m of None \<Rightarrow> s | Some wdog \<Rightarrow> upd_wdog wdog (\<lambda>d. d\<lparr>w_flags := WDOGF_ALLOCED\<rparr>) s))"

text \<open>
  \<open>wd_cancel\<close>: the search leaves the timers before the one to cancel and the rest of the list from it
  on; an empty rest fails \<open>ASSERT(curr)\<close>. The next timer inherits the remaining ticks.
\<close>

definition wd_cancel :: "ptr \<Rightarrow> 'z wdstate_scheme \<Rightarrow> (int \<times> 'z wdstate_scheme) option" where
  "wd_cancel p s =
     (case p of
        None \<Rightarrow> Some (ERROR, s)
      | Some wdog \<Rightarrow>
          if WDOG_ISACTIVE s wdog
          then
            let before = takeWhile (\<lambda>w. w \<noteq> wdog) (g_wdactivelist s);
                rest = dropWhile (\<lambda>w. w \<noteq> wdog) (g_wdactivelist s)
            in case rest of
                 [] \<Rightarrow> None
               | cur # after \<Rightarrow>
                   let s = (case after of [] \<Rightarrow> s | nxt # _ \<Rightarrow> set_lag nxt (lag s nxt + lag s cur) s);
                       s = s\<lparr>g_wdactivelist := before @ after\<rparr>
                   in Some (OK, WDOG_CLRACTIVE wdog s)
          else Some (ERROR, s))"

text \<open>The two searches of \<open>wd_start\<close>: past negative times, then past the shorter delays.\<close>

fun advance_positive :: "(addr \<Rightarrow> int) \<Rightarrow> int \<Rightarrow> addr list \<Rightarrow> addr \<Rightarrow> addr list \<Rightarrow> int \<times> addr list \<times> addr \<times> addr list" where
  "advance_positive lg now before cur rest =
     (let now = now + lg cur
      in case rest of
           nxt # rest' \<Rightarrow> if now < 0 then advance_positive lg now (before @ [cur]) nxt rest'
                          else (now, before, cur, rest)
         | [] \<Rightarrow> (now, before, cur, rest))"

fun advance_shorter :: "(addr \<Rightarrow> int) \<Rightarrow> int \<Rightarrow> int \<Rightarrow> addr list \<Rightarrow> addr \<Rightarrow> addr list \<Rightarrow> int \<times> addr list \<times> addr \<times> addr list" where
  "advance_shorter lg delay now before cur [] = (now, before, cur, [])"
| "advance_shorter lg delay now before cur (nxt # rest) =
     (if now \<le> delay then advance_shorter lg delay (now + lg nxt) (before @ [cur]) nxt rest
      else (now, before, cur, nxt # rest))"

text \<open>The insertion into the list of active timers: the delay to store and the state.\<close>

definition wd_insert :: "addr \<Rightarrow> int \<Rightarrow> 'z wdstate_scheme \<Rightarrow> int \<times> 'z wdstate_scheme" where
  "wd_insert wdog delay s =
     (case g_wdactivelist s of
        [] \<Rightarrow> (delay, s\<lparr>g_wdactivelist := [wdog]\<rparr>)
      | head # tail \<Rightarrow>
          let (now, before, cur, rest) = advance_positive (lag s) 0 [] head tail;
              (now, before, cur, rest) = advance_shorter (lag s) delay now before cur rest
          in if delay < now
             then let delay = delay - (now - lag s cur);
                      s = set_lag cur (lag s cur - delay) s
                  in (delay, s\<lparr>g_wdactivelist := before @ wdog # cur # rest\<rparr>)
             else let delay = delay - now
                  in case rest of
                       [] \<Rightarrow> (delay, s\<lparr>g_wdactivelist := before @ [cur, wdog]\<rparr>)
                     | nxt # _ \<Rightarrow>
                         (delay, (set_lag nxt (lag s nxt - delay) s)\<lparr>g_wdactivelist := before @ cur # wdog # rest\<rparr>))"

definition wd_start :: "ptr \<Rightarrow> int \<Rightarrow> nat \<Rightarrow> 32 word list \<Rightarrow> 'z wdstate_scheme \<Rightarrow> (int \<times> 'z wdstate_scheme) option" where
  "wd_start p delay wdentry args s =
     (case p of
        None \<Rightarrow> Some (ERROR, set_errno EINVAL s)
      | Some wdog \<Rightarrow>
          if length args > CONFIG_MAX_WDOGPARMS \<or> delay < 0 then Some (ERROR, set_errno EINVAL s)
          else do {
            (_, s) \<leftarrow> (if WDOG_ISACTIVE s wdog then wd_cancel (Some wdog) s else Some (OK, s));
            let s = upd_wdog wdog (\<lambda>d. d\<lparr>w_func := wdentry, w_argc := length args,
                      w_parm := args @ replicate (CONFIG_MAX_WDOGPARMS - length args) 0\<rparr>) s;
            let delay = (if delay \<le> 0 then 1 else delay);
            let (delay, s) = wd_insert wdog delay s;
            Some (OK, WDOG_SETACTIVE wdog (set_lag wdog delay s))
          })"

text \<open>
  \<open>wd_expiration\<close>: as long as the timer at the head is due, it is removed and its routine runs. The
  routine may start and cancel timers, so the loop reads the list anew each time.
\<close>

partial_function (option) wd_expiration ::
  "(nat \<Rightarrow> 32 word list \<Rightarrow> 'z wdstate_scheme \<Rightarrow> 'z wdstate_scheme option) \<Rightarrow> 'z wdstate_scheme \<Rightarrow> 'z wdstate_scheme option" where
  "wd_expiration run s =
     (case g_wdactivelist s of
        [] \<Rightarrow> Some s
      | wdog # rest \<Rightarrow>
          if lag s wdog \<le> 0
          then let s = s\<lparr>g_wdactivelist := rest\<rparr>;
                   s = (case rest of [] \<Rightarrow> s | nxt # _ \<Rightarrow> set_lag nxt (lag s nxt + lag s wdog) s);
                   s = WDOG_CLRACTIVE wdog s
               in Option.bind
                    (if w_argc (wdogs s wdog) \<le> CONFIG_MAX_WDOGPARMS
                     then run (w_func (wdogs s wdog)) (take (w_argc (wdogs s wdog)) (w_parm (wdogs s wdog))) s
                     else None)
                    (wd_expiration run)
          else Some s)"

definition wd_timer :: "(nat \<Rightarrow> 32 word list \<Rightarrow> 'z wdstate_scheme \<Rightarrow> 'z wdstate_scheme option)
    \<Rightarrow> 'z wdstate_scheme \<Rightarrow> 'z wdstate_scheme option" where
  "wd_timer run s =
     (case g_wdactivelist s of
        [] \<Rightarrow> Some s
      | wdog # _ \<Rightarrow> wd_expiration run (set_lag wdog (lag s wdog - 1) s))"

fun gettime_loop :: "(addr \<Rightarrow> int) \<Rightarrow> addr \<Rightarrow> int \<Rightarrow> addr list \<Rightarrow> int" where
  "gettime_loop lg wdog delay [] = 0"
| "gettime_loop lg wdog delay (cur # rest) =
     (if cur = wdog then delay + lg cur else gettime_loop lg wdog (delay + lg cur) rest)"

definition wd_gettime :: "ptr \<Rightarrow> 'z wdstate_scheme \<Rightarrow> int" where
  "wd_gettime p s =
     (case p of
        None \<Rightarrow> 0
      | Some wdog \<Rightarrow> if WDOG_ISACTIVE s wdog then gettime_loop (lag s) wdog 0 (g_wdactivelist s) else 0)"

definition wd_delete :: "addr \<Rightarrow> 'z wdstate_scheme \<Rightarrow> (int \<times> 'z wdstate_scheme) option" where
  "wd_delete wdog s = do {
     (_, s) \<leftarrow> (if WDOG_ISACTIVE s wdog then wd_cancel (Some wdog) s else Some (OK, s));
     if w_flags (wdogs s wdog) AND WDOGF_ALLOCED \<noteq> 0 then Some (OK, s)
     else if w_flags (wdogs s wdog) AND WDOGF_STATIC = 0
     then do {
       let s = s\<lparr>g_wdfreelist := g_wdfreelist s @ [wdog], g_wdnfree := g_wdnfree s + 1\<rparr>;
       ASSERT (g_wdnfree s \<le> CONFIG_PREALLOC_WDOGS);
       Some (OK, s)
     }
     else Some (OK, s)
   }"

definition wd_recover :: "addr \<Rightarrow> 'z wdstate_scheme \<Rightarrow> 'z wdstate_scheme option" where
  "wd_recover tcb s =
     (case waitdog (tcbs s tcb) of
        None \<Rightarrow> Some s
      | Some wdog \<Rightarrow> do {
          (_, s) \<leftarrow> wd_cancel (Some wdog) s;
          (_, s) \<leftarrow> wd_delete wdog s;
          Some (upd_tcb tcb (\<lambda>b. b\<lparr>waitdog := None\<rparr>) s)
        })"

end
