(* ===== verification/Wdog_Spec.thy ===== *)
theory Wdog_Spec
  imports Wdog Semaphore_Spec
begin

text \<open>
  The delta list of the watchdog timers implements a list of timers with their remaining times: starting
  inserts by remaining time, cancelling removes, the timer interrupt counts every remaining time down and
  runs the timers that reach zero. The contract of the timer routines is a locale; its interpretation is
  on the routine of the timed semaphore wait (theory \<open>Sem_Timed\<close>).
\<close>

section \<open>The remaining times\<close>

fun deadlines :: "(addr \<Rightarrow> int) \<Rightarrow> int \<Rightarrow> addr list \<Rightarrow> (addr \<times> int) list" where
  "deadlines lg t [] = []"
| "deadlines lg t (w # ws) = (w, t + lg w) # deadlines lg (t + lg w) ws"

abbreviation timers :: "'z wdstate_scheme \<Rightarrow> (addr \<times> int) list" where
  "timers s \<equiv> deadlines (lag s) 0 (g_wdactivelist s)"

text \<open>The order of the timers: the key of the prioritized list is the remaining time, the smallest first.\<close>

abbreviation urgency :: "addr \<times> int \<Rightarrow> int" where
  "urgency e \<equiv> - snd e"

lemma map_fst_deadlines [simp]: "map fst (deadlines lg t ws) = ws"
  by (induction ws arbitrary: t) simp_all

lemma fst_deadlines: "(w, d) \<in> set (deadlines lg t ws) \<Longrightarrow> w \<in> set ws"
  by (metis map_fst_deadlines fst_conv image_eqI set_map)

lemma deadlines_Nil [simp]: "(deadlines lg t ws = []) = (ws = [])"
  by (cases ws) simp_all

lemma deadlines_cong: "(\<And>w. w \<in> set ws \<Longrightarrow> lg w = lg' w) \<Longrightarrow> deadlines lg t ws = deadlines lg' t ws"
  by (induction ws arbitrary: t) simp_all

lemma deadlines_append:
  "deadlines lg t (us @ ws) = deadlines lg t us @ deadlines lg (t + sum_list (map lg us)) ws"
  by (induction us arbitrary: t) (simp_all add: add.assoc)

lemma deadlines_shift: "deadlines lg (t + k) ws = map (\<lambda>(w, d). (w, d + k)) (deadlines lg t ws)"
proof (induction ws arbitrary: t)
  case Nil
  then show ?case by simp
next
  case (Cons w ws)
  then show ?case using Cons [of "t + lg w"] by (simp add: add_ac)
qed

lemma deadlines_ge: "(\<And>w. w \<in> set ws \<Longrightarrow> 0 \<le> lg w) \<Longrightarrow> (v, d) \<in> set (deadlines lg t ws) \<Longrightarrow> t \<le> d"
  by (induction ws arbitrary: t) force+

lemma deadlines_sorted:
  "(\<And>w. w \<in> set ws \<Longrightarrow> 0 \<le> lg w) \<Longrightarrow> descending urgency (deadlines lg t ws)"
proof (induction ws arbitrary: t)
  case Nil
  then show ?case by simp
next
  case (Cons w ws)
  have "t + lg w \<le> d" if "(v, d) \<in> set (deadlines lg (t + lg w) ws)" for v d
    by (rule deadlines_ge [OF _ that]) (use Cons.prems in simp)
  then show ?case using Cons by fastforce
qed

text \<open>
  Inserting a timer in front of another one, which gives up what the new one takes, and removing one,
  whose rest the next one inherits, change no other remaining time.
\<close>

lemma deadlines_insert:
  assumes w: "w \<notin> set us" "w \<noteq> c" "w \<notin> set ws" and c: "c \<notin> set us" "c \<notin> set ws"
    and d: "d = t + sum_list (map lg us) + k"
  shows "deadlines (lg(c := lg c - k, w := k)) t (us @ w # c # ws)
     = deadlines lg t us @ (w, d) # deadlines lg (t + sum_list (map lg us)) (c # ws)"
proof -
  let ?l = "lg(c := lg c - k, w := k)"
  have us: "map ?l us = map lg us" using w c by auto
  have "deadlines ?l t us = deadlines lg t us" "deadlines ?l u ws = deadlines lg u ws" for u
    by (rule deadlines_cong; use w c in auto)+
  then show ?thesis using w d by (simp add: deadlines_append us add_ac del: map_map)
qed

lemma deadlines_remove:
  assumes c: "c \<notin> set us" "c \<notin> set (n # ws)" "n \<notin> set us" "n \<notin> set ws"
  shows "deadlines (lg(n := lg n + lg c)) t (us @ n # ws)
     = deadlines lg t us @ deadlines lg (t + sum_list (map lg us) + lg c) (n # ws)"
proof -
  have us: "map (lg(n := x)) us = map lg us" for x using c by auto
  have "deadlines (lg(n := x)) t us = deadlines lg t us" "deadlines (lg(n := x)) u ws = deadlines lg u ws" for x u
    by (rule deadlines_cong; use c in auto)+
  then show ?thesis by (simp add: deadlines_append us add_ac del: map_map)
qed

section \<open>Invariant\<close>

text \<open>
  \<open>pool\<close> holds the pre-allocated timers. A timer is in the active list exactly while it is marked active;
  the stored delays are not negative, and every remaining time fits an \<open>int\<close>.
\<close>

definition wd_ok :: "addr set \<Rightarrow> 'z wdstate_scheme \<Rightarrow> bool" where
  "wd_ok pool s =
     (distinct (g_wdactivelist s)
      \<and> (\<forall>w. WDOG_ISACTIVE s w \<longleftrightarrow> w \<in> set (g_wdactivelist s))
      \<and> (\<forall>w \<in> set (g_wdactivelist s). 0 \<le> lag s w \<and> w_argc (wdogs s w) \<le> CONFIG_MAX_WDOGPARMS)
      \<and> (\<forall>(w, d) \<in> set (timers s). d \<le> INT_MAX)
      \<and> distinct (g_wdfreelist s) \<and> set (g_wdfreelist s) \<subseteq> pool \<and> set (g_wdfreelist s) \<inter> set (g_wdactivelist s) = {}
      \<and> g_wdnfree s = length (g_wdfreelist s) \<and> finite pool \<and> card pool = CONFIG_PREALLOC_WDOGS)"

lemma wd_okD:
  assumes "wd_ok pool s"
  shows "distinct (g_wdactivelist s)" "WDOG_ISACTIVE s w \<longleftrightarrow> w \<in> set (g_wdactivelist s)"
    "w \<in> set (g_wdactivelist s) \<Longrightarrow> 0 \<le> lag s w" "w \<in> set (g_wdactivelist s) \<Longrightarrow> w_argc (wdogs s w) \<le> CONFIG_MAX_WDOGPARMS"
    "(w, d) \<in> set (timers s) \<Longrightarrow> d \<le> INT_MAX"
  using assms by (auto simp: wd_ok_def)

lemma wd_obs [simp]:
  "g_wdactivelist (set_lag w n s) = g_wdactivelist s" "g_wdactivelist (WDOG_SETACTIVE w s) = g_wdactivelist s"
  "g_wdactivelist (WDOG_CLRACTIVE w s) = g_wdactivelist s" "g_wdactivelist (upd_wdog w f s) = g_wdactivelist s"
  "g_wdfreelist (set_lag w n s) = g_wdfreelist s" "g_wdfreelist (WDOG_SETACTIVE w s) = g_wdfreelist s"
  "g_wdfreelist (WDOG_CLRACTIVE w s) = g_wdfreelist s" "g_wdfreelist (upd_wdog w f s) = g_wdfreelist s"
  "g_wdnfree (set_lag w n s) = g_wdnfree s" "g_wdnfree (WDOG_SETACTIVE w s) = g_wdnfree s"
  "g_wdnfree (WDOG_CLRACTIVE w s) = g_wdnfree s" "g_wdnfree (upd_wdog w f s) = g_wdnfree s"
  "lag (WDOG_SETACTIVE w s) a = lag s a" "lag (WDOG_CLRACTIVE w s) a = lag s a"
  "lag (set_lag w n s) = (lag s)(w := n)"
  "WDOG_ISACTIVE (set_lag w n s) a = WDOG_ISACTIVE s a"
  "WDOG_ISACTIVE (s\<lparr>g_wdactivelist := xs\<rparr>) a = WDOG_ISACTIVE s a"
  "w_argc (wdogs (set_lag w n s) a) = w_argc (wdogs s a)"
  "w_argc (wdogs (WDOG_SETACTIVE w s) a) = w_argc (wdogs s a)" "w_argc (wdogs (WDOG_CLRACTIVE w s) a) = w_argc (wdogs s a)"
  "wdogs (upd_wdog w f s) = (wdogs s)(w := f (wdogs s w))"
  by (auto simp: set_lag_def WDOG_SETACTIVE_def WDOG_CLRACTIVE_def upd_wdog_def WDOG_ISACTIVE_def fun_eq_iff)

lemma lag_set_lag: "lag (set_lag w n s) a = (if a = w then n else lag s a)"
  by (simp add: set_lag_def)

lemma active_bit:
  fixes x :: "8 word"
  shows "(x OR 1) AND 1 = 1" "(x AND NOT 1) AND 1 = 0"
  by (rule bit_word_eqI; simp add: bit_simps, blast?)+

lemma active_flag [simp]:
  "WDOG_ISACTIVE (WDOG_SETACTIVE w s) a = (a = w \<or> WDOG_ISACTIVE s a)"
  "WDOG_ISACTIVE (WDOG_CLRACTIVE w s) a = (a \<noteq> w \<and> WDOG_ISACTIVE s a)"
  using active_bit by (auto simp: WDOG_ISACTIVE_def WDOG_SETACTIVE_def WDOG_CLRACTIVE_def upd_wdog_def WDOGF_ACTIVE_def)

text \<open>What the operations on the list of active timers leave alone.\<close>

definition wd_rest :: "'z wdstate_scheme \<Rightarrow> 'z wdstate_scheme" where
  "wd_rest s = s\<lparr>wdogs := (\<lambda>a. (wdogs s a)\<lparr>w_lag := 0, w_flags := w_flags (wdogs s a) AND NOT WDOGF_ACTIVE\<rparr>),
     g_wdactivelist := []\<rparr>"

lemma and_not_twice:
  fixes x :: "8 word"
  shows "(x AND NOT m) AND NOT m = x AND NOT m" "(x OR m) AND NOT m = x AND NOT m"
  by (rule bit_word_eqI; simp add: bit_simps, blast?)+

lemma wd_rest_upd [simp]:
  "wd_rest (set_lag w n s) = wd_rest s" "wd_rest (WDOG_CLRACTIVE w s) = wd_rest s"
  "wd_rest (WDOG_SETACTIVE w s) = wd_rest s" "wd_rest (s\<lparr>g_wdactivelist := xs\<rparr>) = wd_rest s"
  by (auto simp: wd_rest_def set_lag_def WDOG_CLRACTIVE_def WDOG_SETACTIVE_def upd_wdog_def fun_eq_iff and_not_twice)

lemma wd_rest_obs:
  "g_wdfreelist (wd_rest s) = g_wdfreelist s" "g_wdnfree (wd_rest s) = g_wdnfree s"
  "w_func (wdogs (wd_rest s) a) = w_func (wdogs s a)" "w_argc (wdogs (wd_rest s) a) = w_argc (wdogs s a)"
  "w_parm (wdogs (wd_rest s) a) = w_parm (wdogs s a)" "semstate.more (wd_rest s) = semstate.more (wd_rest s)"
  "w_flags (wdogs (wd_rest s) a) = w_flags (wdogs s a) AND NOT WDOGF_ACTIVE"
  "tcbs (wd_rest s) = tcbs s" "lists (wd_rest s) = lists s" "current_regs (wd_rest s) = current_regs s"
  by (simp_all add: wd_rest_def)

lemma wd_rest_fields:
  assumes "wd_rest s' = wd_rest s"
  shows "g_wdfreelist s' = g_wdfreelist s" "g_wdnfree s' = g_wdnfree s"
    "w_func (wdogs s' a) = w_func (wdogs s a)" "w_argc (wdogs s' a) = w_argc (wdogs s a)"
    "w_parm (wdogs s' a) = w_parm (wdogs s a)"
    "w_flags (wdogs s' a) AND NOT WDOGF_ACTIVE = w_flags (wdogs s a) AND NOT WDOGF_ACTIVE"
    "tcbs s' = tcbs s" "lists s' = lists s" "current_regs s' = current_regs s"
  using wd_rest_obs [of s'] wd_rest_obs [of s] assms by metis+

text \<open>What all operations on timers leave alone: everything that is not part of the watchdog component.\<close>

definition wd_outer :: "'z wdstate_scheme \<Rightarrow> 'z wdstate_scheme" where
  "wd_outer s = s\<lparr>wdogs := undefined, g_wdfreelist := [], g_wdactivelist := [], g_wdnfree := 0\<rparr>"

lemma wd_outer_upd [simp]:
  "wd_outer (set_lag w n s) = wd_outer s" "wd_outer (WDOG_CLRACTIVE w s) = wd_outer s"
  "wd_outer (WDOG_SETACTIVE w s) = wd_outer s" "wd_outer (s\<lparr>g_wdactivelist := xs\<rparr>) = wd_outer s"
  "wd_outer (upd_wdog w f s) = wd_outer s" "wd_outer (s\<lparr>g_wdfreelist := xs, g_wdnfree := k\<rparr>) = wd_outer s"
  by (simp_all add: wd_outer_def set_lag_def WDOG_CLRACTIVE_def WDOG_SETACTIVE_def upd_wdog_def)

lemma wd_outer_rest:
  fixes s s' :: "'z wdstate_scheme"
  assumes r: "wd_rest s' = wd_rest s"
  shows "wd_outer s' = wd_outer s"
proof -
  have "wd_outer u = (wd_rest u)\<lparr>wdogs := undefined, g_wdfreelist := [], g_wdnfree := 0\<rparr>" for u :: "'z wdstate_scheme"
    by (simp add: wd_outer_def wd_rest_def)
  with r show ?thesis by simp
qed

lemma wd_outer_fields:
  fixes s s' :: "'z wdstate_scheme"
  assumes "wd_outer s' = wd_outer s"
  shows "tcbs s' = tcbs s" "lists s' = lists s" "current_regs s' = current_regs s" "g_pidhash s' = g_pidhash s"
    "sems s' = sems s" "holders s' = holders s" "g_freeholders s' = g_freeholders s" "wdstate.more s' = wdstate.more s"
proof -
  have obs: "tcbs (wd_outer u) = tcbs u" "lists (wd_outer u) = lists u" "current_regs (wd_outer u) = current_regs u"
    "g_pidhash (wd_outer u) = g_pidhash u" "sems (wd_outer u) = sems u" "holders (wd_outer u) = holders u"
    "g_freeholders (wd_outer u) = g_freeholders u" "wdstate.more (wd_outer u) = wdstate.more u" for u :: "'z wdstate_scheme"
    by (simp_all add: wd_outer_def)
  show "tcbs s' = tcbs s" "lists s' = lists s" "current_regs s' = current_regs s" "g_pidhash s' = g_pidhash s"
    "sems s' = sems s" "holders s' = holders s" "g_freeholders s' = g_freeholders s" "wdstate.more s' = wdstate.more s"
    by (simp_all only: obs [of s', symmetric] assms obs [of s])
qed

lemma wd_ok_relist:
  assumes ok: "wd_ok pool s" and r: "wd_rest s' = wd_rest s" and d: "distinct (g_wdactivelist s')"
    and a: "\<And>w. WDOG_ISACTIVE s' w \<longleftrightarrow> w \<in> set (g_wdactivelist s')"
    and l: "\<And>w. w \<in> set (g_wdactivelist s') \<Longrightarrow> 0 \<le> lag s' w"
    and n: "\<And>w. w \<in> set (g_wdactivelist s') \<Longrightarrow> w_argc (wdogs s w) \<le> CONFIG_MAX_WDOGPARMS \<and> w \<notin> set (g_wdfreelist s)"
    and t: "\<And>w d. (w, d) \<in> set (timers s') \<Longrightarrow> d \<le> INT_MAX"
  shows "wd_ok pool s'"
  using assms wd_rest_fields [OF r] unfolding wd_ok_def by auto

section \<open>Cancelling\<close>

lemma wd_cancel_post:
  assumes ok: "wd_ok pool s" and w: "w \<in> set (g_wdactivelist s)"
  obtains s' where "wd_cancel (Some w) s = Some (OK, s')" "wd_ok pool s'" "wd_rest s' = wd_rest s"
    "timers s' = filter (\<lambda>e. fst e \<noteq> w) (timers s)" "g_wdactivelist s' = remove1 w (g_wdactivelist s)"
proof -
  obtain us ws where l: "g_wdactivelist s = us @ w # ws" using w by (auto simp: in_set_conv_decomp)
  have dist: "distinct (us @ w # ws)" using wd_okD(1) [OF ok] l by simp
  have split: "takeWhile (\<lambda>a. a \<noteq> w) (us @ w # ws) = us" "dropWhile (\<lambda>a. a \<noteq> w) (us @ w # ws) = w # ws"
    using dist by (auto simp: takeWhile_append dropWhile_append)
  define s1 where "s1 = (case ws of [] \<Rightarrow> s | n # _ \<Rightarrow> set_lag n (lag s n + lag s w) s)"
  let ?s = "WDOG_CLRACTIVE w (s1\<lparr>g_wdactivelist := us @ ws\<rparr>)"
  have act: "WDOG_ISACTIVE s w" using wd_okD(2) [OF ok] w by simp
  have eq: "wd_cancel (Some w) s = Some (OK, ?s)"
    using act by (simp add: wd_cancel_def l split s1_def Let_def split: list.split)
  have "wd_rest s1 = wd_rest s" by (simp add: s1_def split: list.split)
  then have r: "wd_rest ?s = wd_rest s" by simp
  have filt: "filter (\<lambda>e. fst e \<noteq> w) (deadlines lg t us) = deadlines lg t us"
      "filter (\<lambda>e. fst e \<noteq> w) (deadlines lg t ws) = deadlines lg t ws" for lg t
    using dist by (auto simp: filter_id_conv dest: fst_deadlines)
  then have old: "filter (\<lambda>e. fst e \<noteq> w) (timers s)
      = deadlines (lag s) 0 us @ deadlines (lag s) (0 + sum_list (map (lag s) us) + lag s w) ws"
    by (simp add: l deadlines_append)
  have tm: "timers ?s = filter (\<lambda>e. fst e \<noteq> w) (timers s)"
  proof (cases ws)
    case Nil
    then show ?thesis by (simp add: s1_def old)
  next
    case (Cons n ns)
    have "deadlines ((lag s)(n := lag s n + lag s w)) 0 (us @ n # ns)
        = deadlines (lag s) 0 us @ deadlines (lag s) (0 + sum_list (map (lag s) us) + lag s w) (n # ns)"
      by (rule deadlines_remove) (use dist Cons in auto)
    then show ?thesis unfolding old using Cons by (simp add: s1_def)
  qed
  have "0 \<le> lag ?s a" if "a \<in> set (us @ ws)" for a
    using that wd_okD(3) [OF ok] l by (cases ws) (auto simp: s1_def lag_set_lag)
  moreover have "WDOG_ISACTIVE ?s a \<longleftrightarrow> a \<in> set (us @ ws)" for a
    using wd_okD(2) [OF ok, of a] l dist by (cases ws) (auto simp: s1_def)
  ultimately have "wd_ok pool ?s"
    by (intro wd_ok_relist [OF ok r]) (use dist ok l tm in \<open>auto simp: wd_ok_def\<close>)
  then show ?thesis using eq r tm dist l by (intro that [of ?s]) (auto simp: remove1_append)
qed

section \<open>Starting\<close>

lemma advance_positive_head:
  "0 \<le> lg h \<Longrightarrow> advance_positive lg 0 [] h ws = (lg h, [], h, ws)"
  by (cases ws) (simp_all add: Let_def)

declare advance_positive.simps [simp del]

text \<open>The search stops at the first timer that expires later, or at the last one of the list.\<close>

lemma advance_shorter_post:
  assumes "advance_shorter lg delay now before cur rest = (now', before', cur', rest')"
    and "now = t + lg cur" and "\<forall>w \<in> set (before @ cur # rest). 0 \<le> lg w"
    and "t = sum_list (map lg before)"
    and "\<forall>e \<in> set (deadlines lg 0 before). snd e \<le> delay"
  shows "before' @ cur' # rest' = before @ cur # rest \<and> now' = sum_list (map lg before') + lg cur'
     \<and> (\<forall>e \<in> set (deadlines lg 0 before'). snd e \<le> delay) \<and> (now' \<le> delay \<longrightarrow> rest' = [])"
  using assms
proof (induction lg delay now before cur rest arbitrary: t rule: advance_shorter.induct)
  case (1 lg delay now before cur)
  then show ?case by auto
next
  case (2 lg delay now before cur nxt rest)
  show ?case
  proof (cases "now \<le> delay")
    case True
    have "\<forall>e \<in> set (deadlines lg 0 (before @ [cur])). snd e \<le> delay"
      using 2 True by (auto simp: deadlines_append)
    then show ?thesis
      using 2(1) [OF True, of "t + lg cur"] 2(2-) True by (simp add: algebra_simps)
  next
    case False
    then show ?thesis using 2 by auto
  qed
qed

lemma wd_insert_post:
  assumes lags: "\<forall>a \<in> set (g_wdactivelist s). 0 \<le> lag s a" and new: "w \<notin> set (g_wdactivelist s)"
    and dist: "distinct (g_wdactivelist s)" and d: "1 \<le> d"
  obtains k s' where "wd_insert w d s = (k, s')" "wd_rest s' = wd_rest s" "0 \<le> k"
    "deadlines ((lag s')(w := k)) 0 (g_wdactivelist s') = prio_insert urgency (w, d) (timers s)"
    "\<forall>a \<in> set (g_wdactivelist s). 0 \<le> lag s' a" "set (g_wdactivelist s') = insert w (set (g_wdactivelist s))"
    "distinct (g_wdactivelist s')" "\<forall>a. WDOG_ISACTIVE s' a = WDOG_ISACTIVE s a"
proof (cases "g_wdactivelist s")
  case Nil
  show ?thesis using d Nil
    by (intro that [of d "s\<lparr>g_wdactivelist := [w]\<rparr>"]) (simp_all add: wd_insert_def prio_insert_def)
next
  case (Cons h tl)
  obtain now us c ws where adv: "advance_shorter (lag s) d (lag s h) [] h tl = (now, us, c, ws)"
    by (cases "advance_shorter (lag s) d (lag s h) [] h tl") auto
  have "us @ c # ws = [] @ h # tl \<and> now = sum_list (map (lag s) us) + lag s c
     \<and> (\<forall>e \<in> set (deadlines (lag s) 0 us). snd e \<le> d) \<and> (now \<le> d \<longrightarrow> ws = [])"
    by (rule advance_shorter_post [OF adv, of 0]) (use lags Cons in auto)
  then have l: "g_wdactivelist s = us @ c # ws" and now: "now = sum_list (map (lag s) us) + lag s c"
    and before: "\<forall>e \<in> set (deadlines (lag s) 0 us). snd e \<le> d" and last: "now \<le> d \<longrightarrow> ws = []"
    using Cons by auto
  have dc: "c \<notin> set us" "c \<notin> set ws" "w \<notin> set us" "w \<noteq> c" "w \<notin> set ws" using new dist l by auto
  have pos: "advance_positive (lag s) 0 [] h tl = (lag s h, [], h, tl)"
    by (rule advance_positive_head) (use lags Cons in auto)
  have tm: "timers s = deadlines (lag s) 0 us @ (c, now) # deadlines (lag s) now ws"
    by (simp add: l deadlines_append now)
  have tw: "takeWhile P xs = xs \<and> dropWhile P xs = []" if "\<forall>x \<in> set xs. P x" for P and xs :: "(addr \<times> int) list"
    using that by simp
  show ?thesis
  proof (cases "d < now")
    case True
    define k where "k = d - (now - lag s c)"
    let ?s = "(set_lag c (lag s c - k) s)\<lparr>g_wdactivelist := us @ w # c # ws\<rparr>"
    have eq: "wd_insert w d s = (k, ?s)"
      using True Cons by (simp add: wd_insert_def pos adv k_def Let_def)
    have "prio_insert urgency (w, d) (timers s) = deadlines (lag s) 0 us @ (w, d) # (c, now) # deadlines (lag s) now ws"
      using before True by (simp add: tm prio_insert_def takeWhile_append dropWhile_append)
    moreover have "deadlines ((lag s)(c := lag s c - k, w := k)) 0 (us @ w # c # ws)
        = deadlines (lag s) 0 us @ (w, d) # deadlines (lag s) (0 + sum_list (map (lag s) us)) (c # ws)"
      by (rule deadlines_insert) (use dc in \<open>simp_all add: k_def now\<close>)
    ultimately have ins: "deadlines ((lag ?s)(w := k)) 0 (g_wdactivelist ?s) = prio_insert urgency (w, d) (timers s)"
      by (simp add: now)
    have "0 \<le> k"
    proof (cases us rule: rev_cases)
      case Nil
      then show ?thesis using d now by (simp add: k_def)
    next
      case (snoc us' u)
      then have "(u, sum_list (map (lag s) us)) \<in> set (deadlines (lag s) 0 us)" by (simp add: deadlines_append)
      then show ?thesis using before now by (force simp: k_def)
    qed
    moreover have "k \<le> lag s c" using True now by (simp add: k_def)
    then have "\<forall>a \<in> set (g_wdactivelist s). 0 \<le> lag ?s a" using lags by (simp add: lag_set_lag)
    ultimately show ?thesis using l dc dist by (intro that [OF eq _ _ ins]) auto
  next
    case False
    then have ws: "ws = []" and le: "now \<le> d" using last by auto
    let ?s = "s\<lparr>g_wdactivelist := us @ [c, w]\<rparr>"
    have eq: "wd_insert w d s = (d - now, ?s)"
      using False Cons ws by (simp add: wd_insert_def pos adv Let_def)
    have "prio_insert urgency (w, d) (timers s) = deadlines (lag s) 0 us @ [(c, now), (w, d)]"
      using before le by (simp add: tm ws prio_insert_def takeWhile_append dropWhile_append)
    moreover have "deadlines ((lag s)(w := d - now)) 0 (us @ [c, w]) = deadlines (lag s) 0 us @ [(c, now), (w, d)]"
    proof -
      have "map ((lag s)(w := d - now)) us = map (lag s) us" using dc by auto
      moreover have "deadlines ((lag s)(w := d - now)) 0 us = deadlines (lag s) 0 us"
        by (rule deadlines_cong) (use dc in auto)
      ultimately show ?thesis using dc by (simp add: deadlines_append now del: map_map)
    qed
    ultimately show ?thesis
      using lags l dc dist ws le by (intro that [OF eq]) auto
  qed
qed

lemma wd_start_cancelled:
  assumes ok: "wd_ok pool s"
  obtains s' where "(if WDOG_ISACTIVE s w then wd_cancel (Some w) s else Some (OK, s)) = Some (OK, s')" "wd_ok pool s'"
    "wd_rest s' = wd_rest s" "timers s' = filter (\<lambda>e. fst e \<noteq> w) (timers s)" "w \<notin> set (g_wdactivelist s')"
proof (cases "w \<in> set (g_wdactivelist s)")
  case True
  obtain s' where s': "wd_cancel (Some w) s = Some (OK, s')" "wd_ok pool s'" "wd_rest s' = wd_rest s"
    "timers s' = filter (\<lambda>e. fst e \<noteq> w) (timers s)" "g_wdactivelist s' = remove1 w (g_wdactivelist s)"
    by (rule wd_cancel_post [OF ok True])
  with True show ?thesis using wd_okD(1,2) [OF ok] by (intro that [of s']) simp_all
next
  case False
  then have "filter (\<lambda>e. fst e \<noteq> w) (timers s) = timers s" by (auto simp: filter_id_conv dest: fst_deadlines)
  with False show ?thesis using wd_okD(2) [OF ok] ok by (intro that [of s]) simp_all
qed

lemma wd_start_post:
  assumes ok: "wd_ok pool s" and w: "w \<notin> set (g_wdfreelist s)" and delay: "0 \<le> delay" "delay \<le> INT_MAX"
    and args: "length args \<le> CONFIG_MAX_WDOGPARMS"
  obtains s' where "wd_start (Some w) delay f args s = Some (OK, s')" "wd_ok pool s'"
    "timers s' = prio_insert urgency (w, max 1 delay) (filter (\<lambda>e. fst e \<noteq> w) (timers s))"
    "w_func (wdogs s' w) = f" "take (w_argc (wdogs s' w)) (w_parm (wdogs s' w)) = args"
    "g_wdfreelist s' = g_wdfreelist s" "tcbs s' = tcbs s" "lists s' = lists s"
    "\<forall>v. v \<noteq> w \<longrightarrow> w_func (wdogs s' v) = w_func (wdogs s v) \<and> w_argc (wdogs s' v) = w_argc (wdogs s v)
       \<and> w_parm (wdogs s' v) = w_parm (wdogs s v)" "w_flags (wdogs s' w) AND NOT WDOGF_ACTIVE = w_flags (wdogs s w) AND NOT WDOGF_ACTIVE"
proof -
  obtain s1 where s1: "(if WDOG_ISACTIVE s w then wd_cancel (Some w) s else Some (OK, s)) = Some (OK, s1)" "wd_ok pool s1"
    "wd_rest s1 = wd_rest s" "timers s1 = filter (\<lambda>e. fst e \<noteq> w) (timers s)" "w \<notin> set (g_wdactivelist s1)"
    by (rule wd_start_cancelled [OF ok])
  define s2 where "s2 = upd_wdog w (\<lambda>d. d\<lparr>w_func := f, w_argc := length args,
    w_parm := args @ replicate (CONFIG_MAX_WDOGPARMS - length args) 0\<rparr>) s1"
  have obs2: "lag s2 = lag s1" "g_wdactivelist s2 = g_wdactivelist s1" "\<And>a. WDOG_ISACTIVE s2 a = WDOG_ISACTIVE s1 a"
    "g_wdfreelist s2 = g_wdfreelist s1" "g_wdnfree s2 = g_wdnfree s1"
    "\<And>a. w_argc (wdogs s2 a) = (if a = w then length args else w_argc (wdogs s1 a))" "\<And>a. lag s2 a = lag s1 a"
    by (auto simp: s2_def WDOG_ISACTIVE_def)
  have ok2: "wd_ok pool s2" using s1(2,5) args unfolding wd_ok_def obs2 by auto
  obtain k s3 where s3: "wd_insert w (max 1 delay) s2 = (k, s3)" "wd_rest s3 = wd_rest s2" "0 \<le> k"
    "deadlines ((lag s3)(w := k)) 0 (g_wdactivelist s3) = prio_insert urgency (w, max 1 delay) (timers s2)"
    "\<forall>a \<in> set (g_wdactivelist s2). 0 \<le> lag s3 a" "set (g_wdactivelist s3) = insert w (set (g_wdactivelist s2))"
    "distinct (g_wdactivelist s3)" "\<forall>a. WDOG_ISACTIVE s3 a = WDOG_ISACTIVE s2 a"
    by (rule wd_insert_post [of s2 w "max 1 delay"]) (use wd_okD [OF ok2] s1(5) obs2(2) in auto)
  let ?s = "WDOG_SETACTIVE w (set_lag w k s3)"
  have r: "wd_rest ?s = wd_rest s2" using s3(2) by simp
  note f = wd_rest_fields [OF r] and f1 = wd_rest_fields [OF s1(3)]
  have tm: "timers ?s = prio_insert urgency (w, max 1 delay) (filter (\<lambda>e. fst e \<noteq> w) (timers s))"
    using s3(4) by (simp add: obs2 s1(4))
  have "wd_ok pool ?s"
  proof (rule wd_ok_relist [OF ok2 r])
    fix a assume "a \<in> set (g_wdactivelist ?s)"
    then have a: "a = w \<or> a \<in> set (g_wdactivelist s2)" using s3(6) by simp
    then show "0 \<le> lag ?s a" using s3(3,5) by (auto simp: lag_set_lag)
    have "a \<notin> set (g_wdfreelist s2)" using a ok2 w obs2(4) f1(1) by (auto simp: wd_ok_def)
    then show "w_argc (wdogs s2 a) \<le> CONFIG_MAX_WDOGPARMS \<and> a \<notin> set (g_wdfreelist s2)"
      using a wd_okD(4) [OF ok2, of a] obs2(6) args by auto
  next
    fix a d assume "(a, d) \<in> set (timers ?s)"
    then have "(a, d) = (w, max 1 delay) \<or> (a, d) \<in> set (timers s)" unfolding tm by (auto simp: prio.set_ins)
    then show "d \<le> INT_MAX" using wd_okD(5) [OF ok] delay by (auto simp: INT_MAX_def)
  qed (use s3(6,7,8) wd_okD(2) [OF ok2] in auto)
  moreover have "delay \<le> 0 \<longleftrightarrow> delay = 0" "(if delay \<le> 0 then 1 else delay) = max 1 delay" using delay by auto
  then have "wd_start (Some w) delay f args s = Some (OK, ?s)"
    using s1(1) s3(1) delay args by (simp add: wd_start_def s2_def Let_def)
  ultimately show ?thesis
    by (intro that [of ?s]) (use tm f f1 obs2 in \<open>simp_all add: s2_def\<close>, simp_all add: upd_wdog_def)
qed

text \<open>\<open>wd_gettime\<close> adds up the stored delays: the remaining time of the timer.\<close>

lemma gettime_loop_deadlines:
  "gettime_loop lg w t ws = (case map_of (deadlines lg t ws) w of None \<Rightarrow> 0 | Some d \<Rightarrow> d)"
  by (induction ws arbitrary: t) simp_all

lemma wd_gettime_timers:
  assumes "wd_ok pool s"
  shows "wd_gettime (Some w) s = (case map_of (timers s) w of None \<Rightarrow> 0 | Some d \<Rightarrow> d)"
proof -
  have "map_of (timers s) w = None" if "w \<notin> set (g_wdactivelist s)"
    using that fst_deadlines by (fastforce simp: map_of_eq_None_iff)
  then show ?thesis using wd_okD(2) [OF assms] by (simp add: wd_gettime_def gettime_loop_deadlines)
qed

lemma map_of_prio_insert: "w \<notin> fst ` set q \<Longrightarrow> map_of (prio_insert key (w, d) q) v = (if v = w then Some d else map_of q v)"
  by (induction q) (auto simp: prio.ins_Nil prio.ins_Cons)


section \<open>The timer interrupt\<close>

text \<open>The number of timers that are due, and the state a timer routine starts in.\<close>

definition due :: "'z wdstate_scheme \<Rightarrow> nat" where
  "due s = length (filter (\<lambda>e. snd e \<le> 0) (timers s))"

definition wd_expire :: "'z wdstate_scheme \<Rightarrow> 'z wdstate_scheme" where
  "wd_expire s =
     (case g_wdactivelist s of
        [] \<Rightarrow> s
      | wdog # rest \<Rightarrow>
          let s = s\<lparr>g_wdactivelist := rest\<rparr>;
              s = (case rest of [] \<Rightarrow> s | nxt # _ \<Rightarrow> set_lag nxt (lag s nxt + lag s wdog) s)
          in WDOG_CLRACTIVE wdog s)"

lemma wd_expiration_step:
  "g_wdactivelist s = w # ws \<Longrightarrow> lag s w \<le> 0 \<Longrightarrow> w_argc (wdogs s w) \<le> CONFIG_MAX_WDOGPARMS \<Longrightarrow>
     wd_expiration run s =
       Option.bind (run (w_func (wdogs s w)) (take (w_argc (wdogs s w)) (w_parm (wdogs s w))) (wd_expire s)) (wd_expiration run)"
  by (subst wd_expiration.simps)
    (simp add: wd_expire_def Let_def set_lag_def WDOG_CLRACTIVE_def upd_wdog_def split: list.split)

lemma wd_expiration_done:
  "(\<And>w ws. g_wdactivelist s = w # ws \<Longrightarrow> 0 < lag s w) \<Longrightarrow> wd_expiration run s = Some s"
  by (subst wd_expiration.simps) (auto split: list.split)

lemma wd_expire_post:
  assumes l: "g_wdactivelist s = w # ws" and d: "distinct (w # ws)"
  shows "wd_rest (wd_expire s) = wd_rest s" "timers (wd_expire s) = tl (timers s)" "g_wdactivelist (wd_expire s) = ws"
    "\<And>a. WDOG_ISACTIVE (wd_expire s) a = (a \<noteq> w \<and> WDOG_ISACTIVE s a)"
proof -
  show "wd_rest (wd_expire s) = wd_rest s" "g_wdactivelist (wd_expire s) = ws"
    "\<And>a. WDOG_ISACTIVE (wd_expire s) a = (a \<noteq> w \<and> WDOG_ISACTIVE s a)"
    using l by (simp_all add: wd_expire_def Let_def split: list.split)
  show "timers (wd_expire s) = tl (timers s)"
  proof (cases ws)
    case Nil
    then show ?thesis using l by (simp add: wd_expire_def)
  next
    case (Cons n ns)
    have "deadlines ((lag s)(n := lag s n + lag s w)) 0 ([] @ n # ns)
        = deadlines (lag s) 0 [] @ deadlines (lag s) (0 + sum_list (map (lag s) []) + lag s w) (n # ns)"
      by (rule deadlines_remove) (use d Cons in auto)
    then show ?thesis using l Cons by (simp add: wd_expire_def)
  qed
qed

text \<open>Between the timer interrupts nothing is due; while the interrupt runs, the stored delays are at least zero.\<close>

lemma wd_ok_expire:
  assumes ok: "wd_ok pool s" and l: "g_wdactivelist s = w # ws" and z: "lag s w = 0"
  shows "wd_ok pool (wd_expire s)" "due (wd_expire s) < due s"
proof -
  have d: "distinct (w # ws)" using wd_okD(1) [OF ok] l by simp
  note e = wd_expire_post [OF l d]
  have tm: "timers s = (w, 0) # timers (wd_expire s)" using l z e(2) by simp
  then show "due (wd_expire s) < due s" by (simp add: due_def)
  have lags: "\<forall>a \<in> set ws. 0 \<le> lag (wd_expire s) a"
    using wd_okD(3) [OF ok] l z by (auto simp: wd_expire_def Let_def lag_set_lag split: list.split)
  have act: "\<And>a. WDOG_ISACTIVE s a \<longleftrightarrow> a \<in> set (w # ws)" using wd_okD(2) [OF ok] l by simp
  show "wd_ok pool (wd_expire s)"
  proof (rule wd_ok_relist [OF ok e(1)])
    fix a t assume "(a, t) \<in> set (timers (wd_expire s))"
    then show "t \<le> INT_MAX" using wd_okD(5) [OF ok, of a t] tm by (metis list.set_intros(2))
  next
    fix a assume "a \<in> set (g_wdactivelist (wd_expire s))"
    then show "w_argc (wdogs s a) \<le> CONFIG_MAX_WDOGPARMS \<and> a \<notin> set (g_wdfreelist s)"
      using ok l e(3) by (auto simp: wd_ok_def)
  qed (use d lags act e(3,4) in auto)
qed

lemma due_zero:
  assumes ok: "wd_ok pool s"
  shows "due s = 0 \<longleftrightarrow> (\<forall>w ws. g_wdactivelist s = w # ws \<longrightarrow> 0 < lag s w)"
proof (cases "g_wdactivelist s")
  case Nil
  then show ?thesis by (simp add: due_def)
next
  case (Cons w ws)
  have "lag s w \<le> d" if "(a, d) \<in> set (deadlines (lag s) (lag s w) ws)" for a d
    by (rule deadlines_ge [OF _ that]) (use wd_okD(3) [OF ok] Cons in simp)
  then have "\<forall>e \<in> set (timers s). lag s w \<le> snd e" using Cons by auto
  moreover have "(w, lag s w) \<in> set (timers s)" using Cons by simp
  ultimately have "(\<forall>e \<in> set (timers s). 0 < snd e) \<longleftrightarrow> 0 < lag s w" by force
  moreover have "due s = 0 \<longleftrightarrow> (\<forall>e \<in> set (timers s). 0 < snd e)" by (simp add: due_def filter_empty_conv not_le)
  ultimately show ?thesis using Cons by simp
qed

text \<open>One tick: the head's delay goes down by one, and with it every remaining time.\<close>

lemma timers_tick:
  assumes "g_wdactivelist s = w # ws" "w \<notin> set ws"
  shows "timers (set_lag w (lag s w - 1) s) = map (\<lambda>(v, d). (v, d - 1)) (timers s)"
proof -
  have "deadlines ((lag s)(w := lag s w - 1)) t ws = deadlines (lag s) t ws" for t
    by (rule deadlines_cong) (use assms in auto)
  moreover have "deadlines (lag s) (lag s w - 1) ws = map (\<lambda>(v, d). (v, d - 1)) (deadlines (lag s) (lag s w) ws)"
    using deadlines_shift [of "lag s" "lag s w" "-1" ws] by simp
  ultimately show ?thesis using assms by simp
qed

lemma wd_ok_tick:
  assumes ok: "wd_ok pool s" and l: "g_wdactivelist s = w # ws" and p: "0 < lag s w"
  shows "wd_ok pool (set_lag w (lag s w - 1) s)"
proof (rule wd_ok_relist [OF ok])
  have d: "distinct (w # ws)" using wd_okD(1) [OF ok] l by simp
  fix a t assume "(a, t) \<in> set (timers (set_lag w (lag s w - 1) s))"
  then have "(a, t + 1) \<in> set (timers s)" using timers_tick [OF l] d by auto
  then show "t \<le> INT_MAX" using wd_okD(5) [OF ok] by fastforce
next
  fix a assume "a \<in> set (g_wdactivelist (set_lag w (lag s w - 1) s))"
  then show "0 \<le> lag (set_lag w (lag s w - 1) s) a" "w_argc (wdogs s a) \<le> CONFIG_MAX_WDOGPARMS \<and> a \<notin> set (g_wdfreelist s)"
    using ok p by (auto simp: wd_ok_def lag_set_lag)
qed (use ok in \<open>auto simp: wd_ok_def\<close>)

text \<open>The routine of a timer with its arguments, and that the routines of all active timers are of a kind.\<close>

abbreviation call_of :: "'z wdstate_scheme \<Rightarrow> addr \<Rightarrow> nat \<times> 32 word list" where
  "call_of s w \<equiv> (w_func (wdogs s w), take (w_argc (wdogs s w)) (w_parm (wdogs s w)))"

definition all_legal :: "(nat \<Rightarrow> 32 word list \<Rightarrow> bool) \<Rightarrow> 'z wdstate_scheme \<Rightarrow> bool" where
  "all_legal legal s = (\<forall>w \<in> set (g_wdactivelist s). case_prod legal (call_of s w))"

lemma all_legal_mono:
  assumes "all_legal legal s" "wd_rest s' = wd_rest s" "set (g_wdactivelist s') \<subseteq> set (g_wdactivelist s)"
  shows "all_legal legal s'"
  using assms wd_rest_fields [OF assms(2)] by (auto simp: all_legal_def)

text \<open>
  The contract of the timer routines. \<open>legal\<close> says which routines are called with which arguments, and
  \<open>good\<close> is what a routine needs of the rest of the system. A routine returns, keeps both and the timer
  lists in order, and makes no timer due: the timers it starts run for a tick at least.
\<close>

locale wd_routines =
  fixes pool :: "addr set"
    and run :: "nat \<Rightarrow> 32 word list \<Rightarrow> 'z wdstate_scheme \<Rightarrow> 'z wdstate_scheme option"
    and legal :: "nat \<Rightarrow> 32 word list \<Rightarrow> bool"
    and good :: "'z wdstate_scheme \<Rightarrow> bool"
  assumes good_rest: "wd_rest s' = wd_rest s \<Longrightarrow> good s \<Longrightarrow> good s'"
    and run_returns: "legal f args \<Longrightarrow> wd_ok pool s \<Longrightarrow> all_legal legal s \<Longrightarrow> good s \<Longrightarrow>
      \<exists>s'. run f args s = Some s' \<and> wd_ok pool s' \<and> all_legal legal s' \<and> good s' \<and> due s' \<le> due s"
begin

definition ready :: "'z wdstate_scheme \<Rightarrow> bool" where
  "ready s = (wd_ok pool s \<and> all_legal legal s \<and> good s)"

lemma expiration_step:
  assumes r: "ready s" and d: "due s \<noteq> 0"
  obtains w ws s1 where "g_wdactivelist s = w # ws" "lag s w = 0" "case_prod run (call_of s w) (wd_expire s) = Some s1"
    "ready (wd_expire s)" "ready s1" "due s1 < due s" "wd_expiration run s = wd_expiration run s1"
proof -
  have ok: "wd_ok pool s" and leg: "all_legal legal s" and g: "good s" using r by (simp_all add: ready_def)
  obtain w ws where w: "g_wdactivelist s = w # ws" "lag s w \<le> 0" using due_zero [OF ok] d by force
  with wd_okD(3) [OF ok, of w] have z: "lag s w = 0" by simp
  note e = wd_ok_expire [OF ok w(1) z]
  have p: "wd_rest (wd_expire s) = wd_rest s" "g_wdactivelist (wd_expire s) = ws"
    using wd_okD(1) [OF ok] w(1) by (auto intro!: wd_expire_post)
  have re: "ready (wd_expire s)"
    using e(1) good_rest [OF p(1) g] all_legal_mono [OF leg p(1)] p(2) w(1) by (auto simp: ready_def)
  have "case_prod legal (call_of s w)" using leg w(1) by (simp add: all_legal_def)
  then obtain s1 where s1: "case_prod run (call_of s w) (wd_expire s) = Some s1" "ready s1" "due s1 \<le> due (wd_expire s)"
    using run_returns [of "w_func (wdogs s w)" "take (w_argc (wdogs s w)) (w_parm (wdogs s w))" "wd_expire s"] re
    by (auto simp: ready_def)
  have "w_argc (wdogs s w) \<le> CONFIG_MAX_WDOGPARMS" using wd_okD(4) [OF ok] w(1) by simp
  then have "wd_expiration run s = wd_expiration run s1" using wd_expiration_step [OF w] s1(1) by simp
  with w z s1 e(2) re show ?thesis by (intro that) auto
qed

lemma expiration_returns: "ready s \<Longrightarrow> \<exists>s'. wd_expiration run s = Some s' \<and> ready s' \<and> due s' = 0"
proof (induction "due s" arbitrary: s rule: less_induct)
  case less
  show ?case
  proof (cases "due s = 0")
    case True
    then have "wd_expiration run s = Some s" using due_zero [of pool s] less.prems by (intro wd_expiration_done) (auto simp: ready_def)
    with True less.prems show ?thesis by blast
  next
    case False
    obtain s1 where "ready s1" "due s1 < due s" "wd_expiration run s = wd_expiration run s1"
      by (rule expiration_step [OF less.prems False])
    then show ?thesis using less.hyps [of s1] by simp
  qed
qed

lemma ready_tick:
  assumes "ready s" "due s = 0" "g_wdactivelist s = w # ws"
  shows "ready (set_lag w (lag s w - 1) s)"
  using assms wd_ok_tick [of pool s w ws] good_rest [of "set_lag w (lag s w - 1) s" s]
    all_legal_mono [of legal s "set_lag w (lag s w - 1) s"] due_zero [of pool s]
  by (auto simp: ready_def)

lemma timer_returns:
  assumes r: "ready s" and d: "due s = 0"
  shows "\<exists>s'. wd_timer run s = Some s' \<and> ready s' \<and> due s' = 0"
proof (cases "g_wdactivelist s")
  case Nil
  then show ?thesis using assms by (simp add: wd_timer_def)
next
  case (Cons w ws)
  then show ?thesis using expiration_returns [OF ready_tick [OF assms Cons]] by (simp add: wd_timer_def)
qed

end

text \<open>Routines that leave the timers alone: then the effect of an interrupt on the timers is known exactly.\<close>

locale wd_quiet = wd_routines +
  assumes quiet: "legal f args \<Longrightarrow> good s \<Longrightarrow> run f args s = Some s' \<Longrightarrow> wdogs s' = wdogs s \<and> g_wdactivelist s' = g_wdactivelist s"
begin

lemma expiration_timers: "ready s \<Longrightarrow> wd_expiration run s = Some s' \<Longrightarrow> timers s' = filter (\<lambda>e. 0 < snd e) (timers s)"
proof (induction "due s" arbitrary: s rule: less_induct)
  case less
  show ?case
  proof (cases "due s = 0")
    case True
    then have "wd_expiration run s = Some s" using due_zero [of pool s] less.prems(1) by (intro wd_expiration_done) (auto simp: ready_def)
    moreover have "filter (\<lambda>e. 0 < snd e) (timers s) = timers s"
      using True by (simp add: due_def filter_empty_conv filter_id_conv not_le)
    ultimately show ?thesis using less.prems(2) by simp
  next
    case False
    obtain w ws s1 where s1: "g_wdactivelist s = w # ws" "lag s w = 0" "case_prod run (call_of s w) (wd_expire s) = Some s1"
      "ready (wd_expire s)" "ready s1" "due s1 < due s" "wd_expiration run s = wd_expiration run s1"
      by (rule expiration_step [OF less.prems(1) False])
    have "case_prod legal (call_of s w)" using less.prems(1) s1(1) by (simp add: ready_def all_legal_def)
    then have "wdogs s1 = wdogs (wd_expire s)" "g_wdactivelist s1 = g_wdactivelist (wd_expire s)"
      using quiet s1(3,4) by (auto simp: ready_def)
    then have "timers s1 = timers (wd_expire s)" by simp
    moreover have "distinct (w # ws)" using less.prems(1) s1(1) by (auto simp: ready_def wd_ok_def)
    then have "timers s = (w, 0) # timers (wd_expire s)" using wd_expire_post(2) [OF s1(1)] s1(1,2) by simp
    ultimately show ?thesis using less.hyps [OF s1(6,5)] less.prems(2) s1(7) by simp
  qed
qed

lemma timer_timers:
  assumes r: "ready s" and d: "due s = 0" and e: "wd_timer run s = Some s'"
  shows "timers s' = filter (\<lambda>e. 0 < snd e) (map (\<lambda>(w, d). (w, d - 1)) (timers s))"
proof (cases "g_wdactivelist s")
  case Nil
  then show ?thesis using e by (simp add: wd_timer_def)
next
  case (Cons w ws)
  have "w \<notin> set ws" using r Cons by (auto simp: ready_def wd_ok_def)
  then show ?thesis
    using expiration_timers [OF ready_tick [OF r d Cons]] timers_tick [OF Cons] e Cons by (simp add: wd_timer_def)
qed

end

text \<open>
  What a timer is to bring about. \<open>R\<close> holds all the time; \<open>Q\<close> is what the call \<open>c\<close> of timer \<open>w\<close> achieves and no other routine undoes.
\<close>

definition awaits :: "('z wdstate_scheme \<Rightarrow> bool) \<Rightarrow> addr \<Rightarrow> nat \<times> 32 word list \<Rightarrow> 'z wdstate_scheme \<Rightarrow> bool" where
  "awaits Q w c s = (Q s \<or> w \<in> set (g_wdactivelist s) \<and> call_of s w = c)"

context wd_quiet
begin

lemma expiration_awaits:
  assumes keep: "\<And>f args u u'. ready u \<Longrightarrow> legal f args \<Longrightarrow> run f args u = Some u' \<Longrightarrow> R u \<Longrightarrow> R u' \<and> (Q u \<longrightarrow> Q u')"
    and rest: "\<And>u u'. wd_rest u' = wd_rest u \<Longrightarrow> R u \<Longrightarrow> R u' \<and> (Q u \<longrightarrow> Q u')"
    and est: "\<And>u u'. ready u \<Longrightarrow> R u \<Longrightarrow> case_prod run c u = Some u' \<Longrightarrow> Q u'"
  shows "ready s \<Longrightarrow> R s \<Longrightarrow> awaits Q w c s \<Longrightarrow> wd_expiration run s = Some s' \<Longrightarrow> R s' \<and> awaits Q w c s'"
proof (induction "due s" arbitrary: s rule: less_induct)
  case less
  show ?case
  proof (cases "due s = 0")
    case True
    then have "wd_expiration run s = Some s" using due_zero [of pool s] less.prems(1) by (intro wd_expiration_done) (auto simp: ready_def)
    then show ?thesis using less.prems by simp
  next
    case False
    obtain v ws s1 where s1: "g_wdactivelist s = v # ws" "lag s v = 0" "case_prod run (call_of s v) (wd_expire s) = Some s1"
      "ready (wd_expire s)" "ready s1" "due s1 < due s" "wd_expiration run s = wd_expiration run s1"
      by (rule expiration_step [OF less.prems(1) False])
    have "distinct (v # ws)" using less.prems(1) s1(1) by (auto simp: ready_def wd_ok_def)
    then have e: "wd_rest (wd_expire s) = wd_rest s" "g_wdactivelist (wd_expire s) = ws" using wd_expire_post [OF s1(1)] by auto
    have legal: "case_prod legal (call_of s v)" using less.prems(1) s1(1) by (simp add: ready_def all_legal_def)
    then have q: "wdogs s1 = wdogs (wd_expire s)" "g_wdactivelist s1 = g_wdactivelist (wd_expire s)"
      using quiet s1(3,4) by (auto simp: ready_def)
    have R: "R (wd_expire s)" "Q s \<longrightarrow> Q (wd_expire s)" using rest [OF e(1) less.prems(2)] by auto
    then have R1: "R s1" "Q s \<longrightarrow> Q s1" using keep [OF s1(4) _ _ R(1)] s1(3) legal by auto
    have "awaits Q w c s1"
    proof (cases "Q s \<or> w = v")
      case True
      then show ?thesis using less.prems(3) R1(2) est [OF s1(4) R(1)] s1(3) by (auto simp: awaits_def)
    next
      case False
      then have "w \<in> set ws" "call_of s w = c" using less.prems(3) s1(1) by (auto simp: awaits_def)
      then show ?thesis using q e(2) wd_rest_fields(3-5) [OF e(1), of w] by (auto simp: awaits_def)
    qed
    then show ?thesis using less.hyps [OF s1(6,5) R1(1)] less.prems(4) s1(7) by simp
  qed
qed

lemma timer_awaits:
  assumes keep: "\<And>f args u u'. ready u \<Longrightarrow> legal f args \<Longrightarrow> run f args u = Some u' \<Longrightarrow> R u \<Longrightarrow> R u' \<and> (Q u \<longrightarrow> Q u')"
    and rest: "\<And>u u'. wd_rest u' = wd_rest u \<Longrightarrow> R u \<Longrightarrow> R u' \<and> (Q u \<longrightarrow> Q u')"
    and est: "\<And>u u'. ready u \<Longrightarrow> R u \<Longrightarrow> case_prod run c u = Some u' \<Longrightarrow> Q u'"
    and s: "ready s" "due s = 0" "R s" "awaits Q w c s" "wd_timer run s = Some s'"
  shows "R s' \<and> awaits Q w c s'"
proof (cases "g_wdactivelist s")
  case Nil
  then show ?thesis using s by (simp add: wd_timer_def)
next
  case (Cons v ws)
  let ?u = "set_lag v (lag s v - 1) s"
  have u: "wd_rest ?u = wd_rest s" by simp
  have "R ?u" "Q s \<longrightarrow> Q ?u" using rest [OF u s(3)] by auto
  moreover from this(2) have "awaits Q w c ?u" using s(4) wd_rest_fields(3-5) [OF u, of w] by (auto simp: awaits_def)
  ultimately show ?thesis
    using expiration_awaits [where R = R and Q = Q and c = c, OF keep rest est ready_tick [OF s(1,2) Cons]] s(5) Cons by (simp add: wd_timer_def)
qed

end

section \<open>The pool of timers\<close>

lemma wd_ok_pool:
  assumes ok: "wd_ok pool s" and a: "g_wdactivelist s' = g_wdactivelist s"
    and w: "\<And>v. v \<in> set (g_wdactivelist s) \<Longrightarrow> wdogs s' v = wdogs s v"
    and act: "\<And>v. v \<notin> set (g_wdactivelist s) \<Longrightarrow> \<not> WDOG_ISACTIVE s' v"
    and free: "distinct (g_wdfreelist s')" "set (g_wdfreelist s') \<subseteq> pool" "set (g_wdfreelist s') \<inter> set (g_wdactivelist s) = {}"
      "g_wdnfree s' = length (g_wdfreelist s')"
  shows "wd_ok pool s'" "timers s' = timers s"
proof -
  show tm: "timers s' = timers s" unfolding a by (rule deadlines_cong) (simp add: w)
  have "WDOG_ISACTIVE s' v \<longleftrightarrow> v \<in> set (g_wdactivelist s)" for v
    using act [of v] wd_okD(2) [OF ok, of v] w [of v] by (auto simp: WDOG_ISACTIVE_def)
  then show "wd_ok pool s'" using ok free a w tm unfolding wd_ok_def by auto
qed

lemma wd_create_post:
  assumes ok: "wd_ok pool s" and irq: "current_regs s \<longrightarrow> 0 < g_wdnfree s"
    and m: "m = Some a" "a \<notin> pool" "\<not> WDOG_ISACTIVE s a"
  obtains w s1 where "wd_create m s = Some (Some w, s1)" "wd_ok pool s1" "timers s1 = timers s" "w \<notin> set (g_wdactivelist s1)"
    "g_wdfreelist s = w # g_wdfreelist s1 \<and> w_flags (wdogs s1 w) = 0
       \<or> w = a \<and> g_wdfreelist s1 = g_wdfreelist s \<and> w_flags (wdogs s1 w) = WDOGF_ALLOCED"
    "current_regs s \<or> min (g_wdnfree s) CONFIG_WDOG_INTRESERVE \<le> g_wdnfree s1"
proof (cases "g_wdnfree s > CONFIG_WDOG_INTRESERVE \<or> current_regs s")
  case True
  have n: "g_wdnfree s = length (g_wdfreelist s)" using ok by (simp add: wd_ok_def)
  then obtain w rest where l: "g_wdfreelist s = w # rest" using True irq by (cases "g_wdfreelist s") auto
  let ?s = "upd_wdog w (\<lambda>d. d\<lparr>w_flags := 0\<rparr>) (s\<lparr>g_wdfreelist := rest, g_wdnfree := g_wdnfree s - 1\<rparr>)"
  have out: "w \<notin> set (g_wdactivelist s)" using ok l by (auto simp: wd_ok_def)
  have act: "\<And>v. v \<notin> set (g_wdactivelist s) \<Longrightarrow> \<not> WDOG_ISACTIVE ?s v" using wd_okD(2) [OF ok] by (auto simp: WDOG_ISACTIVE_def)
  have "distinct rest" "set rest \<subseteq> pool" "set rest \<inter> set (g_wdactivelist s) = {}" using ok l by (auto simp: wd_ok_def)
  then have "wd_ok pool ?s" "timers ?s = timers s"
    by (intro wd_ok_pool [OF ok _ _ act]; use out n l in \<open>auto simp: upd_wdog_def\<close>)+
  moreover have "wd_create m s = Some (Some w, ?s)" using True l n by (simp add: wd_create_def)
  moreover have "current_regs s \<or> min (g_wdnfree s) CONFIG_WDOG_INTRESERVE \<le> g_wdnfree ?s" using True n l by (auto simp: upd_wdog_def)
  ultimately show ?thesis using l out by (intro that [of w ?s]) simp_all
next
  case False
  let ?s = "upd_wdog a (\<lambda>d. d\<lparr>w_flags := WDOGF_ALLOCED\<rparr>) s"
  have out: "a \<notin> set (g_wdactivelist s)" using m wd_okD(2) [OF ok] by simp
  have act: "\<And>v. v \<notin> set (g_wdactivelist s) \<Longrightarrow> \<not> WDOG_ISACTIVE ?s v"
    using wd_okD(2) [OF ok] by (auto simp: WDOG_ISACTIVE_def WDOGF_ALLOCED_def WDOGF_ACTIVE_def)
  have "distinct (g_wdfreelist s)" "set (g_wdfreelist s) \<subseteq> pool" "set (g_wdfreelist s) \<inter> set (g_wdactivelist s) = {}"
    "g_wdnfree s = length (g_wdfreelist s)" using ok by (auto simp: wd_ok_def)
  then have "wd_ok pool ?s" "timers ?s = timers s"
    by (intro wd_ok_pool [OF ok _ _ act]; use out in \<open>auto simp: upd_wdog_def\<close>)+
  moreover have "wd_create m s = Some (Some a, ?s)" using False m by (simp add: wd_create_def)
  ultimately show ?thesis using out False by (intro that [of a ?s]) simp_all
qed

text \<open>Giving a timer back: to the pool, unless it came from the heap.\<close>

lemma wd_delete_post:
  assumes ok: "wd_ok pool s" and w: "w \<notin> set (g_wdfreelist s)" "w_flags (wdogs s w) AND WDOGF_STATIC = 0"
    and p: "w \<in> pool \<longleftrightarrow> w_flags (wdogs s w) AND WDOGF_ALLOCED = 0"
  obtains s' where "wd_delete w s = Some (OK, s')" "wd_ok pool s'" "timers s' = filter (\<lambda>e. fst e \<noteq> w) (timers s)"
    "g_wdfreelist s' = (if w \<in> pool then g_wdfreelist s @ [w] else g_wdfreelist s)"
proof -
  obtain s1 where s1: "(if WDOG_ISACTIVE s w then wd_cancel (Some w) s else Some (OK, s)) = Some (OK, s1)" "wd_ok pool s1"
    "wd_rest s1 = wd_rest s" "timers s1 = filter (\<lambda>e. fst e \<noteq> w) (timers s)" "w \<notin> set (g_wdactivelist s1)"
    by (rule wd_start_cancelled [OF ok])
  note f = wd_rest_fields [OF s1(3)]
  have mask: "x AND m = (x AND NOT WDOGF_ACTIVE) AND m" if "m AND WDOGF_ACTIVE = 0" for x m :: "8 word"
  proof (rule bit_word_eqI)
    fix n :: nat assume "n < LENGTH(8)"
    have "\<not> (bit m n \<and> bit WDOGF_ACTIVE n)" using that by (metis bit_0_eq bit_and_iff bot_apply bot_bool_def)
    with \<open>n < LENGTH(8)\<close> show "bit (x AND m) n = bit ((x AND NOT WDOGF_ACTIVE) AND m) n" by (auto simp: bit_simps)
  qed
  then have same: "w_flags (wdogs s1 w) AND m = w_flags (wdogs s w) AND m" if "m AND WDOGF_ACTIVE = 0" for m
    using that f(6) [of w] by metis
  have fl: "w_flags (wdogs s1 w) AND WDOGF_STATIC = 0"
    "w_flags (wdogs s1 w) AND WDOGF_ALLOCED = w_flags (wdogs s w) AND WDOGF_ALLOCED"
    using w(2) same [of WDOGF_STATIC] same [of WDOGF_ALLOCED]
    by (simp_all add: WDOGF_STATIC_def WDOGF_ALLOCED_def WDOGF_ACTIVE_def)
  show ?thesis
  proof (cases "w \<in> pool")
    case False
    then show ?thesis using s1 fl p f(1) by (intro that [of s1]) (simp_all add: wd_delete_def)
  next
    case True
    let ?s = "s1\<lparr>g_wdfreelist := g_wdfreelist s1 @ [w], g_wdnfree := g_wdnfree s1 + 1\<rparr>"
    have fr: "distinct (g_wdfreelist s1 @ [w])" "set (g_wdfreelist s1 @ [w]) \<subseteq> pool" "finite pool" "card pool = CONFIG_PREALLOC_WDOGS"
      "g_wdnfree s1 = length (g_wdfreelist s1)"
      using s1(2) True w(1) f(1) by (auto simp: wd_ok_def)
    then have "g_wdnfree s1 + 1 \<le> CONFIG_PREALLOC_WDOGS"
      using card_mono [OF fr(3,2)] distinct_card [OF fr(1)] by simp
    then have "wd_delete w s = Some (OK, ?s)" using s1(1) fl p True by (simp add: wd_delete_def)
    moreover have "\<And>v. v \<notin> set (g_wdactivelist s1) \<Longrightarrow> \<not> WDOG_ISACTIVE ?s v"
      using wd_okD(2) [OF s1(2)] by (auto simp: WDOG_ISACTIVE_def)
    then have "wd_ok pool ?s" "timers ?s = timers s1"
      by (intro wd_ok_pool [OF s1(2)]; use s1(2,5) fr in \<open>auto simp: wd_ok_def\<close>)+
    ultimately show ?thesis using s1(4) True f(1) by (intro that [of ?s]) simp_all
  qed
qed

lemma wd_cancel_outer: "wd_cancel p s = Some (r, s') \<Longrightarrow> wd_outer s' = wd_outer s"
  by (auto simp: wd_cancel_def Let_def split: option.splits if_splits list.splits)

lemma wd_insert_outer: "wd_outer (snd (wd_insert w d s)) = wd_outer s"
  by (auto simp: wd_insert_def Let_def split: list.splits prod.splits if_splits)

lemma wd_create_outer: "wd_create m s = Some (w, s') \<Longrightarrow> wd_outer s' = wd_outer s"
  by (auto simp: wd_create_def bind_Some_conv split: if_splits list.splits option.splits)

lemma cancelled_outer: "(if a then wd_cancel p s else Some (OK, s)) = Some (r, s') \<Longrightarrow> wd_outer s' = wd_outer s"
  by (auto split: if_splits dest: wd_cancel_outer)

lemma wd_delete_outer: "wd_delete w s = Some (r, s') \<Longrightarrow> wd_outer s' = wd_outer s"
  by (auto simp: wd_delete_def bind_Some_conv Let_def split: if_splits dest!: wd_cancel_outer)

lemma wd_start_outer: "wd_start (Some w) d f args s = Some (OK, s') \<Longrightarrow> wd_outer s' = wd_outer s"
proof -
  assume e: "wd_start (Some w) d f args s = Some (OK, s')"
  then have "\<not> (length args > CONFIG_MAX_WDOGPARMS \<or> d < 0)" by (auto simp: wd_start_def OK_def ERROR_def)
  with e obtain r s1 where s1: "(if WDOG_ISACTIVE s w then wd_cancel (Some w) s else Some (OK, s)) = Some (r, s1)"
    and e1: "Some s' = (let i = wd_insert w (if d \<le> 0 then 1 else d) (upd_wdog w (\<lambda>x. x\<lparr>w_func := f, w_argc := length args,
        w_parm := args @ replicate (CONFIG_MAX_WDOGPARMS - length args) 0\<rparr>) s1) in Some (WDOG_SETACTIVE w (set_lag w (fst i) (snd i))))"
    by (cases "if WDOG_ISACTIVE s w then wd_cancel (Some w) s else Some (OK, s)") (auto simp: wd_start_def Let_def case_prod_beta)
  show ?thesis using cancelled_outer [OF s1] e1 by (simp add: Let_def wd_insert_outer)
qed

text \<open>
  C31. The pool of timers: \<open>wd_create\<close> hands out a timer that is in neither list, from the pool or, when a task
  would use up the reserve of the interrupt handlers, from the heap; a task never takes the last four timers
  of the pool, so an interrupt handler finds one as long as only tasks create timers. Giving the timer to
  \<open>wd_delete\<close> restores the pool and all remaining times.
\<close>

theorem wd_create_delete:
  assumes ok: "wd_ok pool s" and irq: "current_regs s \<longrightarrow> 0 < g_wdnfree s"
    and m: "m = Some a" "a \<notin> pool" "\<not> WDOG_ISACTIVE s a"
  shows "\<exists>w s1 s2. wd_create m s = Some (Some w, s1) \<and> wd_ok pool s1
     \<and> w \<notin> set (g_wdfreelist s1) \<and> w \<notin> set (g_wdactivelist s1)
     \<and> (current_regs s \<or> min (g_wdnfree s) CONFIG_WDOG_INTRESERVE \<le> g_wdnfree s1)
     \<and> wd_delete w s1 = Some (OK, s2) \<and> wd_ok pool s2
     \<and> mset (g_wdfreelist s2) = mset (g_wdfreelist s) \<and> timers s2 = timers s"
proof -
  obtain w s1 where s1: "wd_create m s = Some (Some w, s1)" "wd_ok pool s1" "timers s1 = timers s" "w \<notin> set (g_wdactivelist s1)"
    "g_wdfreelist s = w # g_wdfreelist s1 \<and> w_flags (wdogs s1 w) = 0
       \<or> w = a \<and> g_wdfreelist s1 = g_wdfreelist s \<and> w_flags (wdogs s1 w) = WDOGF_ALLOCED"
    "current_regs s \<or> min (g_wdnfree s) CONFIG_WDOG_INTRESERVE \<le> g_wdnfree s1"
    by (rule wd_create_post [OF assms])
  have free: "w \<notin> set (g_wdfreelist s1)" "w_flags (wdogs s1 w) AND WDOGF_STATIC = 0"
    "w \<in> pool \<longleftrightarrow> w_flags (wdogs s1 w) AND WDOGF_ALLOCED = 0"
    using s1(5) ok m(2) by (auto simp: wd_ok_def WDOGF_ALLOCED_def WDOGF_STATIC_def)
  obtain s2 where s2: "wd_delete w s1 = Some (OK, s2)" "wd_ok pool s2" "timers s2 = filter (\<lambda>e. fst e \<noteq> w) (timers s1)"
    "g_wdfreelist s2 = (if w \<in> pool then g_wdfreelist s1 @ [w] else g_wdfreelist s1)"
    by (rule wd_delete_post [OF s1(2) free])
  have "filter (\<lambda>e. fst e \<noteq> w) (timers s1) = timers s1" using s1(4) by (auto simp: filter_id_conv dest: fst_deadlines)
  then have "timers s2 = timers s" using s2(3) s1(3) by simp
  moreover have "mset (g_wdfreelist s2) = mset (g_wdfreelist s)"
    using s1(5) s2(4) free(3) by (auto simp: WDOGF_ALLOCED_def)
  ultimately show ?thesis using s1 s2 free(1) by blast
qed

section \<open>Example\<close>

text \<open>Two timers run, with 5 and 8 ticks to go; the pool is 32 timers from address 100 on.\<close>

definition ex_wd :: wdstate where
  "ex_wd = semstate.extend ex_sem \<lparr>wdogs = (\<lambda>_. \<lparr>w_func = 0, w_lag = 0, w_flags = 0, w_argc = 0, w_parm = []\<rparr>)
       (200 := \<lparr>w_func = 1, w_lag = 5, w_flags = 1, w_argc = 1, w_parm = [3, 0, 0, 0]\<rparr>,
        201 := \<lparr>w_func = 1, w_lag = 3, w_flags = 1, w_argc = 1, w_parm = [4, 0, 0, 0]\<rparr>),
     g_wdfreelist = [100..<132], g_wdactivelist = [200, 201], g_wdnfree = 32\<rparr>"

lemma ex_wd_obs [simp]:
  "g_wdactivelist ex_wd = [200, 201]" "g_wdfreelist ex_wd = [100..<132]" "g_wdnfree ex_wd = 32"
  "lag ex_wd 200 = 5" "lag ex_wd 201 = 3" "current_regs ex_wd = current_regs ex_sem"
  by (simp_all add: ex_wd_def semstate.defs)

lemma ex_wd_ok: "wd_ok {100..<132} ex_wd"
proof -
  have "WDOG_ISACTIVE ex_wd w \<longleftrightarrow> w \<in> set (g_wdactivelist ex_wd)" for w
    by (simp add: WDOG_ISACTIVE_def ex_wd_def semstate.defs WDOGF_ACTIVE_def)
  then show ?thesis
    by (simp add: wd_ok_def CONFIG_MAX_WDOGPARMS_def CONFIG_PREALLOC_WDOGS_def INT_MAX_def)
      (simp add: ex_wd_def semstate.defs)
qed


theorem wd_create_delete_witness:
  "\<exists>w s1 s2. wd_create (Some 300) ex_wd = Some (Some w, s1) \<and> wd_delete w s1 = Some (OK, s2)
     \<and> mset (g_wdfreelist s2) = mset [100..<132] \<and> timers s2 = [(200, 5), (201, 8)]"
proof -
  have "\<not> WDOG_ISACTIVE ex_wd 300" using wd_okD(2) [OF ex_wd_ok, of 300] by simp
  then show ?thesis using wd_create_delete [OF ex_wd_ok, of "Some 300" 300] by (auto simp: ex_sem_def)
qed

end
