(* ===== verification/Calendar.thy ===== *)
theory Calendar
  imports Rtos_Prelude "HOL-Library.Word"
begin

text \<open>
  Calendar conversions of the C library (src/lib/libc/time), in the version for configurations without
  \<open>CONFIG_GREGORIAN_TIME\<close>: \<open>mktime\<close>, \<open>gmtime_r\<close>, \<open>clock_calendar2utc\<close>, \<open>clock_utc2calendar\<close> and the
  tables below them. They are compared with the calendar itself, written as the rule that leads from a
  day to the next.
\<close>

section \<open>Definitions\<close>

record tm =
  tm_sec :: int
  tm_min :: int
  tm_hour :: int
  tm_mday :: int
  tm_mon :: int
  tm_year :: int

definition clock_isleapyear :: "int \<Rightarrow> bool" where
  "clock_isleapyear year = (if year mod 400 \<noteq> 0 then (if year mod 100 \<noteq> 0 then year mod 4 = 0 else False) else True)"

definition g_daysbeforemonth :: "int list" where
  "g_daysbeforemonth = [0, 31, 59, 90, 120, 151, 181, 212, 243, 273, 304, 334, 365]"

definition clock_daysbeforemonth :: "int \<Rightarrow> bool \<Rightarrow> int option" where
  "clock_daysbeforemonth month leapyear =
     (if month < 0 then None
      else do {
        retval \<leftarrow> array_get g_daysbeforemonth (nat month);
        Some (if month \<ge> 2 \<and> leapyear then retval + 1 else retval)
      })"

text \<open>Days, like all values of type \<open>time_t\<close>, are computed modulo \<open>2 ^ 32\<close>.\<close>

definition clock_calendar2utc :: "int \<Rightarrow> int \<Rightarrow> int \<Rightarrow> 32 word option" where
  "clock_calendar2utc year month day = do {
     let days = word_of_int ((year - 1970) * 365);
     let days = days + word_of_int ((year - 1969) div 4);
     before \<leftarrow> clock_daysbeforemonth month (clock_isleapyear year);
     let days = days + word_of_int before;
     let days = days + word_of_int (day - 1);
     Some days
   }"

definition mktime :: "tm \<Rightarrow> 32 word option" where
  "mktime tp = do {
     let days = word_of_int ((tm_year tp - 70) * 365);
     let days = days + word_of_int ((tm_year tp - 69) div 4);
     before \<leftarrow> clock_daysbeforemonth (tm_mon tp) (clock_isleapyear (tm_year tp + 1900));
     let days = days + word_of_int before;
     let days = days + word_of_int (tm_mday tp - 1);
     Some (((days * 24 + word_of_int (tm_hour tp)) * 60 + word_of_int (tm_min tp)) * 60 + word_of_int (tm_sec tp))
   }"

text \<open>The loop over the last years: the year since 1970 and the days into it.\<close>

function year_loop :: "int \<Rightarrow> int \<Rightarrow> int \<times> int" where
  "year_loop value days =
     (let tmp = (if clock_isleapyear (value + 1970) then 366 else 365)
      in if days \<ge> tmp then year_loop (value + 1) (days - tmp) else (value, days))"
  by pat_completeness auto
termination
  by (relation "measure (\<lambda>(_, days). nat days)") (auto split: if_splits)

text \<open>The binary search for the month, between \<open>lo\<close> and \<open>hi\<close> (\<open>min\<close> and \<open>max\<close> in the code).\<close>

function month_loop :: "bool \<Rightarrow> int \<Rightarrow> int \<Rightarrow> int \<Rightarrow> int option" where
  "month_loop leapyear days lo hi =
     (let value = (lo + hi) div 2
      in Option.bind (clock_daysbeforemonth (value + 1) leapyear) (\<lambda>tmp.
           if tmp > days
           then Option.bind (clock_daysbeforemonth value leapyear) (\<lambda>tmp.
                  if tmp > days
                  then if lo < value - 1 then month_loop leapyear days lo (value - 1) else Some lo
                  else Some value)
           else if value + 1 < hi then month_loop leapyear days (value + 1) hi else Some (value + 1)))"
  by pat_completeness auto
termination
  by (relation "measure (\<lambda>(_, _, lo, hi). nat (hi - lo))") auto

definition clock_utc2calendar :: "32 word \<Rightarrow> (int \<times> int \<times> int) option" where
  "clock_utc2calendar d = do {
     let value = uint d div (4 * 365 + 1);
     let days = uint d - value * (4 * 365 + 1);
     let (value, days) = year_loop (value * 4) days;
     let leapyear = clock_isleapyear (value + 1970);
     month \<leftarrow> month_loop leapyear days 0 11;
     before \<leftarrow> clock_daysbeforemonth month leapyear;
     Some (1970 + value, month + 1, days - before + 1)
   }"

definition gmtime_r :: "32 word \<Rightarrow> tm option" where
  "gmtime_r timer = do {
     let epoch = timer;
     let jdn = epoch div 86400;
     let epoch = epoch - 86400 * jdn;
     let hour = epoch div 3600;
     let epoch = epoch - 3600 * hour;
     let min = epoch div 60;
     let epoch = epoch - 60 * min;
     (year, month, day) \<leftarrow> clock_utc2calendar jdn;
     Some \<lparr>tm_sec = uint epoch, tm_min = uint min, tm_hour = uint hour, tm_mday = day, tm_mon = month - 1, tm_year = year - 1900\<rparr>
   }"

text \<open>\<open>clock_dow\<close> of src/os/kernel/clock/clock_dow.c: the day of the week, 0 for Sunday.\<close>

definition g_lookup :: "int list" where
  "g_lookup = [2, 5, 7, 10, 12, 15, 17, 20, 23, 25, 28, 30]"

definition clock_dow :: "int \<Rightarrow> int \<Rightarrow> int \<Rightarrow> int option" where
  "clock_dow year month day = do {
     let (day, year) = (if month < 2 then (day + year, year - 1) else (day + (year - 2), year));
     l \<leftarrow> (if month < 0 then None else array_get g_lookup (nat month));
     let n = l + day + 4 + c_div year 4 - c_div year 100 + c_div year 400;
     Some (n - 7 * c_div n 7)
   }"

text \<open>\<open>clock_dayoftheweek\<close> of src/lib/libc/time/lib_dayofweek.c.\<close>

definition clock_dayoftheweek :: "int \<Rightarrow> int \<Rightarrow> int \<Rightarrow> int" where
  "clock_dayoftheweek mday month year =
     (let (year, month) = (if month \<le> 2 then (year - 1, month + 12) else (year, month));
          month = month - 2;
          n = mday + year + c_div year 4 - c_div year 100 + c_div year 400 + c_div (31 * month) 12
      in n - 7 * c_div n 7)"

section \<open>The calendar\<close>

text \<open>Months of the year count from 0, days from 1.\<close>

fun month_length :: "int \<Rightarrow> int \<Rightarrow> int" where
  "month_length year month =
     (if month = 1 then (if clock_isleapyear year then 29 else 28)
      else if month = 3 \<or> month = 5 \<or> month = 8 \<or> month = 10 then 30 else 31)"

fun next_day :: "int \<times> int \<times> int \<Rightarrow> int \<times> int \<times> int" where
  "next_day (year, month, day) =
     (if day < month_length year month then (year, month, day + 1)
      else if month < 11 then (year, month + 1, 1)
      else (year + 1, 0, 1))"

text \<open>The date a number of days after 1 January 1970.\<close>

definition date :: "nat \<Rightarrow> int \<times> int \<times> int" where
  "date n = (next_day ^^ n) (1970, 0, 1)"

section \<open>Counting days\<close>

text \<open>The days before a month of a year, and before a year; the leap years are those of the Gregorian calendar.\<close>

definition before :: "int \<Rightarrow> bool \<Rightarrow> int" where
  "before m leap = g_daysbeforemonth ! nat m + (if m \<ge> 2 \<and> leap then 1 else 0)"

definition leaps :: "int \<Rightarrow> int" where
  "leaps y = y div 4 - y div 100 + y div 400"

definition new_year :: "int \<Rightarrow> int" where
  "new_year y = (y - 1970) * 365 + (leaps (y - 1) - 477)"

definition valid_date :: "int \<Rightarrow> int \<Rightarrow> int \<Rightarrow> bool" where
  "valid_date y m d = (1970 \<le> y \<and> 0 \<le> m \<and> m \<le> 11 \<and> 1 \<le> d \<and> d \<le> month_length y m)"

definition daynum :: "int \<Rightarrow> int \<Rightarrow> int \<Rightarrow> int" where
  "daynum y m d = new_year y + before m (clock_isleapyear y) + d - 1"

lemma month_cases:
  fixes m :: int
  assumes "0 \<le> m" "m \<le> 12"
  obtains "m = 0" | "m = 1" | "m = 2" | "m = 3" | "m = 4" | "m = 5" | "m = 6" | "m = 7" | "m = 8" | "m = 9"
    | "m = 10" | "m = 11" | "m = 12"
proof -
  have "m = 0 \<or> m = 1 \<or> m = 2 \<or> m = 3 \<or> m = 4 \<or> m = 5 \<or> m = 6 \<or> m = 7 \<or> m = 8 \<or> m = 9 \<or> m = 10 \<or> m = 11 \<or> m = 12"
    using assms by arith
  then show ?thesis using that by blast
qed

lemma daysbeforemonth: "0 \<le> m \<Longrightarrow> m \<le> 12 \<Longrightarrow> clock_daysbeforemonth m leap = Some (before m leap)"
  by (auto simp: clock_daysbeforemonth_def before_def array_get_def g_daysbeforemonth_def)

lemma before_step:
  assumes "0 \<le> m" "m \<le> 11"
  shows "before (m + 1) (clock_isleapyear y) = before m (clock_isleapyear y) + month_length y m"
  by (rule month_cases [of m]) (use assms in \<open>auto simp: before_def g_daysbeforemonth_def nat_add_distrib\<close>)

lemma before_ends: "before 0 leap = 0" "before 12 leap = (if leap then 366 else 365)"
  by (simp_all add: before_def g_daysbeforemonth_def)

lemma div_step: "0 < (k::int) \<Longrightarrow> y div k = (y - 1) div k + (if y mod k = 0 then 1 else 0)"
proof -
  assume k: "0 < k"
  show ?thesis
  proof (cases "y mod k = 0")
    case True
    then obtain q where "y = k * q" by auto
    moreover have "(k * q - 1) div k = q - 1" using k by (intro int_div_pos_eq [of _ _ _ "k - 1"]) (auto simp: algebra_simps)
    ultimately show ?thesis using k by simp
  next
    case False
    have "0 \<le> y mod k" "y mod k < k" using k by auto
    with False have "0 \<le> y mod k - 1" "y mod k - 1 < k" by auto
    moreover have "y - 1 = k * (y div k) + (y mod k - 1)" by simp
    ultimately have "(y - 1) div k = y div k" by (metis int_div_pos_eq)
    with False show ?thesis by simp
  qed
qed

lemma leaps_step: "leaps y = leaps (y - 1) + (if clock_isleapyear y then 1 else 0)"
proof -
  have m: "y mod 400 = 0 \<Longrightarrow> y mod 100 = 0" "y mod 100 = 0 \<Longrightarrow> y mod 4 = 0"
    using dvd_trans [of 100 400 y] dvd_trans [of 4 100 y] by (simp_all add: mod_eq_0_iff_dvd)
  have d: "y div k - (y - 1) div k = (if y mod k = 0 then 1 else 0)" if "0 < k" for k using div_step [OF that, of y] by linarith
  have "leaps y - leaps (y - 1) = (y div 4 - (y - 1) div 4) - (y div 100 - (y - 1) div 100) + (y div 400 - (y - 1) div 400)"
    by (simp add: leaps_def)
  also have "\<dots> = (if y mod 4 = 0 then 1 else 0) - (if y mod 100 = 0 then 1 else 0) + (if y mod 400 = 0 then 1 else 0)"
    by (simp only: d [of 4] d [of 100] d [of 400])
  also have "\<dots> = (if clock_isleapyear y then 1 else 0)"
    unfolding clock_isleapyear_def using m by simp
  finally show ?thesis by linarith
qed

lemma new_year_step: "new_year (y + 1) = new_year y + (if clock_isleapyear y then 366 else 365)"
  using leaps_step [of y] by (simp add: new_year_def)

lemma new_year_1970 [simp]: "new_year 1970 = 0"
  by (simp add: new_year_def leaps_def)

lemma daynum_next:
  assumes "valid_date y m d" "next_day (y, m, d) = (y', m', d')"
  shows "valid_date y' m' d' \<and> daynum y' m' d' = daynum y m d + 1"
proof -
  have m: "0 \<le> m" "m \<le> 11" using assms by (simp_all add: valid_date_def)
  note b = before_step [OF m, of y]
  consider "d < month_length y m" | "d = month_length y m" "m < 11" | "d = month_length y m" "m = 11"
    using assms(1) m by (force simp: valid_date_def)
  then show ?thesis
  proof cases
    case 1
    then show ?thesis using assms by (auto simp: valid_date_def daynum_def)
  next
    case 2
    then show ?thesis using assms b by (auto simp: valid_date_def daynum_def split: if_splits)
  next
    case 3
    then show ?thesis
      using assms b before_ends [of "clock_isleapyear y"] before_ends [of "clock_isleapyear (y + 1)"] new_year_step [of y]
      by (auto simp: valid_date_def daynum_def)
  qed
qed

lemma date_daynum: "date n = (y, m, d) \<Longrightarrow> valid_date y m d \<and> daynum y m d = int n"
proof (induction n arbitrary: y m d)
  case 0
  then show ?case by (auto simp: date_def valid_date_def daynum_def before_ends clock_isleapyear_def)
next
  case (Suc n)
  obtain y0 m0 d0 where p: "date n = (y0, m0, d0)" by (cases "date n") auto
  then have "next_day (y0, m0, d0) = (y, m, d)" using Suc.prems by (simp add: date_def)
  with Suc.IH [OF p] daynum_next show ?case by fastforce
qed

text \<open>A day number belongs to one date.\<close>

lemma new_year_less: "y < y' \<Longrightarrow> new_year (y + 1) \<le> new_year y'"
proof (induction "nat (y' - y)" arbitrary: y')
  case 0
  then show ?case by simp
next
  case (Suc n)
  show ?case
  proof (cases "y' = y + 1")
    case True
    then show ?thesis by simp
  next
    case False
    then have "new_year (y + 1) \<le> new_year (y' - 1)" using Suc by (intro Suc.hyps) auto
    then show ?thesis using new_year_step [of "y' - 1"] by (simp split: if_splits)
  qed
qed

lemma before_less: "0 \<le> m \<Longrightarrow> m < m' \<Longrightarrow> m' \<le> 12 \<Longrightarrow> before (m + 1) leap \<le> before m' leap"
proof (induction "nat (m' - m)" arbitrary: m')
  case 0
  then show ?case by simp
next
  case (Suc n)
  show ?case
  proof (cases "m' = m + 1")
    case True
    then show ?thesis by simp
  next
    case False
    then have "before (m + 1) leap \<le> before (m' - 1) leap" using Suc by (intro Suc.hyps) auto
    moreover have "before (m' - 1) leap \<le> before m' leap"
      by (rule month_cases [of m']) (use Suc.prems False in \<open>auto simp: before_def g_daysbeforemonth_def\<close>)
    ultimately show ?thesis by simp
  qed
qed

lemma daynum_bounds:
  assumes "valid_date y m d"
  shows "new_year y \<le> daynum y m d" "daynum y m d < new_year (y + 1)"
    "before m (clock_isleapyear y) \<le> daynum y m d - new_year y"
    "daynum y m d - new_year y < before (m + 1) (clock_isleapyear y)"
proof -
  have m: "0 \<le> m" "m \<le> 11" and d: "1 \<le> d" "d \<le> month_length y m" using assms by (simp_all add: valid_date_def)
  let ?l = "clock_isleapyear y"
  show 1: "before m ?l \<le> daynum y m d - new_year y" "daynum y m d - new_year y < before (m + 1) ?l"
    using d before_step [OF m, of y] by (simp_all add: daynum_def)
  have "0 \<le> before m ?l" by (rule month_cases [of m]) (use m in \<open>auto simp: before_def g_daysbeforemonth_def\<close>)
  moreover have "before (m + 1) ?l \<le> before 12 ?l" using before_less [of m 12 ?l] m by simp
  ultimately show "new_year y \<le> daynum y m d" "daynum y m d < new_year (y + 1)"
    using 1 before_ends(2) [of ?l] new_year_step [of y] by (auto split: if_splits)
qed

lemma daynum_inj:
  assumes "valid_date y m d" "valid_date y' m' d'" "daynum y m d = daynum y' m' d'"
  shows "(y, m, d) = (y', m', d')"
proof -
  note b = daynum_bounds [OF assms(1)] daynum_bounds [OF assms(2)]
  have y: "y = y'" using b new_year_less [of y y'] new_year_less [of y' y] assms(3) by (cases y y' rule: linorder_cases) auto
  have "m = m'"
    using b y before_less [of m m' "clock_isleapyear y"] before_less [of m' m "clock_isleapyear y"] assms
    by (cases m m' rule: linorder_cases) (auto simp: valid_date_def)
  with y show ?thesis using assms(3) by (simp add: daynum_def)
qed

lemma date_eq: "valid_date y m d \<Longrightarrow> daynum y m d = int n \<Longrightarrow> date n = (y, m, d)"
proof -
  assume v: "valid_date y m d" "daynum y m d = int n"
  obtain y' m' d' where p: "date n = (y', m', d')" by (cases "date n") auto
  with date_daynum [OF p] v daynum_inj show ?thesis by metis
qed

section \<open>From days to dates\<close>

declare month_loop.simps [simp del] year_loop.simps [simp del]

lemma month_loop_correct:
  "0 \<le> lo \<Longrightarrow> lo \<le> hi \<Longrightarrow> hi \<le> 11 \<Longrightarrow> before lo leap \<le> days \<Longrightarrow> days < before (hi + 1) leap \<Longrightarrow>
     \<exists>m. month_loop leap days lo hi = Some m \<and> lo \<le> m \<and> m \<le> hi \<and> before m leap \<le> days \<and> days < before (m + 1) leap"
proof (induction leap days lo hi rule: month_loop.induct)
  case (1 leap days lo hi)
  define v where "v = (lo + hi) div 2"
  have v: "lo \<le> v" "v \<le> hi" using 1(4) by (auto simp: v_def)
  have b: "clock_daysbeforemonth (v + 1) leap = Some (before (v + 1) leap)" "clock_daysbeforemonth v leap = Some (before v leap)"
    using v 1(3,5) by (simp_all add: daysbeforemonth)
  consider "before (v + 1) leap \<le> days" | "before v leap \<le> days" "days < before (v + 1) leap"
    | "days < before v leap" "days < before (v + 1) leap" by linarith
  then show ?case
  proof cases
    case 1
    then have "v \<noteq> hi" using "1.prems"(5) by auto
    then have less: "v + 1 \<le> hi" using v by simp
    show ?thesis
    proof (cases "v + 1 < hi")
      case True
      have "\<exists>m. month_loop leap days (v + 1) hi = Some m \<and> v + 1 \<le> m \<and> m \<le> hi \<and> before m leap \<le> days \<and> days < before (m + 1) leap"
        using 1 True "1.prems" v
        by (intro "1.IH"(2) [OF v_def b(1)]) auto
      then show ?thesis using 1 True v b by (subst month_loop.simps) (auto simp: v_def [symmetric])
    next
      case False
      with less have "v + 1 = hi" by simp
      then show ?thesis using 1 "1.prems" v b by (subst month_loop.simps) (auto simp: v_def [symmetric])
    qed
  next
    case 2
    then show ?thesis using v b by (subst month_loop.simps) (auto simp: v_def [symmetric])
  next
    case 3
    then have "v \<noteq> lo" using "1.prems"(4) by auto
    then have less: "lo \<le> v - 1" using v by simp
    show ?thesis
    proof (cases "lo < v - 1")
      case True
      have "\<exists>m. month_loop leap days lo (v - 1) = Some m \<and> lo \<le> m \<and> m \<le> v - 1 \<and> before m leap \<le> days \<and> days < before (m + 1) leap"
        using 3 True "1.prems" v
        by (intro "1.IH"(1) [OF v_def b(1) _ b(2)]) auto
      then show ?thesis using 3 True v b by (subst month_loop.simps) (auto simp: v_def [symmetric])
    next
      case False
      with less have "v = lo + 1" by simp
      then show ?thesis using 3 "1.prems" v b by (subst month_loop.simps) (auto simp: v_def [symmetric])
    qed
  qed
qed

lemma year_loop_correct:
  "0 \<le> d \<Longrightarrow> year_loop v d = (v', d') \<Longrightarrow>
     v \<le> v' \<and> 0 \<le> d' \<and> new_year (1970 + v') + d' = new_year (1970 + v) + d
     \<and> d' < (if clock_isleapyear (1970 + v') then 366 else 365)"
proof (induction v d rule: year_loop.induct)
  case (1 v d)
  let ?t = "if clock_isleapyear (v + 1970) then 366 else 365 :: int"
  show ?case
  proof (cases "d \<ge> ?t")
    case True
    then have "year_loop (v + 1) (d - ?t) = (v', d')" using 1(3) by (simp add: year_loop.simps [of v d] Let_def)
    then have "v + 1 \<le> v' \<and> 0 \<le> d' \<and> new_year (1970 + v') + d' = new_year (1970 + (v + 1)) + (d - ?t)
       \<and> d' < (if clock_isleapyear (1970 + v') then 366 else 365)"
      using 1 True by (intro "1.IH") auto
    moreover have "new_year (1970 + (v + 1)) = new_year (1970 + v) + ?t"
      using new_year_step [of "1970 + v"] by (simp add: add_ac)
    ultimately show ?thesis by simp
  next
    case False
    then show ?thesis using 1(2,3) by (auto simp: year_loop.simps [of v d] Let_def add_ac split: if_splits)
  qed
qed

lemma century_div:
  fixes x :: int
  shows "1969 \<le> x \<Longrightarrow> x \<le> 2199 \<Longrightarrow> x div 100 - x div 400 = (if x < 2100 then 15 else 16)"
proof -
  assume x: "1969 \<le> x" "x \<le> 2199"
  consider "x < 2000" | "2000 \<le> x" "x < 2100" | "2100 \<le> x" by linarith
  then show ?thesis
  proof cases
    case 1
    then have "x div 100 = 19" "x div 400 = 4"
      using x by (auto intro: int_div_pos_eq [where r = "x - 1900"] int_div_pos_eq [where r = "x - 1600"])
    then show ?thesis using 1 by simp
  next
    case 2
    then have "x div 100 = 20" "x div 400 = 5"
      using x by (auto intro: int_div_pos_eq [where r = "x - 2000"])
    then show ?thesis using 2 by simp
  next
    case 3
    then have "x div 100 = 21" "x div 400 = 5"
      using x by (auto intro: int_div_pos_eq [where r = "x - 2100"] int_div_pos_eq [where r = "x - 2000"])
    then show ?thesis using 3 by simp
  qed
qed

text \<open>The code counts a leap year every four years; the calendar has none in 2100.\<close>

lemma new_year_fours:
  "1970 \<le> y \<Longrightarrow> y \<le> 2200 \<Longrightarrow> new_year y = (y - 1970) * 365 + (y - 1969) div 4 - (if y < 2101 then 0 else 1)"
proof -
  assume y: "1970 \<le> y" "y \<le> 2200"
  have "(y - 1) div 4 = (y - 1969) div 4 + 492"
    using div_mult_self2 [of 4 "y - 1969" 492] by simp
  with century_div [of "y - 1"] y have "leaps (y - 1) = (y - 1969) div 4 + (if y < 2101 then 477 else 476)"
    by (simp add: leaps_def split: if_splits)
  then show ?thesis by (simp add: new_year_def)
qed

lemma new_year_blocks: "0 \<le> v \<Longrightarrow> v \<le> 34 \<Longrightarrow> new_year (1970 + 4 * v) = 1461 * v - (if v < 33 then 0 else 1)"
  by (simp add: new_year_fours)

text \<open>The two errors: dates from 2101 on are numbered one too high, and the inverse is late by a day from 2 January 2102 on.\<close>

definition mktime_error :: "nat \<Rightarrow> nat" where
  "mktime_error n = (if n < 47847 then 0 else 1)"

definition gmtime_error :: "nat \<Rightarrow> nat" where
  "gmtime_error n = (if n < 48213 then 0 else 1)"

lemma clock_utc2calendar_date:
  assumes "unat d \<le> 49710" "date (unat d - gmtime_error (unat d)) = (y, m, day)"
  shows "clock_utc2calendar d = Some (y, m + 1, day)"
proof -
  define v where "v = uint d div 1461"
  have u: "uint d = int (unat d)" by simp
  then have "uint d \<le> 49710" using assms(1) by linarith
  then have v: "0 \<le> v" "v \<le> 34" using zdiv_mono1 [of "uint d" 49710 1461] by (simp_all add: v_def pos_imp_zdiv_nonneg_iff)
  have r: "0 \<le> uint d - v * 1461" by (simp add: v_def mult.commute minus_mult_div_eq_mod)
  obtain v' d' where l: "year_loop (v * 4) (uint d - v * 1461) = (v', d')"
    by (cases "year_loop (v * 4) (uint d - v * 1461)") auto
  let ?y = "1970 + v'" let ?L = "clock_isleapyear ?y" let ?n = "unat d - gmtime_error (unat d)"
  have c: "v * 4 \<le> v'" "0 \<le> d'" "new_year ?y + d' = new_year (1970 + v * 4) + (uint d - v * 1461)" "d' < before 12 ?L"
    using year_loop_correct [OF r l] by (simp_all add: before_ends)
  have "v < 33 \<longleftrightarrow> unat d < 48213" unfolding v_def using u by linarith
  then have "int ?n = uint d - (if v < 33 then 0 else 1)" using u by (simp add: gmtime_error_def)
  then have n: "new_year ?y + d' = int ?n" using c(3) new_year_blocks [OF v] by (simp add: mult.commute split: if_splits)
  obtain k where k: "month_loop ?L d' 0 11 = Some k" "0 \<le> k" "k \<le> 11" "before k ?L \<le> d'" "d' < before (k + 1) ?L"
    using month_loop_correct [of 0 11 ?L d'] c(2,4) by (auto simp: before_ends)
  have "valid_date ?y k (d' - before k ?L + 1)"
    using k v(1) c(1) before_step [OF k(2,3), of ?y] by (simp add: valid_date_def)
  moreover have "daynum ?y k (d' - before k ?L + 1) = int ?n" using n by (simp add: daynum_def)
  ultimately have "date ?n = (?y, k, d' - before k ?L + 1)" by (rule date_eq)
  moreover have "clock_utc2calendar d = Some (?y, k + 1, d' - before k ?L + 1)"
    using l k(1-3) by (simp add: clock_utc2calendar_def v_def [symmetric] daysbeforemonth add_ac)
  ultimately show ?thesis using assms(2) by simp
qed

lemma unat_days: "unat (t div 86400 :: 32 word) = unat t div 86400" "unat t div 86400 \<le> 49710"
proof -
  show "unat (t div 86400) = unat t div 86400" by (simp add: unat_div)
  have "unat t < 2 ^ 32" using unsigned_less [of t] by simp
  then show "unat t div 86400 \<le> 49710" by simp
qed

text \<open>The broken-down time of a number of seconds on a date.\<close>

definition tm_of :: "int \<times> int \<times> int \<Rightarrow> int \<Rightarrow> tm" where
  "tm_of dt secs = (case dt of (y, m, d) \<Rightarrow>
     \<lparr>tm_sec = secs mod 60, tm_min = secs div 60 mod 60, tm_hour = secs div 3600, tm_mday = d, tm_mon = m, tm_year = y - 1900\<rparr>)"

lemma gmtime_r_tm: "gmtime_r t = Some (tm_of (date (unat t div 86400 - gmtime_error (unat t div 86400))) (uint t mod 86400))"
proof -
  let ?n = "unat t div 86400"
  obtain y m d where p: "date (?n - gmtime_error ?n) = (y, m, d)" by (cases "date (?n - gmtime_error ?n)") auto
  have c: "clock_utc2calendar (t div 86400) = Some (y, m + 1, d)"
    using p by (intro clock_utc2calendar_date) (simp_all add: unat_days)
  have w: "a - k * (a div k) = a mod k" for a k :: "32 word" by (rule minus_mult_div_eq_mod)
  have k: "uint (86400 :: 32 word) = 86400" "uint (3600 :: 32 word) = 3600" "uint (60 :: 32 word) = 60" by simp_all
  have "uint t mod 86400 mod 3600 mod 60 = uint t mod 86400 mod 60" "uint t mod 86400 mod 3600 div 60 = uint t mod 86400 div 60 mod 60"
    by (simp_all add: mod_mod_cancel zmod_zmult2_eq [of 60 _ 60, simplified])
  then have u: "uint (t mod 86400 mod 3600 mod 60) = uint t mod 86400 mod 60" "uint (t mod 86400 mod 3600 div 60) = uint t mod 86400 div 60 mod 60"
    "uint (t mod 86400 div 3600) = uint t mod 86400 div 3600"
    by (simp_all only: uint_mod_distrib uint_div_distrib k)
  show ?thesis unfolding gmtime_r_def Let_def w c bind.bind_lunit prod.case p tm_of_def u by simp
qed

section \<open>From dates to days\<close>

lemma date_year:
  assumes "n \<le> 49710" "date n = (y, m, d)"
  shows "1970 \<le> y" "y \<le> 2106" "y < 2101 \<longleftrightarrow> n < 47847"
proof -
  have v: "valid_date y m d" "daynum y m d = int n" using date_daynum [OF assms(2)] by auto
  note b = daynum_bounds(1,2) [OF v(1)]
  have "new_year 2101 = 47847" "new_year 2107 = 50038" by (simp_all add: new_year_def leaps_def)
  note facts = this b v(2) assms(1) new_year_less [of y 2101] new_year_less [of 2106 y] new_year_less [of 2100 y]
  show "1970 \<le> y" using v(1) by (simp add: valid_date_def)
  show "y \<le> 2106" by (rule ccontr) (use facts in simp)
  show "y < 2101 \<longleftrightarrow> n < 47847" by (cases "y < 2101") (use facts in simp_all)
qed

lemma days_word:
  assumes "n \<le> 49710" "date n = (y, m, d)"
  shows "0 \<le> m" "m \<le> 11"
    "word_of_int ((y - 1970) * 365) + word_of_int ((y - 1969) div 4) + word_of_int (before m (clock_isleapyear y)) + word_of_int (d - 1)
      = (word_of_int (int (n + mktime_error n)) :: 32 word)"
proof -
  note y = date_year [OF assms]
  have v: "valid_date y m d" "daynum y m d = int n" using date_daynum [OF assms(2)] by auto
  show "0 \<le> m" "m \<le> 11" using v by (simp_all add: valid_date_def)
  have e: "(y - 1970) * 365 + (y - 1969) div 4 = new_year y + int (mktime_error n)"
    using new_year_fours [of y] y by (auto simp: mktime_error_def)
  have days: "(y - 1970) * 365 + (y - 1969) div 4 + before m (clock_isleapyear y) + (d - 1) = int (n + mktime_error n)"
    using v(2) unfolding e daynum_def by simp
  show "word_of_int ((y - 1970) * 365) + word_of_int ((y - 1969) div 4) + word_of_int (before m (clock_isleapyear y)) + word_of_int (d - 1)
      = (word_of_int (int (n + mktime_error n)) :: 32 word)"
    by (simp only: of_int_add [symmetric] days)
qed

lemma clock_calendar2utc_date:
  assumes "n \<le> 49710" "date n = (y, m, d)"
  shows "clock_calendar2utc y m d = Some (word_of_nat (n + mktime_error n))"
proof -
  note w = days_word [OF assms]
  then have "clock_calendar2utc y m d = Some (word_of_int (int (n + mktime_error n)))"
    by (simp add: clock_calendar2utc_def daysbeforemonth del: of_int_of_nat_eq of_nat_add of_int_diff distrib_right_numeral left_diff_distrib_numeral)
  then show ?thesis by simp
qed

lemma mktime_tm:
  assumes "n \<le> 49710"
  shows "mktime (tm_of (date n) secs) = Some (word_of_int (86400 * int (n + mktime_error n) + secs))"
proof -
  obtain y m d where p: "date n = (y, m, d)" by (cases "date n") auto
  note w = days_word [OF assms p]
  have "secs = ((secs div 3600) * 60 + secs div 60 mod 60) * 60 + secs mod 60"
    using div_mult_mod_eq [of secs 60] div_mult_mod_eq [of "secs div 60" 60] zdiv_zmult2_eq [of 60 secs 60]
    by (simp add: algebra_simps)
  then have s: "((N * 24 + secs div 3600) * 60 + secs div 60 mod 60) * 60 + secs mod 60 = 86400 * N + secs" for N
    by (simp add: algebra_simps)
  have "mktime (tm_of (date n) secs) = Some (((word_of_int (int (n + mktime_error n)) * 24 + word_of_int (secs div 3600)) * 60
      + word_of_int (secs div 60 mod 60)) * 60 + word_of_int (secs mod 60))"
    using w by (simp add: p tm_of_def mktime_def daysbeforemonth
      del: of_int_of_nat_eq of_nat_add of_int_diff distrib_right_numeral left_diff_distrib_numeral)
  also have "\<dots> = Some (word_of_int (((int (n + mktime_error n) * 24 + secs div 3600) * 60 + secs div 60 mod 60) * 60 + secs mod 60))"
    by simp
  finally show ?thesis unfolding s .
qed

lemma mktime_gmtime:
  "Option.bind (gmtime_r t) mktime
     = Some (t + (if 47847 \<le> unat t div 86400 \<and> unat t div 86400 < 48213 then 86400 else 0))"
proof -
  let ?n = "unat t div 86400"
  let ?k = "?n - gmtime_error ?n"
  have u: "uint t = int (unat t)" by simp
  have "Option.bind (gmtime_r t) mktime = Some (word_of_int (86400 * int (?k + mktime_error ?k) + uint t mod 86400))"
    using unat_days(2) [of t] by (simp add: gmtime_r_tm mktime_tm)
  also have "int (?k + mktime_error ?k) = int ?n + (if 47847 \<le> ?n \<and> ?n < 48213 then 1 else 0)"
    by (auto simp: gmtime_error_def mktime_error_def)
  also have "86400 * \<dots> + uint t mod 86400 = uint t + (if 47847 \<le> ?n \<and> ?n < 48213 then 86400 else 0)"
    using div_mult_mod_eq [of "uint t" 86400] unfolding u zdiv_int by (simp add: algebra_simps)
  also have "word_of_int \<dots> = t + (if 47847 \<le> ?n \<and> ?n < 48213 then 86400 else 0)" by simp
  finally show ?thesis .
qed

section \<open>The day of the week\<close>

lemma leaps_nonneg: "0 \<le> y \<Longrightarrow> 0 \<le> leaps y"
  using zdiv_mono2 [of y 4 100] pos_imp_zdiv_nonneg_iff [of 400 y] by (simp add: leaps_def)

lemma c_leaps: "0 \<le> y \<Longrightarrow> c_div y 4 - c_div y 100 + c_div y 400 = leaps y"
  by (simp add: leaps_def)

lemma mod_7_eqI: "a = b + 7 * k \<Longrightarrow> a mod 7 = b mod (7::int)"
  by simp

lemma clock_dow_daynum:
  assumes "valid_date y m d"
  shows "clock_dow y m d = Some ((daynum y m d + 4) mod 7)"
proof -
  have b: "1970 \<le> y" "0 \<le> m" "m \<le> 12" "m \<noteq> 12" "1 \<le> d" using assms by (auto simp: valid_date_def)
  define leap where "leap = (if clock_isleapyear y then 1 else 0 :: int)"
  define n where "n = g_lookup ! nat m + d + (if m < 2 then y + 4 + leaps (y - 1) else y + 2 + leaps (y - 1) + leap)"
  have L: "0 \<le> leaps (y - 1)" using b by (simp add: leaps_nonneg)
  note c = c_leaps [of y] c_leaps [of "y - 1"]
  have "nat m < length g_lookup" "\<forall>x \<in> set g_lookup. 0 \<le> x" using b by (auto simp: g_lookup_def)
  then have "0 \<le> g_lookup ! nat m" by (meson nth_mem)
  then have n: "0 \<le> n" using b L by (simp add: n_def leap_def)
  have l: "array_get g_lookup (nat m) = Some (g_lookup ! nat m)" using b by (simp add: array_get_def g_lookup_def)
  have "clock_dow y m d = Some (n - 7 * c_div n 7)"
  proof (cases "m < 2")
    case True
    have "g_lookup ! nat m + (d + y) + 4 + c_div (y - 1) 4 - c_div (y - 1) 100 + c_div (y - 1) 400 = n"
      using c(2) b True by (simp add: n_def)
    then show ?thesis using b l True by (simp only: clock_dow_def Let_def if_True prod.case bind.bind_lunit not_less [symmetric] if_False)
  next
    case False
    have "g_lookup ! nat m + (d + (y - 2)) + 4 + c_div y 4 - c_div y 100 + c_div y 400 = n"
      using c(1) b False leaps_step [of y] by (simp add: n_def leap_def)
    then show ?thesis using b l False by (simp only: clock_dow_def Let_def if_True prod.case bind.bind_lunit not_less [symmetric] if_False)
  qed
  also have "n - 7 * c_div n 7 = n mod 7" using n by (simp add: minus_mult_div_eq_mod)
  also have "n mod 7 = (daynum y m d + 4) mod 7"
  proof (rule mod_7_eqI)
    show "n = daynum y m d + 4 + 7 * (102790 - 52 * y - 4 * m)"
      by (rule month_cases [OF b(2,3)])
        (use b in \<open>simp_all add: n_def daynum_def new_year_def before_def g_lookup_def g_daysbeforemonth_def leap_def\<close>)
  qed
  finally show ?thesis .
qed

lemma clock_dayoftheweek_daynum:
  assumes "valid_date y m d"
  shows "clock_dayoftheweek d (m + 1) y = (daynum y m d + 4) mod 7"
proof -
  have b: "1970 \<le> y" "0 \<le> m" "m \<le> 12" "m \<noteq> 12" "1 \<le> d" using assms by (auto simp: valid_date_def)
  define n where "n = d + (if m < 2 then y - 1 + leaps (y - 1) + 31 * (m + 11) div 12 else y + leaps y + 31 * (m - 1) div 12)"
  have L: "0 \<le> leaps (y - 1)" "0 \<le> leaps y" using b by (simp_all add: leaps_nonneg)
  have n: "0 \<le> n" using b L by (simp add: n_def)
  note c = c_leaps [of y] c_leaps [of "y - 1"]
  have "clock_dayoftheweek d (m + 1) y = n - 7 * c_div n 7"
  proof (cases "m < 2")
    case True
    have "d + (y - 1) + c_div (y - 1) 4 - c_div (y - 1) 100 + c_div (y - 1) 400 + c_div (31 * (m + 1 + 12 - 2)) 12 = n"
      using c(2) b True by (simp add: n_def)
    moreover have "m + 1 \<le> 2" using True by simp
    ultimately show ?thesis by (simp only: clock_dayoftheweek_def Let_def prod.case if_True)
  next
    case False
    have "d + y + c_div y 4 - c_div y 100 + c_div y 400 + c_div (31 * (m + 1 - 2)) 12 = n"
      using c(1) b False by (simp add: n_def)
    moreover have "\<not> m + 1 \<le> 2" using False by simp
    ultimately show ?thesis by (simp only: clock_dayoftheweek_def Let_def prod.case if_False)
  qed
  also have "n - 7 * c_div n 7 = n mod 7" using n by (simp add: minus_mult_div_eq_mod)
  also have "n mod 7 = (daynum y m d + 4) mod 7"
  proof (rule mod_7_eqI)
    show "n = daynum y m d + 4 + 7 * ((if m < 2 then 102793 else 102789) - 52 * y - 4 * m)"
      by (rule month_cases [OF b(2,3)])
        (use b leaps_step [of y] in \<open>simp_all add: n_def daynum_def new_year_def before_def g_daysbeforemonth_def\<close>)
  qed
  finally show ?thesis .
qed

section \<open>Properties\<close>

text \<open>
  C28. \<^const>\<open>gmtime_r\<close> gives the calendar date of every \<open>time_t\<close> value, with the time of the day, up to
  1 January 2102; from the day after it gives the date of the day before, having counted 29 February 2100.
\<close>

theorem gmtime_r_correct:
  "gmtime_r t = Some (tm_of (date (unat t div 86400 - (if unat t div 86400 < 48213 then 0 else 1))) (uint t mod 86400))"
  using gmtime_r_tm [of t] by (simp only: gmtime_error_def)

text \<open>
  C30. \<^const>\<open>mktime\<close> gives the seconds of a date and a time, and \<^const>\<open>clock_calendar2utc\<close> its days, for the years up to 2100;
  from 2101 on both are one day too high.
\<close>

theorem mktime_correct:
  assumes "n \<le> 49710" "date n = (y, m, d)"
  shows "mktime (tm_of (y, m, d) secs) = Some (word_of_int (86400 * int (if n < 47847 then n else n + 1) + secs))
    \<and> clock_calendar2utc y m d = Some (word_of_nat (if n < 47847 then n else n + 1))"
proof -
  have e: "(if n < 47847 then n else n + 1) = n + mktime_error n" by (simp add: mktime_error_def)
  show ?thesis unfolding e
    using mktime_tm [OF assms(1), of secs] clock_calendar2utc_date [OF assms] unfolding assms(2) by blast
qed

text \<open>At 1 March 2101.\<close>

lemma ex_date: "date 47906 = (2101, 2, 1)"
  by (rule date_eq) (simp_all add: valid_date_def daynum_def new_year_def leaps_def before_def g_daysbeforemonth_def clock_isleapyear_def)

theorem mktime_correct_witness:
  "(47906::nat) \<le> 49710 \<and> date 47906 = (2101, 2, 1) \<and> mktime (tm_of (2101, 2, 1) 7) = Some 4139164807"
  using mktime_correct [of 47906 2101 2 1 7] ex_date by simp


text \<open>
  \<^const>\<open>clock_dow\<close> gives the day of the week of every date from 1 January 1970, a Thursday, on: it advances by one with each day.
  \<^const>\<open>clock_dayoftheweek\<close>, which numbers the months from 1, gives the same.
\<close>

theorem clock_dow_correct:
  "(case date n of (y, m, d) \<Rightarrow> clock_dow y m d) = Some ((int n + 4) mod 7)
   \<and> (case date n of (y, m, d) \<Rightarrow> clock_dayoftheweek d (m + 1) y) = (int n + 4) mod 7"
proof -
  obtain y m d where p: "date n = (y, m, d)" by (cases "date n") auto
  with date_daynum [OF p] show ?thesis by (simp add: clock_dow_daynum clock_dayoftheweek_daynum)
qed

end
