(* ===== verification/Rtc.thy ===== *)
theory Rtc
  imports Calendar
begin

text \<open>
  The real time clock of the S5J chip (src/os/arch/arm/src/s5j/s5j_rtc.c), which keeps the date and time in
  registers of binary coded decimals. The registers are storage: between two accesses of a call their
  values do not change, so the loop that repeats a read across a change of the seconds runs once.
  The control and alarm registers are not modelled.
\<close>

unbundle bit_operations_syntax

section \<open>Definitions\<close>

record rtc_regvals =
  bcdsec :: "32 word"
  bcdmin :: "32 word"
  bcdhour :: "32 word"
  bcdday :: "32 word"
  bcdmon :: "32 word"
  bcdyear :: "32 word"

record rtc =
  regs :: rtc_regvals
  g_rtc_enabled :: bool
  g_rtc_setted :: bool

text \<open>A loop \<open>while (value >= k) { n++; value -= k; }\<close>.\<close>

function count_loop :: "int \<Rightarrow> 32 word \<Rightarrow> int \<Rightarrow> 32 word \<times> int" where
  "count_loop k n value = (if value \<ge> k \<and> 0 < k then count_loop k (n + 1) (value - k) else (n, value))"
  by pat_completeness auto
termination by (relation "measure (\<lambda>(k, _, value). nat value)") auto

definition rtc_bin2bcd :: "int \<Rightarrow> 32 word" where
  "rtc_bin2bcd value =
     (let (hundreds, value) = count_loop 100 0 value;
          (tens, value) = count_loop 10 0 value
      in push_bit 8 hundreds OR push_bit 4 tens OR word_of_int value)"

definition rtc_bcd2bin :: "32 word \<Rightarrow> int" where
  "rtc_bcd2bin value =
     (let tens = (drop_bit 4 value AND 15) * 10;
          hundreds = (drop_bit 8 value AND 15) * 100
      in sint (hundreds + tens + (value AND 15)))"

text \<open>The fields of \<open>struct rtc_regvals_s\<close> have 8 bits, the year 16.\<close>

definition rtc_breakout :: "tm \<Rightarrow> rtc_regvals" where
  "rtc_breakout t =
     \<lparr>bcdsec = take_bit 8 (rtc_bin2bcd (tm_sec t)), bcdmin = take_bit 8 (rtc_bin2bcd (tm_min t)),
      bcdhour = take_bit 8 (rtc_bin2bcd (tm_hour t)), bcdday = take_bit 8 (rtc_bin2bcd (tm_mday t)),
      bcdmon = take_bit 8 (rtc_bin2bcd (tm_mon t + 1)), bcdyear = take_bit 16 (rtc_bin2bcd (tm_year t))\<rparr>"

definition up_rtc_getdatetime :: "rtc \<Rightarrow> tm" where
  "up_rtc_getdatetime r =
     \<lparr>tm_sec = rtc_bcd2bin (take_bit 8 (bcdsec (regs r))), tm_min = rtc_bcd2bin (take_bit 8 (bcdmin (regs r))),
      tm_hour = rtc_bcd2bin (take_bit 8 (bcdhour (regs r))), tm_mday = rtc_bcd2bin (take_bit 8 (bcdday (regs r))),
      tm_mon = rtc_bcd2bin (take_bit 8 (bcdmon (regs r))) - 1, tm_year = rtc_bcd2bin (take_bit 16 (bcdyear (regs r)))\<rparr>"

definition up_rtc_setdatetime :: "tm \<Rightarrow> rtc \<Rightarrow> rtc" where
  "up_rtc_setdatetime t r = r\<lparr>regs := rtc_breakout t, g_rtc_setted := True\<rparr>"

text \<open>\<open>up_rtc_settime\<close> reads only the seconds of the time it gets.\<close>

definition up_rtc_settime :: "32 word \<Rightarrow> rtc \<Rightarrow> rtc option" where
  "up_rtc_settime secs r = do { t \<leftarrow> gmtime_r secs; Some (up_rtc_setdatetime t r) }"

definition up_rtc_initialize :: "rtc \<Rightarrow> rtc" where
  "up_rtc_initialize r =
     (let r = (if bcdday (regs r) = 0 then r\<lparr>regs := (regs r)\<lparr>bcdday := 1\<rparr>\<rparr> else r);
          r = (if bcdmon (regs r) = 0 then r\<lparr>regs := (regs r)\<lparr>bcdmon := 1\<rparr>\<rparr> else r);
          r = (if bcdyear (regs r) = 0 then r\<lparr>regs := (regs r)\<lparr>bcdyear := 0x110\<rparr>\<rparr> else r)
      in r\<lparr>g_rtc_enabled := True\<rparr>)"

declare count_loop.simps [simp del]

section \<open>Binary coded decimals\<close>

lemma count_loop_div: "0 < k \<Longrightarrow> 0 \<le> v \<Longrightarrow> count_loop k n v = (n + word_of_int (v div k), v mod k)"
proof (induction k n v rule: count_loop.induct)
  case (1 k n v)
  show ?case
  proof (cases "v \<ge> k")
    case True
    then have d: "v div k = (v - k) div k + 1" "v mod k = (v - k) mod k"
      using 1(2) div_pos_geq [of k v] mod_pos_geq [of k v] by linarith+
    have "count_loop k n v = count_loop k (n + 1) (v - k)" using 1(2) True by (simp add: count_loop.simps [of k n v])
    also have "\<dots> = (n + 1 + word_of_int ((v - k) div k), (v - k) mod k)" using 1 True by simp
    also have "\<dots> = (n + word_of_int (v div k), v mod k)" unfolding d by (simp only: of_int_add of_int_1 ac_simps)
    finally show ?thesis .
  next
    case False
    then show ?thesis using 1(2,3) by (simp add: count_loop.simps [of k n v])
  qed
qed

text \<open>Three digits of four bits side by side.\<close>

definition digits :: "32 word \<Rightarrow> 32 word \<Rightarrow> 32 word \<Rightarrow> 32 word" where
  "digits h t u = push_bit 8 h OR push_bit 4 t OR u"

lemma digits_read:
  assumes "take_bit 4 h = h" "take_bit 4 t = t" "take_bit 4 u = u"
  shows "digits h t u AND 15 = u" "drop_bit 4 (digits h t u) AND 15 = t" "drop_bit 8 (digits h t u) AND 15 = h"
proof -
  have m: "x AND 15 = take_bit 4 x" for x :: "32 word" by (simp add: take_bit_eq_mask mask_eq_exp_minus_1)
  have "take_bit 4 (digits (take_bit 4 h) (take_bit 4 t) (take_bit 4 u)) = take_bit 4 u"
    "take_bit 4 (drop_bit 4 (digits (take_bit 4 h) (take_bit 4 t) (take_bit 4 u))) = take_bit 4 t"
    "take_bit 4 (drop_bit 8 (digits (take_bit 4 h) (take_bit 4 t) (take_bit 4 u))) = take_bit 4 h"
    by (rule bit_word_eqI; auto simp: digits_def bit_simps)+
  then show "digits h t u AND 15 = u" "drop_bit 4 (digits h t u) AND 15 = t" "drop_bit 8 (digits h t u) AND 15 = h"
    unfolding m using assms by simp_all
qed

lemma digits_narrow:
  assumes "take_bit 4 h = h" "take_bit 4 t = t" "take_bit 4 u = u"
  shows "take_bit 16 (digits h t u) = digits h t u" "h = 0 \<Longrightarrow> take_bit 8 (digits h t u) = digits h t u"
proof -
  have "take_bit 16 (digits (take_bit 4 h) (take_bit 4 t) (take_bit 4 u)) = digits (take_bit 4 h) (take_bit 4 t) (take_bit 4 u)"
    "take_bit 8 (digits 0 (take_bit 4 t) (take_bit 4 u)) = digits 0 (take_bit 4 t) (take_bit 4 u)"
    by (rule bit_word_eqI; auto simp: digits_def bit_simps)+
  then show "take_bit 16 (digits h t u) = digits h t u" "h = 0 \<Longrightarrow> take_bit 8 (digits h t u) = digits h t u"
    using assms by simp_all
qed

lemma digit: "0 \<le> n \<Longrightarrow> n < 10 \<Longrightarrow> take_bit 4 (word_of_int n :: 32 word) = word_of_int n"
  by (simp add: take_bit_of_int take_bit_int_eq_self)

lemma bin2bcd_digits:
  assumes "0 \<le> v"
  shows "rtc_bin2bcd v = digits (word_of_int (v div 100)) (word_of_int (v mod 100 div 10)) (word_of_int (v mod 10))"
proof -
  have "v mod 100 mod 10 = v mod 10" by (simp add: mod_mod_cancel)
  with assms show ?thesis by (simp add: rtc_bin2bcd_def count_loop_div digits_def)
qed

lemma sint_of_int: "- (2 ^ 31) \<le> v \<Longrightarrow> v < 2 ^ 31 \<Longrightarrow> sint (word_of_int v :: 32 word) = v"
  by (simp add: signed_of_int signed_take_bit_int_eq_self)

lemma bcd_roundtrip:
  assumes "0 \<le> v" "v < 1000"
  shows "rtc_bcd2bin (take_bit 16 (take_bit 16 (rtc_bin2bcd v))) = v"
    and "v < 100 \<Longrightarrow> rtc_bcd2bin (take_bit 8 (take_bit 8 (rtc_bin2bcd v))) = v"
proof -
  define h t u where "h = (word_of_int (v div 100) :: 32 word)" and "t = (word_of_int (v mod 100 div 10) :: 32 word)"
    and "u = (word_of_int (v mod 10) :: 32 word)"
  have "0 \<le> v div 100" "v div 100 < 10" "0 \<le> v mod 100 div 10" "v mod 100 div 10 < 10"
    using assms by (auto simp: pos_imp_zdiv_nonneg_iff)
  then have d: "take_bit 4 h = h" "take_bit 4 t = t" "take_bit 4 u = u" by (auto simp: h_def t_def u_def intro!: digit)
  have "v mod 100 mod 10 = v mod 10" by (simp add: mod_mod_cancel)
  then have "v = v div 100 * 100 + v mod 100 div 10 * 10 + v mod 10"
    using div_mult_mod_eq [of v 100] div_mult_mod_eq [of "v mod 100" 10] by linarith
  then have "word_of_int v = (word_of_int (v div 100 * 100 + v mod 100 div 10 * 10 + v mod 10) :: 32 word)" by (rule arg_cong)
  also have "\<dots> = h * 100 + t * 10 + u" unfolding h_def t_def u_def by (simp only: of_int_add of_int_mult of_int_numeral)
  finally have "word_of_int v = h * 100 + t * 10 + u" .
  moreover have "sint (word_of_int v :: 32 word) = v" using assms by (intro sint_of_int) simp_all
  ultimately have r: "rtc_bcd2bin (digits h t u) = v" using digits_read [OF d] by (simp add: rtc_bcd2bin_def)
  have b: "rtc_bin2bcd v = digits h t u" using bin2bcd_digits [OF assms(1)] by (simp add: h_def t_def u_def)
  show "rtc_bcd2bin (take_bit 16 (take_bit 16 (rtc_bin2bcd v))) = v" using r digits_narrow(1) [OF d] b by simp
  show "rtc_bcd2bin (take_bit 8 (take_bit 8 (rtc_bin2bcd v))) = v" if "v < 100"
  proof -
    have "h = 0" using that assms by (simp add: h_def)
    then show ?thesis using r digits_narrow(2) [OF d] b by simp
  qed
qed

section \<open>Properties\<close>

lemma tm_of_ranges:
  assumes "n \<le> 49710" "0 \<le> secs" "secs < 86400"
  defines "t \<equiv> tm_of (date n) secs"
  shows "0 \<le> tm_sec t" "tm_sec t < 100" "0 \<le> tm_min t" "tm_min t < 100" "0 \<le> tm_hour t" "tm_hour t < 100"
    "0 \<le> tm_mday t" "tm_mday t < 100" "0 \<le> tm_mon t + 1" "tm_mon t + 1 < 100" "0 \<le> tm_year t" "tm_year t < 1000"
proof -
  obtain y m d where p: "date n = (y, m, d)" by (cases "date n") auto
  note y = date_year [OF assms(1) p]
  have "valid_date y m d" using date_daynum [OF p] by auto
  then have d: "0 \<le> m" "m \<le> 11" "1 \<le> d" "d \<le> 31" by (auto simp: valid_date_def split: if_splits)
  have h: "0 \<le> secs div 3600" "secs div 3600 < 100" using assms by (auto simp: pos_imp_zdiv_nonneg_iff)
  have ms: "0 \<le> secs mod 60" "secs mod 60 < 100" "0 \<le> secs div 60 mod 60" "secs div 60 mod 60 < 100"
    using pos_mod_bound [of 60 secs] pos_mod_bound [of 60 "secs div 60"] by simp_all
  have "0 \<le> d" "d < 100" "0 \<le> m + 1" "m + 1 < 100" "0 \<le> y - 1900" "y - 1900 < 1000" using y(1,2) d by simp_all
  note all = this h ms
  show "0 \<le> tm_sec t" "tm_sec t < 100" "0 \<le> tm_min t" "tm_min t < 100" "0 \<le> tm_hour t" "tm_hour t < 100"
    "0 \<le> tm_mday t" "tm_mday t < 100" "0 \<le> tm_mon t + 1" "tm_mon t + 1 < 100" "0 \<le> tm_year t" "tm_year t < 1000"
    unfolding t_def p tm_of_def prod.case tm.select_convs by (fact all)+
qed

lemma setdatetime_getdatetime:
  assumes "0 \<le> tm_sec t" "tm_sec t < 100" "0 \<le> tm_min t" "tm_min t < 100" "0 \<le> tm_hour t" "tm_hour t < 100"
    "0 \<le> tm_mday t" "tm_mday t < 100" "0 \<le> tm_mon t + 1" "tm_mon t + 1 < 100" "0 \<le> tm_year t" "tm_year t < 1000"
  shows "up_rtc_getdatetime (up_rtc_setdatetime t r) = t"
  using assms
  by (simp add: up_rtc_getdatetime_def up_rtc_setdatetime_def rtc_breakout_def bcd_roundtrip del: take_bit_take_bit)

lemma settime_getdatetime:
  obtains r' where "up_rtc_settime t r = Some r'" "Some (up_rtc_getdatetime r') = gmtime_r t" "g_rtc_enabled r' = g_rtc_enabled r"
proof -
  let ?n = "unat t div 86400 - gmtime_error (unat t div 86400)"
  have n: "?n \<le> 49710" using unat_days(2) [of t] by linarith
  obtain x where x: "tm_of (date ?n) (uint t mod 86400) = x" by blast
  have "0 \<le> uint t mod 86400" "uint t mod 86400 < 86400" by simp_all
  note tm_of_ranges [OF n this, unfolded x]
  then have "up_rtc_getdatetime (up_rtc_setdatetime x r) = x" by (rule setdatetime_getdatetime)
  moreover have "gmtime_r t = Some x" using gmtime_r_tm [of t] unfolding x .
  ultimately show ?thesis
    by (intro that [of "up_rtc_setdatetime x r"]) (simp_all add: up_rtc_settime_def up_rtc_setdatetime_def)
qed

text \<open>
  C32. Round trip through the registers: after \<^const>\<open>up_rtc_settime\<close> the clock gives the date and time that \<^const>\<open>gmtime_r\<close>
  computes, for every time.
\<close>

theorem rtc_roundtrip: "\<exists>r'. up_rtc_settime t r = Some r' \<and> gmtime_r t = Some (up_rtc_getdatetime r')"
  by (rule settime_getdatetime [of t r]) (metis)

end
