(* ===== verification/Clock.thy ===== *)
theory Clock
  imports Wdog_Spec Rtc
begin

text \<open>
  System time (src/os/kernel/clock): the tick counter, the time of day as a base time plus the time since
  power up, and the conversion of absolute times to ticks. The configuration has a tick of 10 ms, a 64-bit
  tick counter, the monotonic clock and a date/time RTC. A \<open>time_t\<close> is an unsigned number of 32 bits,
  a \<open>long\<close> a signed one; arithmetic on both wraps.
\<close>

section \<open>Definitions\<close>

record timespec =
  tv_sec :: "32 word"
  tv_nsec :: "32 word"

record clkstate = wdstate +
  g_system_timer :: "64 word"
  g_basetime :: timespec
  rtc_dev :: rtc

definition NSEC_PER_SEC :: int where "NSEC_PER_SEC = 1000000000"
definition NSEC_PER_TICK :: int where "NSEC_PER_TICK = 10000000"
definition TICK_PER_SEC :: int where "TICK_PER_SEC = 100"
definition CLOCK_REALTIME :: int where "CLOCK_REALTIME = 0"
definition CLOCK_MONOTONIC :: int where "CLOCK_MONOTONIC = 1"

text \<open>The value of a \<open>long\<close>, and the conversion to \<open>int\<close>.\<close>

abbreviation nsec :: "timespec \<Rightarrow> int" where
  "nsec ts \<equiv> sint (tv_nsec ts)"

abbreviation int32 :: "int \<Rightarrow> int" where
  "int32 n \<equiv> sint (word_of_int n :: 32 word)"

definition clock_systimer :: "'z clkstate_scheme \<Rightarrow> 64 word" where
  "clock_systimer s = g_system_timer s"

definition clock_timer :: "'z clkstate_scheme \<Rightarrow> 'z clkstate_scheme" where
  "clock_timer s = s\<lparr>g_system_timer := g_system_timer s + 1\<rparr>"

definition clock_systimespec :: "'z clkstate_scheme \<Rightarrow> timespec" where
  "clock_systimespec s =
     (let msecs = clock_systimer s * 10;
          secs = msecs div 1000;
          nsecs = (msecs - secs * 1000) * 1000000
      in \<lparr>tv_sec = ucast secs, tv_nsec = ucast nsecs\<rparr>)"

text \<open>The second component of the result is what a call stores through its pointer argument, if it does.\<close>

definition clock_gettime :: "int \<Rightarrow> 'z clkstate_scheme \<Rightarrow> int \<times> timespec option \<times> 'z clkstate_scheme" where
  "clock_gettime clock_id s =
     (if clock_id = CLOCK_MONOTONIC then (OK, Some (clock_systimespec s), s)
      else if clock_id = CLOCK_REALTIME
      then let ts = clock_systimespec s;
               ts = ts\<lparr>tv_sec := tv_sec ts + tv_sec (g_basetime s)\<rparr>;
               ts = ts\<lparr>tv_nsec := tv_nsec ts + tv_nsec (g_basetime s)\<rparr>;
               ts = (if nsec ts \<ge> NSEC_PER_SEC
                     then let carry = word_of_int (c_div (nsec ts) NSEC_PER_SEC)
                          in ts\<lparr>tv_sec := tv_sec ts + carry, tv_nsec := tv_nsec ts - carry * word_of_int NSEC_PER_SEC\<rparr>
                     else ts)
           in (OK, Some ts, s)
      else (ERROR, None, set_errno EINVAL s))"

definition clock_settime :: "int \<Rightarrow> timespec \<Rightarrow> 'z clkstate_scheme \<Rightarrow> (int \<times> 'z clkstate_scheme) option" where
  "clock_settime clock_id tp s =
     (if clock_id = CLOCK_REALTIME
      then do {
        let base = tp;
        let bias = clock_systimespec s;
        let base = (if nsec base < nsec bias
                    then base\<lparr>tv_nsec := tv_nsec base + word_of_int NSEC_PER_SEC, tv_sec := tv_sec base - 1\<rparr>
                    else base);
        let base = base\<lparr>tv_nsec := tv_nsec base - tv_nsec bias, tv_sec := tv_sec base - tv_sec bias\<rparr>;
        let s = s\<lparr>g_basetime := base\<rparr>;
        s \<leftarrow> (if g_rtc_enabled (rtc_dev s)
              then do { r \<leftarrow> up_rtc_settime (tv_sec tp) (rtc_dev s); Some (s\<lparr>rtc_dev := r\<rparr>) }
              else Some s);
        Some (OK, s)
      }
      else Some (ERROR, set_errno EINVAL s))"

definition clock_getres :: "int \<Rightarrow> 'z clkstate_scheme \<Rightarrow> int \<times> timespec option \<times> 'z clkstate_scheme" where
  "clock_getres clock_id s =
     (if clock_id \<noteq> CLOCK_REALTIME then (ERROR, None, set_errno EINVAL s)
      else (OK, Some \<lparr>tv_sec = 0, tv_nsec = word_of_int NSEC_PER_TICK\<rparr>, s))"

text \<open>\<open>gettimeofday\<close>: the flag tells whether the pointer argument is \<open>NULL\<close>; the result is the seconds and microseconds.\<close>

definition gettimeofday :: "bool \<Rightarrow> 'z clkstate_scheme \<Rightarrow> int \<times> (32 word \<times> int) option \<times> 'z clkstate_scheme" where
  "gettimeofday null s =
     (if null then (ERROR, None, set_errno EINVAL s)
      else case clock_gettime CLOCK_REALTIME s of
             (ret, ts, s) \<Rightarrow>
               (ret, if ret = OK then map_option (\<lambda>ts. (tv_sec ts, c_div (nsec ts) 1000)) ts else None, s))"

definition time :: "'z clkstate_scheme \<Rightarrow> 32 word \<times> 'z clkstate_scheme" where
  "time s =
     (case gettimeofday False s of
        (ret, Some (sec, _), s) \<Rightarrow> (if ret = OK then sec else word_of_int ERROR, s)
      | (ret, None, s) \<Rightarrow> (word_of_int ERROR, s))"

definition clock_ticks2time :: "int \<Rightarrow> int \<times> timespec" where
  "clock_ticks2time ticks =
     (let sec = word_of_int (c_div ticks TICK_PER_SEC) :: 32 word;
          remainder = int32 (ticks - TICK_PER_SEC * uint sec)
      in (OK, \<lparr>tv_sec = sec, tv_nsec = word_of_int (remainder * NSEC_PER_TICK)\<rparr>))"

definition clock_time2ticks :: "timespec \<Rightarrow> int \<times> int" where
  "clock_time2ticks reltime =
     (let relnsec = uint (tv_sec reltime) * NSEC_PER_SEC + nsec reltime
      in (OK, int32 (c_div (relnsec + NSEC_PER_TICK - 1) NSEC_PER_TICK)))"

definition compare_timespec :: "timespec \<Rightarrow> timespec \<Rightarrow> int" where
  "compare_timespec a b =
     (if tv_sec a < tv_sec b then -1 else if tv_sec a > tv_sec b then 1 else nsec a - nsec b)"

text \<open>The second component is the number of ticks.\<close>

definition clock_abstime2ticks :: "int \<Rightarrow> timespec \<Rightarrow> 'z clkstate_scheme \<Rightarrow> int \<times> int option \<times> 'z clkstate_scheme" where
  "clock_abstime2ticks clockid abstime s =
     (case clock_gettime clockid s of
        (ret, Some currtime, s) \<Rightarrow>
          if ret \<noteq> OK then (EINVAL, None, s)
          else if compare_timespec abstime currtime < 0 then (OK, Some (-1), s)
          else let reltime = \<lparr>tv_sec = tv_sec abstime - tv_sec currtime, tv_nsec = tv_nsec abstime - tv_nsec currtime\<rparr>;
                   reltime = (if nsec reltime < 0
                              then reltime\<lparr>tv_nsec := tv_nsec reltime + word_of_int NSEC_PER_SEC, tv_sec := tv_sec reltime - 1\<rparr>
                              else reltime);
                   (ret, ticks) = clock_time2ticks reltime
               in (ret, Some ticks, s)
      | (ret, None, s) \<Rightarrow> (EINVAL, None, s))"

definition clock_basetime :: "rtc \<Rightarrow> timespec option" where
  "clock_basetime r = do { sec \<leftarrow> mktime (up_rtc_getdatetime r); Some \<lparr>tv_sec = sec, tv_nsec = 0\<rparr> }"

definition clock_inittime :: "'z clkstate_scheme \<Rightarrow> 'z clkstate_scheme option" where
  "clock_inittime s = do {
     base \<leftarrow> clock_basetime (rtc_dev s);
     Some (s\<lparr>g_basetime := base, g_system_timer := 0\<rparr>)
   }"

definition clock_initialize :: "'z clkstate_scheme \<Rightarrow> 'z clkstate_scheme option" where
  "clock_initialize s = clock_inittime (s\<lparr>rtc_dev := up_rtc_initialize (rtc_dev s)\<rparr>)"

definition clock_synchronize :: "'z clkstate_scheme \<Rightarrow> 'z clkstate_scheme option" where
  "clock_synchronize s = clock_inittime s"

section \<open>Times as numbers of nanoseconds\<close>

definition valid_ts :: "timespec \<Rightarrow> bool" where
  "valid_ts ts = (0 \<le> nsec ts \<and> nsec ts < NSEC_PER_SEC)"

definition ns :: "timespec \<Rightarrow> int" where
  "ns ts = uint (tv_sec ts) * NSEC_PER_SEC + nsec ts"

text \<open>The nanoseconds after which the 32-bit seconds wrap around.\<close>

definition ERA :: int where "ERA = NSEC_PER_SEC * 2 ^ 32"

definition ts_of :: "int \<Rightarrow> timespec" where
  "ts_of n = \<lparr>tv_sec = word_of_int (n div NSEC_PER_SEC), tv_nsec = word_of_int (n mod NSEC_PER_SEC)\<rparr>"

lemma nsec_of [simp]: "nsec (ts_of n) = n mod NSEC_PER_SEC"
  by (simp add: ts_of_def NSEC_PER_SEC_def sint_of_int)

lemma ts_of_valid [simp]: "valid_ts (ts_of n)"
  by (simp add: valid_ts_def) (simp add: NSEC_PER_SEC_def)

lemma ns_ts_of: "ns (ts_of n) = n mod ERA"
proof -
  have "ns (ts_of n) = NSEC_PER_SEC * (n div NSEC_PER_SEC mod 2 ^ 32) + n mod NSEC_PER_SEC"
    by (simp add: ns_def ts_of_def [of n, THEN arg_cong [where f = tv_sec]] uint_word_of_int mult.commute)
  also have "\<dots> = n mod ERA" by (simp add: ERA_def zmod_zmult2_eq)
  finally show ?thesis .
qed

lemma ns_range: "valid_ts ts \<Longrightarrow> 0 \<le> ns ts \<and> ns ts < ERA"
proof -
  assume v: "valid_ts ts"
  have "uint (tv_sec ts) \<le> 2 ^ 32 - 1" using uint_bounded [of "tv_sec ts"] by simp
  then show ?thesis using v by (simp add: ns_def valid_ts_def ERA_def NSEC_PER_SEC_def)
qed

lemma div_mod_unique:
  fixes n q r k :: int
  assumes "n = q * k + r" "0 \<le> r" "r < k"
  shows "n div k = q" "n mod k = r"
  using assms int_div_pos_eq [of n k q r] int_mod_pos_eq [of n k q r] by (simp_all add: mult.commute)

lemma ts_eqI:
  assumes "n = q * NSEC_PER_SEC + r" "0 \<le> r" "r < NSEC_PER_SEC" "tv_sec ts = word_of_int q" "tv_nsec ts = word_of_int r"
  shows "ts = ts_of n"
  using div_mod_unique [OF assms(1-3)] assms(4,5) by (simp add: ts_of_def)

lemma ts_of_ns: "valid_ts ts \<Longrightarrow> ts_of (ns ts) = ts"
  by (rule ts_eqI [symmetric]) (auto simp: ns_def valid_ts_def)

lemma ts_of_mod: "ts_of (n mod ERA) = ts_of n"
  using ts_of_ns [of "ts_of n"] by (simp add: ns_ts_of)

lemma ts_of_cong: "n mod ERA = m mod ERA \<Longrightarrow> ts_of n = ts_of m"
  by (metis ts_of_mod)

section \<open>The operations on numbers\<close>

lemma uint_mult: "uint (x :: 64 word) * uint y < 2 ^ 64 \<Longrightarrow> uint (x * y) = uint x * uint y"
  using uint_mult_lem [of x y] by simp

lemma systimespec_ts:
  assumes "10 * uint (g_system_timer s) < 2 ^ 64"
  shows "clock_systimespec s = ts_of (NSEC_PER_TICK * uint (g_system_timer s))"
proof -
  let ?t = "g_system_timer s" let ?m = "10 * uint ?t"
  have m: "uint (?t * 10) = ?m" using assms uint_mult [of ?t 10] by simp
  have n: "(?t * 10 - ?t * 10 div 1000 * 1000) = ?t * 10 mod 1000" by (simp add: mult.commute minus_mult_div_eq_mod)
  have um: "uint (?t * 10 mod 1000) = ?m mod 1000" by (simp add: uint_mod_distrib m)
  have ud: "uint (?t * 10 div 1000) = ?m div 1000" by (simp add: uint_div_distrib m)
  have r: "?m mod 1000 < 1000" by simp
  then have un: "uint (?t * 10 mod 1000 * 1000000) = ?m mod 1000 * 1000000"
    using uint_mult [of "?t * 10 mod 1000" 1000000] by (simp add: um)
  have u: "ucast (?t * 10 mod 1000 * 1000000) = (word_of_int (?m mod 1000 * 1000000) :: 32 word)"
    "ucast (?t * 10 div 1000) = (word_of_int (?m div 1000) :: 32 word)"
    by (simp_all only: ucast_eq un ud)
  show ?thesis
  proof (rule ts_eqI)
    show "NSEC_PER_TICK * uint ?t = ?m div 1000 * NSEC_PER_SEC + ?m mod 1000 * 1000000"
      using div_mult_mod_eq [of ?m 1000] by (simp add: NSEC_PER_TICK_def NSEC_PER_SEC_def)
    show "0 \<le> ?m mod 1000 * 1000000" "?m mod 1000 * 1000000 < NSEC_PER_SEC" using r by (simp_all add: NSEC_PER_SEC_def)
  qed (simp_all only: clock_systimespec_def clock_systimer_def Let_def n u timespec.select_convs)
qed

text \<open>Addition with carry, as in \<^const>\<open>clock_gettime\<close>, and subtraction with borrow, as in \<^const>\<open>clock_settime\<close> and \<^const>\<open>clock_abstime2ticks\<close>.\<close>

lemma word_nsec: "tv_nsec ts = word_of_int (nsec ts)"
  by simp

lemma ts_add:
  assumes "valid_ts a" "valid_ts b"
  defines "c \<equiv> a\<lparr>tv_sec := tv_sec a + tv_sec b, tv_nsec := tv_nsec a + tv_nsec b\<rparr>"
  shows "(if nsec c \<ge> NSEC_PER_SEC
          then c\<lparr>tv_sec := tv_sec c + word_of_int (c_div (nsec c) NSEC_PER_SEC),
                 tv_nsec := tv_nsec c - word_of_int (c_div (nsec c) NSEC_PER_SEC) * word_of_int NSEC_PER_SEC\<rparr>
          else c) = ts_of (ns a + ns b)"
proof -
  have v: "0 \<le> nsec a" "nsec a < NSEC_PER_SEC" "0 \<le> nsec b" "nsec b < NSEC_PER_SEC" using assms by (simp_all add: valid_ts_def)
  have w: "tv_sec c = word_of_int (uint (tv_sec a) + uint (tv_sec b))" "tv_nsec c = word_of_int (nsec a + nsec b)"
    by (simp_all add: c_def)
  have n: "nsec c = nsec a + nsec b" using v unfolding w(2) by (intro sint_of_int) (simp_all add: NSEC_PER_SEC_def)
  show ?thesis
  proof (cases "nsec a + nsec b \<ge> NSEC_PER_SEC")
    case True
    have "c_div (nsec a + nsec b) NSEC_PER_SEC = 1"
      using v True div_mod_unique(1) [of "nsec a + nsec b" 1 NSEC_PER_SEC "nsec a + nsec b - NSEC_PER_SEC"]
      by (simp add: NSEC_PER_SEC_def)
    then show ?thesis using True v n w
      by (intro ts_eqI [where q = "uint (tv_sec a) + uint (tv_sec b) + 1" and r = "nsec a + nsec b - NSEC_PER_SEC"])
        (simp_all add: ns_def algebra_simps)
  next
    case False
    then show ?thesis using v n w
      by (intro ts_eqI [where q = "uint (tv_sec a) + uint (tv_sec b)" and r = "nsec a + nsec b"])
        (simp_all add: ns_def algebra_simps)
  qed
qed

lemma gettime_ts:
  assumes "valid_ts (g_basetime s)" "10 * uint (g_system_timer s) < 2 ^ 64"
  shows "clock_gettime CLOCK_REALTIME s = (OK, Some (ts_of (ns (g_basetime s) + NSEC_PER_TICK * uint (g_system_timer s))), s)"
proof -
  let ?u = "ts_of (NSEC_PER_TICK * uint (g_system_timer s))"
  have "ts_of (ns ?u + ns (g_basetime s)) = ts_of (ns (g_basetime s) + NSEC_PER_TICK * uint (g_system_timer s))"
    by (rule ts_of_cong) (simp add: ns_ts_of mod_simps add.commute)
  note sum = ts_add [OF ts_of_valid assms(1), of "NSEC_PER_TICK * uint (g_system_timer s)", unfolded this]
  then show ?thesis
    by (simp add: clock_gettime_def systimespec_ts [OF assms(2)] CLOCK_REALTIME_def CLOCK_MONOTONIC_def Let_def split: if_splits)
qed

lemma ts_sub:
  assumes "valid_ts a" "valid_ts b"
  shows "nsec a < nsec b \<Longrightarrow> \<lparr>tv_sec = tv_sec a - 1 - tv_sec b, tv_nsec = tv_nsec a + word_of_int NSEC_PER_SEC - tv_nsec b\<rparr>
      = ts_of (ns a - ns b)"
    and "nsec b \<le> nsec a \<Longrightarrow> \<lparr>tv_sec = tv_sec a - tv_sec b, tv_nsec = tv_nsec a - tv_nsec b\<rparr> = ts_of (ns a - ns b)"
proof -
  have v: "0 \<le> nsec a" "nsec a < NSEC_PER_SEC" "0 \<le> nsec b" "nsec b < NSEC_PER_SEC" using assms by (simp_all add: valid_ts_def)
  show "\<lparr>tv_sec = tv_sec a - 1 - tv_sec b, tv_nsec = tv_nsec a + word_of_int NSEC_PER_SEC - tv_nsec b\<rparr> = ts_of (ns a - ns b)"
    if "nsec a < nsec b" using v that
    by (intro ts_eqI [where q = "uint (tv_sec a) - 1 - uint (tv_sec b)" and r = "nsec a + NSEC_PER_SEC - nsec b"])
      (simp_all add: ns_def algebra_simps)
  show "\<lparr>tv_sec = tv_sec a - tv_sec b, tv_nsec = tv_nsec a - tv_nsec b\<rparr> = ts_of (ns a - ns b)"
    if "nsec b \<le> nsec a" using v that
    by (intro ts_eqI [where q = "uint (tv_sec a) - uint (tv_sec b)" and r = "nsec a - nsec b"])
      (simp_all add: ns_def algebra_simps)
qed

lemma settime_ts:
  assumes "valid_ts tp" "10 * uint (g_system_timer s) < 2 ^ 64"
  obtains s' where "clock_settime CLOCK_REALTIME tp s = Some (OK, s')" "g_system_timer s' = g_system_timer s"
    "g_basetime s' = ts_of (ns tp - NSEC_PER_TICK * uint (g_system_timer s))" "wdstate.truncate s' = wdstate.truncate s"
    "g_rtc_enabled (rtc_dev s) \<longrightarrow> Some (up_rtc_getdatetime (rtc_dev s')) = gmtime_r (tv_sec tp)"
proof -
  let ?n = "NSEC_PER_TICK * uint (g_system_timer s)"
  let ?u = "ts_of ?n"
  define base where "base = (if nsec tp < nsec ?u
      then \<lparr>tv_sec = tv_sec tp - 1 - tv_sec ?u, tv_nsec = tv_nsec tp + word_of_int NSEC_PER_SEC - tv_nsec ?u\<rparr>
      else \<lparr>tv_sec = tv_sec tp - tv_sec ?u, tv_nsec = tv_nsec tp - tv_nsec ?u\<rparr>)"
  have "ts_of (ns tp - ns ?u) = ts_of (ns tp - ?n)" by (rule ts_of_cong) (simp add: ns_ts_of mod_simps)
  then have b: "base = ts_of (ns tp - ?n)" using ts_sub [OF assms(1) ts_of_valid, of ?n] by (simp add: base_def)
  obtain r where r: "up_rtc_settime (tv_sec tp) (rtc_dev s) = Some r" "Some (up_rtc_getdatetime r) = gmtime_r (tv_sec tp)"
    by (rule settime_getdatetime)
  let ?s = "s\<lparr>g_basetime := base, rtc_dev := if g_rtc_enabled (rtc_dev s) then r else rtc_dev s\<rparr>"
  have "clock_settime CLOCK_REALTIME tp s = Some (OK, ?s)"
    using r(1) unfolding clock_settime_def systimespec_ts [OF assms(2)] base_def by (cases tp) (simp add: Let_def)
  then show ?thesis using b r by (intro that [of ?s]) (simp_all add: wdstate.defs)
qed

text \<open>The number of ticks until an absolute time: the least number that reaches it, as a 32-bit number.\<close>

definition ticks_until :: "int \<Rightarrow> int \<Rightarrow> int" where
  "ticks_until now goal = (goal - now + NSEC_PER_TICK - 1) div NSEC_PER_TICK"

lemma ticks_until_bounds:
  "goal \<le> now + NSEC_PER_TICK * ticks_until now goal" "now + NSEC_PER_TICK * ticks_until now goal < goal + NSEC_PER_TICK"
proof -
  let ?x = "goal - now + NSEC_PER_TICK - 1"
  have "NSEC_PER_TICK * (?x div NSEC_PER_TICK) + ?x mod NSEC_PER_TICK = ?x" "0 \<le> ?x mod NSEC_PER_TICK" "?x mod NSEC_PER_TICK < NSEC_PER_TICK"
    by (simp, simp_all add: NSEC_PER_TICK_def)
  then show "goal \<le> now + NSEC_PER_TICK * ticks_until now goal" "now + NSEC_PER_TICK * ticks_until now goal < goal + NSEC_PER_TICK"
    unfolding ticks_until_def by linarith+
qed

lemma compare_ns:
  assumes "valid_ts a" "valid_ts b"
  shows "compare_timespec a b < 0 \<longleftrightarrow> ns a < ns b"
  using assms by (auto simp: compare_timespec_def ns_def valid_ts_def NSEC_PER_SEC_def word_less_def)

lemma time2ticks_ts: "0 \<le> n \<Longrightarrow> n < ERA \<Longrightarrow> clock_time2ticks (ts_of n) = (OK, int32 (ticks_until 0 n))"
proof -
  assume n: "0 \<le> n" "n < ERA"
  then have "ns (ts_of n) = n" by (simp add: ns_ts_of)
  with n(1) show ?thesis by (simp add: clock_time2ticks_def ns_def ticks_until_def NSEC_PER_TICK_def)
qed

lemma abstime2ticks_ts:
  assumes "clock_gettime clockid s = (OK, Some cur, s)" "valid_ts cur" "valid_ts abstime"
  shows "clock_abstime2ticks clockid abstime s
    = (OK, Some (if ns abstime < ns cur then -1 else int32 (ticks_until (ns cur) (ns abstime))), s)"
proof (cases "ns abstime < ns cur")
  case True
  then show ?thesis using assms compare_ns [OF assms(3,2)] by (simp add: clock_abstime2ticks_def)
next
  case False
  let ?d = "ns abstime - ns cur"
  define rel where "rel = (if nsec abstime < nsec cur
      then \<lparr>tv_sec = tv_sec abstime - 1 - tv_sec cur, tv_nsec = tv_nsec abstime + word_of_int NSEC_PER_SEC - tv_nsec cur\<rparr>
      else \<lparr>tv_sec = tv_sec abstime - tv_sec cur, tv_nsec = tv_nsec abstime - tv_nsec cur\<rparr>)"
  have rel: "rel = ts_of ?d" using ts_sub [OF assms(3,2)] by (simp add: rel_def)
  have v: "- (2 ^ 31) \<le> nsec abstime - nsec cur" "nsec abstime - nsec cur < 2 ^ 31"
    using assms(2,3) by (simp_all add: valid_ts_def NSEC_PER_SEC_def)
  have "tv_nsec abstime - tv_nsec cur = word_of_int (nsec abstime - nsec cur)" by simp
  then have "sint (tv_nsec abstime - tv_nsec cur) = nsec abstime - nsec cur" using sint_of_int [OF v] by simp
  then have "clock_abstime2ticks clockid abstime s = (let (ret, ticks) = clock_time2ticks rel in (ret, Some ticks, s))"
    using assms(1) False compare_ns [OF assms(3,2)]
    by (simp add: clock_abstime2ticks_def rel_def Let_def algebra_simps)
  also have "clock_time2ticks rel = (OK, int32 (ticks_until 0 ?d))"
    unfolding rel using False ns_range [OF assms(2)] ns_range [OF assms(3)] by (intro time2ticks_ts) auto
  also have "ticks_until 0 ?d = ticks_until (ns cur) (ns abstime)" by (simp add: ticks_until_def)
  finally show ?thesis using False by simp
qed

section \<open>Properties\<close>

text \<open>The time of day in nanoseconds, and the state after a number of timer interrupts.\<close>

definition realtime :: "'z clkstate_scheme \<Rightarrow> int" where
  "realtime s = (ns (g_basetime s) + NSEC_PER_TICK * uint (g_system_timer s)) mod ERA"

abbreviation after_ticks :: "nat \<Rightarrow> 'z clkstate_scheme \<Rightarrow> 'z clkstate_scheme" where
  "after_ticks n \<equiv> clock_timer ^^ n"

lemma after_ticks_fields:
  "g_basetime (after_ticks n s) = g_basetime s" "g_system_timer (after_ticks n s) = g_system_timer s + of_nat n"
  by (induction n) (simp_all add: clock_timer_def)

lemma after_ticks_timer:
  assumes "10 * (uint (g_system_timer s) + int n) < 2 ^ 64"
  shows "uint (g_system_timer (after_ticks n s)) = uint (g_system_timer s) + int n"
proof -
  have "(g_system_timer s + of_nat n) = word_of_int (uint (g_system_timer s) + int n)" by simp
  also have "uint \<dots> = uint (g_system_timer s) + int n"
    using assms by (simp only: uint_word_of_int) (simp add: take_bit_int_eq_self)
  finally show ?thesis unfolding after_ticks_fields .
qed

lemma realtime_after:
  assumes "10 * (uint (g_system_timer s) + int n) < 2 ^ 64"
  shows "realtime (after_ticks n s) = (realtime s + NSEC_PER_TICK * int n) mod ERA"
  unfolding realtime_def after_ticks_timer [OF assms] after_ticks_fields(1) by (simp add: mod_simps algebra_simps)

lemma gettime_realtime:
  assumes "valid_ts (g_basetime s)" "10 * uint (g_system_timer s) < 2 ^ 64"
  shows "clock_gettime CLOCK_REALTIME s = (OK, Some (ts_of (realtime s)), s)"
  using gettime_ts [OF assms] by (simp add: realtime_def ts_of_mod)

text \<open>
  C21. A time of day that is set is the one that is read, advanced by 10 ms for each timer interrupt in between,
  whatever the time since power up is; seconds wrap at 32 bits. The system may be up for \<open>2 ^ 64\<close> milliseconds.
\<close>

theorem clock_set_get:
  assumes "valid_ts tp" "10 * (uint (g_system_timer s) + int n) < 2 ^ 64"
  shows "\<exists>s1. clock_settime CLOCK_REALTIME tp s = Some (OK, s1)
     \<and> clock_gettime CLOCK_REALTIME (after_ticks n s1) = (OK, Some (ts_of (ns tp + NSEC_PER_TICK * int n)), after_ticks n s1)"
proof -
  have t: "10 * uint (g_system_timer s) < 2 ^ 64" using assms(2) by simp
  obtain s1 where s1: "clock_settime CLOCK_REALTIME tp s = Some (OK, s1)" "g_system_timer s1 = g_system_timer s"
    "g_basetime s1 = ts_of (ns tp - NSEC_PER_TICK * uint (g_system_timer s))"
    by (rule settime_ts [OF assms(1) t])
  have n: "10 * (uint (g_system_timer s1) + int n) < 2 ^ 64" using assms(2) s1(2) by simp
  have "realtime s1 = ns tp mod ERA" unfolding realtime_def s1 ns_ts_of by (simp add: mod_simps)
  then have "ts_of (realtime (after_ticks n s1)) = ts_of (ns tp + NSEC_PER_TICK * int n)"
    unfolding realtime_after [OF n] by (intro ts_of_cong) (simp add: mod_simps)
  then have "clock_gettime CLOCK_REALTIME (after_ticks n s1) = (OK, Some (ts_of (ns tp + NSEC_PER_TICK * int n)), after_ticks n s1)"
    using gettime_realtime [of "after_ticks n s1"] n after_ticks_timer [OF n] by (simp add: after_ticks_fields(1) s1(3))
  with s1(1) show ?thesis by blast
qed

text \<open>
  C22. A timeout is neither early nor late: from the number of ticks \<^const>\<open>clock_abstime2ticks\<close> computes for an absolute time in
  the future, as long as it is an \<open>int\<close>, that many timer interrupts are the first to bring the time of day to it.
\<close>

theorem abstime2ticks_reaches:
  assumes "valid_ts (g_basetime s)" "valid_ts abstime" "realtime s \<le> ns abstime" "ns abstime - realtime s \<le> NSEC_PER_TICK * (2 ^ 31 - 1)"
    and up: "10 * (uint (g_system_timer s) + 2 ^ 31) < 2 ^ 64" and era: "ns abstime + NSEC_PER_TICK \<le> ERA"
  shows "\<exists>k. clock_abstime2ticks CLOCK_REALTIME abstime s = (OK, Some (int k), s)
     \<and> ns abstime \<le> realtime (after_ticks k s) \<and> (\<forall>j<k. realtime (after_ticks j s) < ns abstime)"
proof -
  let ?T = "ticks_until (realtime s) (ns abstime)"
  note b = ticks_until_bounds [where now = "realtime s" and goal = "ns abstime"]
  have T: "0 \<le> ?T" "?T < 2 ^ 31" using b assms(3,4) by (simp_all add: NSEC_PER_TICK_def)
  have now: "0 \<le> realtime s" "realtime s < ERA" by (simp_all add: realtime_def) (simp_all add: ERA_def NSEC_PER_SEC_def)
  have r: "realtime (after_ticks j s) = realtime s + NSEC_PER_TICK * int j" if "int j \<le> ?T" for j
  proof -
    have u: "10 * (uint (g_system_timer s) + int j) < 2 ^ 64" using up that T by simp
    have "NSEC_PER_TICK * int j \<le> NSEC_PER_TICK * ?T" using that by (simp add: NSEC_PER_TICK_def)
    then have "realtime s + NSEC_PER_TICK * int j < ERA" using b(2) era by linarith
    then show ?thesis unfolding realtime_after [OF u] using now by (simp add: NSEC_PER_TICK_def)
  qed
  have "realtime (after_ticks j s) < ns abstime" if "j < nat ?T" for j
  proof -
    have "NSEC_PER_TICK * int j \<le> NSEC_PER_TICK * ?T - NSEC_PER_TICK" using that by (simp add: NSEC_PER_TICK_def)
    then show ?thesis using b(2) r [of j] that by linarith
  qed
  moreover have "ns abstime \<le> realtime (after_ticks (nat ?T) s)" using b(1) r [of "nat ?T"] T by simp
  moreover have "clock_abstime2ticks CLOCK_REALTIME abstime s = (OK, Some (int (nat ?T)), s)"
  proof -
    have "ns (ts_of (realtime s)) = realtime s" using now by (simp add: ns_ts_of)
    moreover have "int32 ?T = ?T" using T by (intro sint_of_int) simp_all
    ultimately show ?thesis
      using abstime2ticks_ts [OF gettime_realtime [OF assms(1)] ts_of_valid assms(2)] assms(3) up T by simp
  qed
  ultimately show ?thesis by blast
qed


text \<open>
  C33. Setting the time of day also sets the real time clock: synchronizing with it gives back the seconds that were set, without
  the fraction, for times before 2101.
\<close>

theorem clock_set_synchronize:
  assumes "valid_ts tp" "10 * uint (g_system_timer s) < 2 ^ 64" "g_rtc_enabled (rtc_dev s)" "unat (tv_sec tp) div 86400 < 47847"
  shows "\<exists>s1 s2. clock_settime CLOCK_REALTIME tp s = Some (OK, s1) \<and> clock_synchronize s1 = Some s2
     \<and> clock_gettime CLOCK_REALTIME s2 = (OK, Some \<lparr>tv_sec = tv_sec tp, tv_nsec = 0\<rparr>, s2)"
proof -
  obtain s1 where s1: "clock_settime CLOCK_REALTIME tp s = Some (OK, s1)"
    "g_rtc_enabled (rtc_dev s) \<longrightarrow> Some (up_rtc_getdatetime (rtc_dev s1)) = gmtime_r (tv_sec tp)"
    by (rule settime_ts [OF assms(1,2)])
  let ?b = "\<lparr>tv_sec = tv_sec tp, tv_nsec = 0\<rparr>"
  have "mktime (up_rtc_getdatetime (rtc_dev s1)) = Some (tv_sec tp)"
    using mktime_gmtime [of "tv_sec tp"] s1(2) [rule_format, OF assms(3), symmetric] assms(4) by simp
  then have sync: "clock_synchronize s1 = Some (s1\<lparr>g_basetime := ?b, g_system_timer := 0\<rparr>)"
    by (simp add: clock_synchronize_def clock_inittime_def clock_basetime_def)
  have v: "valid_ts ?b" by (simp add: valid_ts_def NSEC_PER_SEC_def)
  then have "clock_gettime CLOCK_REALTIME (s1\<lparr>g_basetime := ?b, g_system_timer := 0\<rparr>)
      = (OK, Some ?b, s1\<lparr>g_basetime := ?b, g_system_timer := 0\<rparr>)"
    using gettime_ts [of "s1\<lparr>g_basetime := ?b, g_system_timer := 0\<rparr>"] by (simp add: ts_of_ns)
  with s1(1) sync show ?thesis by blast
qed

section \<open>Example\<close>

text \<open>One second after power up on 1 January 2020.\<close>

definition ex_clk :: clkstate where
  "ex_clk = wdstate.extend ex_wd \<lparr>g_system_timer = 100, g_basetime = \<lparr>tv_sec = 1577836800, tv_nsec = 0\<rparr>,
     rtc_dev = \<lparr>regs = \<lparr>bcdsec = 0, bcdmin = 0, bcdhour = 0, bcdday = 1, bcdmon = 1, bcdyear = 0x120\<rparr>,
                g_rtc_enabled = True, g_rtc_setted = True\<rparr>\<rparr>"

lemma ex_clk_obs [simp]:
  "g_system_timer ex_clk = 100" "g_basetime ex_clk = \<lparr>tv_sec = 1577836800, tv_nsec = 0\<rparr>" "g_rtc_enabled (rtc_dev ex_clk)"
  by (simp_all add: ex_clk_def wdstate.defs semstate.defs)

lemma ex_clk_realtime: "realtime ex_clk = 1577836801 * 10 ^ 9"
  by (simp add: realtime_def ns_def NSEC_PER_SEC_def NSEC_PER_TICK_def ERA_def)

theorem clock_set_get_witness:
  "\<exists>s1. clock_settime CLOCK_REALTIME \<lparr>tv_sec = 5, tv_nsec = 990000000\<rparr> ex_clk = Some (OK, s1)
     \<and> clock_gettime CLOCK_REALTIME (after_ticks 3 s1) = (OK, Some \<lparr>tv_sec = 6, tv_nsec = 20000000\<rparr>, after_ticks 3 s1)"
  using clock_set_get [of "\<lparr>tv_sec = 5, tv_nsec = 990000000\<rparr>" ex_clk 3]
  by (simp add: valid_ts_def ns_def ts_of_def NSEC_PER_SEC_def NSEC_PER_TICK_def)

theorem abstime2ticks_reaches_witness:
  "\<exists>k. clock_abstime2ticks CLOCK_REALTIME \<lparr>tv_sec = 1577836802, tv_nsec = 1\<rparr> ex_clk = (OK, Some (int k), ex_clk)
     \<and> (\<forall>j<k. realtime (after_ticks j ex_clk) < 1577836802 * 10 ^ 9 + 1)"
  using abstime2ticks_reaches [of ex_clk "\<lparr>tv_sec = 1577836802, tv_nsec = 1\<rparr>"]
  by (auto simp: ex_clk_realtime valid_ts_def ns_def NSEC_PER_SEC_def NSEC_PER_TICK_def ERA_def)


theorem clock_set_synchronize_witness:
  "\<exists>s1 s2. clock_settime CLOCK_REALTIME \<lparr>tv_sec = 951782400, tv_nsec = 7\<rparr> ex_clk = Some (OK, s1) \<and> clock_synchronize s1 = Some s2
     \<and> clock_gettime CLOCK_REALTIME s2 = (OK, Some \<lparr>tv_sec = 951782400, tv_nsec = 0\<rparr>, s2)"
  using clock_set_synchronize [of "\<lparr>tv_sec = 951782400, tv_nsec = 7\<rparr>" ex_clk]
  by (simp add: valid_ts_def NSEC_PER_SEC_def)

end
