(* ===== verification/Sem_Timed.thy ===== *)
theory Sem_Timed
  imports Clock
begin

text \<open>
  Waiting with a timeout (src/os/kernel/semaphore/sem_timedwait.c) and the system timer interrupt
  (src/os/kernel/sched/sched_processtimer.c), which put the scheduler, the semaphores, the watchdog timers
  and the clock together. The watchdog routine of a timed wait meets the contract of theory \<open>Wdog_Spec\<close>.
\<close>

section \<open>Definitions\<close>

definition ENOMEM :: int where "ENOMEM = 12"

text \<open>The code address of \<open>sem_timeout\<close>.\<close>

definition SEM_TIMEOUT :: nat where "SEM_TIMEOUT = 1"

text \<open>
  The call of a watchdog routine by \<open>wd_expiration\<close>; \<open>sem_timeout\<close> takes its argument as a \<open>pid_t\<close>, a number of 16 bits. The
  routines of other components are not started in this theory.
\<close>

definition wd_call :: "nat \<Rightarrow> 32 word list \<Rightarrow> 'z wdstate_scheme \<Rightarrow> 'z wdstate_scheme option" where
  "wd_call f args s =
     (if f = SEM_TIMEOUT
      then case args of
             [p] \<Rightarrow> do { (_, s) \<leftarrow> sem_timeout (int16 (uint p)) s; Some s }
           | _ \<Rightarrow> None
      else None)"

definition getpid :: "'z kstate_scheme \<Rightarrow> int" where
  "getpid s = (case this_task s of Some rtcb \<Rightarrow> pid (tcbs s rtcb) | None \<Rightarrow> 0)"

text \<open>\<open>wd_delete(rtcb->waitdog); rtcb->waitdog = NULL;\<close>\<close>

definition drop_waitdog :: "addr \<Rightarrow> 'z wdstate_scheme \<Rightarrow> 'z wdstate_scheme option" where
  "drop_waitdog rtcb s = do {
     w \<leftarrow> waitdog (tcbs s rtcb);
     (_, s) \<leftarrow> wd_delete w s;
     Some (upd_tcb rtcb (\<lambda>b. b\<lparr>waitdog := None\<rparr>) s)
   }"

text \<open>What follows the call of \<open>sem_wait\<close>.\<close>

definition sem_timedwait_finish :: "addr \<Rightarrow> int \<Rightarrow> 'z wdstate_scheme \<Rightarrow> (int outcome \<times> 'z wdstate_scheme) option" where
  "sem_timedwait_finish rtcb ret s = do {
     let errcode = (if ret < 0 then get_errno s else OK);
     (_, s) \<leftarrow> wd_cancel (waitdog (tcbs s rtcb)) s;
     s \<leftarrow> drop_waitdog rtcb s;
     Some (Done ret, if ret < 0 then set_errno errcode s else s)
   }"

definition sem_timedwait_resume :: "addr \<Rightarrow> 'z wdstate_scheme \<Rightarrow> (int outcome \<times> 'z wdstate_scheme) option" where
  "sem_timedwait_resume rtcb s = do {
     (r, s) \<leftarrow> sem_wait_resume s;
     case r of Switched \<Rightarrow> Some (Switched, s) | Done ret \<Rightarrow> sem_timedwait_finish rtcb ret s
   }"

text \<open>The exit \<open>errout_disabled\<close>.\<close>

definition sem_timedwait_error :: "addr \<Rightarrow> int \<Rightarrow> 'z wdstate_scheme \<Rightarrow> (int outcome \<times> 'z wdstate_scheme) option" where
  "sem_timedwait_error rtcb errcode s = do {
     s \<leftarrow> drop_waitdog rtcb s;
     Some (Done ERROR, set_errno errcode s)
   }"

text \<open>The calls with interrupts disabled, once the timer is reserved.\<close>

definition sem_timedwait_try :: "addr \<Rightarrow> ptr \<Rightarrow> timespec \<Rightarrow> 'z clkstate_scheme \<Rightarrow> (int outcome \<times> 'z clkstate_scheme) option" where
  "sem_timedwait_try rtcb p abstime s = do {
     (ret, s) \<leftarrow> sem_trywait p s;
     if ret = OK then do { s \<leftarrow> drop_waitdog rtcb s; Some (Done OK, s) }
     else if nsec abstime < 0 \<or> nsec abstime \<ge> 1000000000 then sem_timedwait_error rtcb EINVAL s
     else do {
       let (errcode, ticks, s) = clock_abstime2ticks CLOCK_REALTIME abstime s;
       case ticks of
         None \<Rightarrow> sem_timedwait_error rtcb errcode s
       | Some ticks \<Rightarrow>
           if errcode = OK \<and> ticks \<le> 0 then sem_timedwait_error rtcb ETIMEDOUT s
           else if errcode \<noteq> OK then sem_timedwait_error rtcb errcode s
           else do {
             (_, s) \<leftarrow> wd_start (waitdog (tcbs s rtcb)) ticks SEM_TIMEOUT [word_of_int (getpid s)] s;
             (r, s) \<leftarrow> sem_wait p s;
             case r of Switched \<Rightarrow> Some (Switched, s) | Done ret \<Rightarrow> sem_timedwait_finish rtcb ret s
           }
     }
   }"

text \<open>The first argument is the result of \<open>kmm_malloc\<close> in \<open>wd_create\<close>.\<close>

definition sem_timedwait :: "ptr \<Rightarrow> ptr \<Rightarrow> timespec \<Rightarrow> 'z clkstate_scheme \<Rightarrow> (int outcome \<times> 'z clkstate_scheme) option" where
  "sem_timedwait m p abstime s = do {
     rtcb \<leftarrow> this_task s;
     ASSERT (p \<noteq> None);
     ASSERT (\<not> current_regs s \<and> waitdog (tcbs s rtcb) = None);
     (w, s) \<leftarrow> wd_create m s;
     let s = upd_tcb rtcb (\<lambda>b. b\<lparr>waitdog := w\<rparr>) s;
     if w = None then Some (Done ERROR, set_errno ENOMEM s)
     else sem_timedwait_try rtcb p abstime s
   }"

text \<open>The processing of a tick; CPU load measurement is not configured.\<close>

definition sched_process_timer :: "'z clkstate_scheme \<Rightarrow> 'z clkstate_scheme option" where
  "sched_process_timer s = do {
     let s = clock_timer s;
     s \<leftarrow> wd_timer wd_call s;
     sched_process_timeslice s
   }"

text \<open>
  The timer interrupt: \<open>arm_doirq\<close> (src/os/arch/arm/src/armv7-r/arm_doirq.c) around \<open>up_timerisr\<close>
  (src/os/arch/arm/src/s5j/s5j_timerisr.c). The task to run afterwards is the head of the ready list.
\<close>

definition timer_irq :: "'z clkstate_scheme \<Rightarrow> 'z clkstate_scheme option" where
  "timer_irq s = do {
     ASSERT (\<not> current_regs s);
     let s = s\<lparr>current_regs := True\<rparr>;
     s \<leftarrow> sched_process_timer s;
     Some (s\<lparr>current_regs := False\<rparr>)
   }"

section \<open>The watchdog routine\<close>

lemma more_wd:
  fixes s s' :: "'z wdstate_scheme"
  assumes "semstate.more s' = semstate.more s"
  shows "wdogs s' = wdogs s" "g_wdactivelist s' = g_wdactivelist s" "g_wdfreelist s' = g_wdfreelist s" "g_wdnfree s' = g_wdnfree s"
    "wdstate.more s' = wdstate.more s"
  using assms by (cases s; cases s'; simp)+

lemma wd_ok_more: "semstate.more s' = semstate.more s \<Longrightarrow> wd_ok pool s' = wd_ok pool s"
  using more_wd [of s' s] by (simp add: wd_ok_def WDOG_ISACTIVE_def)

text \<open>What a timed wait that ends shows of task \<open>t\<close>.\<close>

definition timed_out :: "addr \<Rightarrow> 'z kstate_scheme \<Rightarrow> bool" where
  "timed_out t s = (waitsem (tcbs s t) = None \<and> pterrno (tcbs s t) = ETIMEDOUT \<and> t \<in># runnable s)"

definition sem_good :: "addr \<Rightarrow> 'z semstate_scheme \<Rightarrow> bool" where
  "sem_good idle s = (sem_inv idle s \<and> current_regs s)"

lemma sem_timeout_post:
  assumes g: "sem_good idle s"
  obtains r s' where "sem_timeout p s = Some (r, s')" "sem_good idle s'" "semstate.more s' = semstate.more s"
    "g_pidhash s' = g_pidhash s"
    "\<forall>t. sched_gettcb p s = Some t \<longrightarrow> waitsem (tcbs s t) \<noteq> None \<longrightarrow> timed_out t s'"
    "\<forall>t. sched_gettcb p s \<noteq> Some t \<or> waitsem (tcbs s t) = None \<longrightarrow>
       waitsem (tcbs s' t) = waitsem (tcbs s t) \<and> pterrno (tcbs s' t) = pterrno (tcbs s t) \<and> (t \<in># runnable s \<longrightarrow> t \<in># runnable s')"
proof (cases "\<exists>t. sched_gettcb p s = Some t \<and> task_state (tcbs s t) = TSTATE_WAIT_SEM")
  case True
  then obtain t where t: "sched_gettcb p s = Some t" "task_state (tcbs s t) = TSTATE_WAIT_SEM" by blast
  have inv: "sem_inv idle s" "current_regs s" using g by (simp_all add: sem_good_def)
  have "t \<in> set (lists s WaitingForSemaphore)"
    using inv t(2) by (simp add: sem_inv_def sem_core_def sched_inv_def core_defs lists_ok_member)
  then obtain sem where w: "waitsem (tcbs s t) = Some sem"
    using waits_ok_mem [of s t] inv(1) by (auto simp: sem_inv_def)
  obtain s' where s': "sem_waitirq t ETIMEDOUT s = Some (Done OK, s')" "sem_inv idle s'" "waitsem (tcbs s' t) = None"
    "pterrno (tcbs s' t) = ETIMEDOUT" "t \<in># runnable s'" "semcount (sems s' sem) = semcount (sems s sem) + 1"
    "current_regs s'" "semstate.more s' = semstate.more s" "g_pidhash s' = g_pidhash s" "runnable s' = add_mset t (runnable s)"
    "\<forall>u. u \<noteq> t \<longrightarrow> waitsem (tcbs s' u) = waitsem (tcbs s u) \<and> pterrno (tcbs s' u) = pterrno (tcbs s u)"
    by (rule sem_waitirq_post [OF inv w])
  have "u \<noteq> t" if "sched_gettcb p s \<noteq> Some u \<or> waitsem (tcbs s u) = None" for u using that t(1) w by auto
  then show ?thesis using s' t
    by (intro that [of "Done OK" s']) (simp_all add: sem_timeout_def sem_good_def timed_out_def)
next
  case False
  then have "sem_timeout p s = Some (Done 0, s)" by (auto simp: sem_timeout_def split: option.split)
  moreover have "waitsem (tcbs s t) = None" if "sched_gettcb p s = Some t" for t
  proof -
    have "sched_core idle s" "waits_ok s" using g by (simp_all add: sem_good_def sem_inv_def sem_core_def sched_inv_def)
    moreover have "task_state (tcbs s t) \<noteq> TSTATE_WAIT_SEM" using False that by blast
    then have "t \<notin> set (lists s WaitingForSemaphore)" using core_lists(1) [OF \<open>sched_core idle s\<close>]
      by (cases "task_state (tcbs s t)") (simp_all add: lists_ok_member)
    ultimately show ?thesis using waits_ok_mem [of s t] by simp
  qed
  ultimately show ?thesis using g by (intro that [of "Done 0" s]) auto
qed

definition wd_legal :: "nat \<Rightarrow> 32 word list \<Rightarrow> bool" where
  "wd_legal f args = (f = SEM_TIMEOUT \<and> length args = 1)"

lemma sem_inv_cong:
  assumes "tcbs s' = tcbs s" "lists s' = lists s" "g_pidhash s' = g_pidhash s" "sems s' = sems s" "holders s' = holders s"
    "g_freeholders s' = g_freeholders s"
  shows "sem_inv idle s' = sem_inv idle s"
  using assms
  by (simp add: sem_inv_def sem_core_def waits_ok_def nwaiters_def holder_pool_def holders_ok_def reprio_ok_def
      sched_verifytcb_def sched_inv_def pend_ok_def core_defs lists_ok_def)

lemma sem_inv_outer: "wd_outer s' = wd_outer s \<Longrightarrow> sem_inv idle s' = sem_inv idle s"
  using wd_outer_fields [of s' s] by (intro sem_inv_cong) simp_all

lemma sem_good_rest: "wd_rest s' = wd_rest s \<Longrightarrow> sem_good idle s \<Longrightarrow> sem_good idle s'"
  using sem_inv_outer [OF wd_outer_rest, of s' s] wd_rest_fields(9) [of s' s] by (simp add: sem_good_def)

lemma wd_call_post:
  assumes "wd_legal f args" "sem_good idle s"
  obtains p r s' where "args = [p]" "sem_timeout (int16 (uint p)) s = Some (r, s')" "wd_call f args s = Some s'"
    "sem_good idle s'" "semstate.more s' = semstate.more s" "g_pidhash s' = g_pidhash s"
    "\<forall>t. sched_gettcb (int16 (uint p)) s = Some t \<longrightarrow> waitsem (tcbs s t) \<noteq> None \<longrightarrow> timed_out t s'"
    "\<forall>t. sched_gettcb (int16 (uint p)) s \<noteq> Some t \<or> waitsem (tcbs s t) = None \<longrightarrow>
       waitsem (tcbs s' t) = waitsem (tcbs s t) \<and> pterrno (tcbs s' t) = pterrno (tcbs s t) \<and> (t \<in># runnable s \<longrightarrow> t \<in># runnable s')"
proof -
  obtain p where p: "f = SEM_TIMEOUT" "args = [p]" using assms(1) by (auto simp: wd_legal_def length_Suc_conv)
  show ?thesis by (rule sem_timeout_post [OF assms(2), of "int16 (uint p)"]) (rule that [of p], use p in \<open>simp_all add: wd_call_def\<close>)
qed

interpretation timed: wd_quiet pool wd_call wd_legal "sem_good idle" for pool idle
proof
  show "wd_rest s' = wd_rest s \<Longrightarrow> sem_good idle s \<Longrightarrow> sem_good idle s'" for s' s :: "'a wdstate_scheme"
    by (rule sem_good_rest)
  show "\<exists>s'. wd_call f args s = Some s' \<and> wd_ok pool s' \<and> all_legal wd_legal s' \<and> sem_good idle s' \<and> due s' \<le> due s"
    if h: "wd_legal f args" "wd_ok pool s" "all_legal wd_legal s" "sem_good idle s" for f args and s :: "'a wdstate_scheme"
  proof -
    obtain s' where s': "wd_call f args s = Some s'" "sem_good idle s'" "semstate.more s' = semstate.more s"
      by (rule wd_call_post [OF h(1,4)])
    then show ?thesis using h wd_ok_more [OF s'(3)] more_wd [OF s'(3)] by (auto simp: all_legal_def due_def)
  qed
  show "wdogs s' = wdogs s \<and> g_wdactivelist s' = g_wdactivelist s"
    if h: "wd_legal f args" "sem_good idle s" "wd_call f args s = Some s'" for f args and s s' :: "'a wdstate_scheme"
  proof -
    obtain u where "wd_call f args s = Some u" "semstate.more u = semstate.more s" by (rule wd_call_post [OF h(1,2)])
    then show ?thesis using h(3) more_wd [of s' s] by simp
  qed
qed

section \<open>The timer interrupt\<close>

text \<open>The invariant of the kernel between interrupts.\<close>

definition clk_inv :: "addr set \<Rightarrow> addr \<Rightarrow> 'z clkstate_scheme \<Rightarrow> bool" where
  "clk_inv pool idle s = (sem_inv idle s \<and> wd_ok pool s \<and> all_legal wd_legal s \<and> due s = 0 \<and> \<not> current_regs s)"

text \<open>Wait for the timeout of task \<open>t\<close> with process id \<open>p\<close>: it waits for a semaphore, or its wait has timed out.\<close>

definition bound :: "addr \<Rightarrow> int \<Rightarrow> 'z semstate_scheme \<Rightarrow> bool" where
  "bound t p s = (sched_gettcb p s = Some t \<and> (waitsem (tcbs s t) \<noteq> None \<or> timed_out t s))"

lemma gettcb_cong: "g_pidhash s' = g_pidhash s \<Longrightarrow> sched_gettcb p s' = sched_gettcb p s"
  by (simp add: sched_gettcb_def)

lemma bound_cong:
  assumes "g_pidhash s' = g_pidhash s" "waitsem (tcbs s' t) = waitsem (tcbs s t)" "pterrno (tcbs s' t) = pterrno (tcbs s t)"
    "runnable s' = runnable s"
  shows "bound t p s' = bound t p s" "timed_out t s' = timed_out t s"
  using assms by (simp_all add: bound_def timed_out_def sched_gettcb_def)

lemma wd_call_bound:
  assumes "wd_legal f args" "sem_good idle s" "wd_call f args s = Some s'" "bound t p s"
  shows "bound t p s'" "timed_out t s \<longrightarrow> timed_out t s'" "args = [q] \<Longrightarrow> int16 (uint q) = p \<Longrightarrow> timed_out t s'"
proof -
  obtain q' u where u: "args = [q']" "wd_call f args s = Some u" "g_pidhash u = g_pidhash s"
    "\<forall>t. sched_gettcb (int16 (uint q')) s = Some t \<longrightarrow> waitsem (tcbs s t) \<noteq> None \<longrightarrow> timed_out t u"
    "\<forall>t. sched_gettcb (int16 (uint q')) s \<noteq> Some t \<or> waitsem (tcbs s t) = None \<longrightarrow>
       waitsem (tcbs u t) = waitsem (tcbs s t) \<and> pterrno (tcbs u t) = pterrno (tcbs s t) \<and> (t \<in># runnable s \<longrightarrow> t \<in># runnable u)"
    by (rule wd_call_post [OF assms(1,2)])
  have same: "u = s'" using u(2) assms(3) by simp
  show out: "timed_out t s \<longrightarrow> timed_out t s'" using u(5) unfolding timed_out_def same by metis
  have g: "sched_gettcb p s' = sched_gettcb p s" using u(3) by (simp add: sched_gettcb_def same)
  show "bound t p s'" using assms(4) out g u(4,5) unfolding bound_def same by metis
  show "timed_out t s'" if "args = [q]" "int16 (uint q) = p"
    using that assms(4) u(1,4) out unfolding bound_def same by auto
qed

lemma wd_timer_awaits:
  assumes "timed.ready pool idle s" "due s = 0" "bound t (int16 (uint q)) s" "awaits (timed_out t) w (SEM_TIMEOUT, [q]) s"
    "wd_timer wd_call s = Some s'"
  shows "bound t (int16 (uint q)) s' \<and> awaits (timed_out t) w (SEM_TIMEOUT, [q]) s'"
proof (rule timed.timer_awaits [where R = "bound t (int16 (uint q))", OF _ _ _ assms])
  fix f args and u u' :: "'a wdstate_scheme"
  assume h: "timed.ready pool idle u" "wd_legal f args" "wd_call f args u = Some u'" "bound t (int16 (uint q)) u"
  then have "sem_good idle u" by (simp add: timed.ready_def)
  then show "bound t (int16 (uint q)) u' \<and> (timed_out t u \<longrightarrow> timed_out t u')" using wd_call_bound(1,2) [OF h(2) _ h(3,4)] by blast
next
  fix u u' :: "'a wdstate_scheme" assume "wd_rest u' = wd_rest u" "bound t (int16 (uint q)) u"
  then show "bound t (int16 (uint q)) u' \<and> (timed_out t u \<longrightarrow> timed_out t u')"
    using bound_cong(1) [of u' u t "int16 (uint q)"] bound_cong(2) [of u' u t] wd_outer_fields [OF wd_outer_rest, of u' u] by simp
next
  fix u u' :: "'a wdstate_scheme"
  assume h: "timed.ready pool idle u" "bound t (int16 (uint q)) u" "(case (SEM_TIMEOUT, [q]) of (f, args) \<Rightarrow> wd_call f args) u = Some u'"
  then show "timed_out t u'"
    using wd_call_bound(3) [of SEM_TIMEOUT "[q]" idle u u' t "int16 (uint q)" q] by (simp add: timed.ready_def wd_legal_def)
qed

text \<open>One interrupt: it returns, keeps the invariant, advances the time and takes one tick from every timer.\<close>

definition irq_ready :: "addr set \<Rightarrow> addr \<Rightarrow> 'z wdstate_scheme \<Rightarrow> bool" where
  "irq_ready pool idle s = (wd_ok pool s \<and> all_legal wd_legal s \<and> sem_good idle s)"

lemma timed_ready: "timed.ready pool idle s = irq_ready pool idle s"
  by (simp add: timed.ready_def irq_ready_def)

abbreviation wd_part :: "'z wdstate_scheme \<Rightarrow> (addr \<Rightarrow> wdog) \<times> addr list \<times> addr list \<times> nat" where
  "wd_part s \<equiv> (wdogs s, g_wdactivelist s, g_wdfreelist s, g_wdnfree s)"

lemma wd_part_cong:
  assumes "wd_part s' = wd_part s"
  shows "wd_ok pool s' = wd_ok pool s" "all_legal l s' = all_legal l s" "timers s' = timers s" "due s' = due s"
    "w \<in> set (g_wdactivelist s') \<and> call_of s' w = c \<longleftrightarrow> w \<in> set (g_wdactivelist s) \<and> call_of s w = c"
  using assms by (simp_all add: wd_ok_def WDOG_ISACTIVE_def all_legal_def due_def)

lemma wd_timer_more:
  assumes "irq_ready pool idle s" "due s = 0" "wd_timer wd_call s = Some s'"
  shows "wdstate.more s' = wdstate.more s"
proof -
  have "wdstate.more s' = wdstate.more s \<and> awaits (\<lambda>_. True) 0 (0, []) s'"
  proof (rule timed.timer_awaits [where R = "\<lambda>u. wdstate.more u = wdstate.more s" and Q = "\<lambda>_. True" and s = s and s' = s'])
    show "timed.ready pool idle s" using assms(1) by (simp add: timed_ready)
    fix f args and u u' :: "'a wdstate_scheme"
    assume h: "timed.ready pool idle u" "wd_legal f args" "wd_call f args u = Some u'" "wdstate.more u = wdstate.more s"
    then have g: "sem_good idle u" by (simp add: timed.ready_def)
    obtain v where "wd_call f args u = Some v" "semstate.more v = semstate.more u" by (rule wd_call_post [OF h(2) g])
    then show "wdstate.more u' = wdstate.more s \<and> (True \<longrightarrow> True)" using h(3,4) more_wd(5) [of u' u] by simp
  next
    fix u u' :: "'a wdstate_scheme" assume "wd_rest u' = wd_rest u" "wdstate.more u = wdstate.more s"
    then show "wdstate.more u' = wdstate.more s \<and> (True \<longrightarrow> True)" using wd_outer_fields(8) [OF wd_outer_rest, of u' u] by simp
  qed (use assms in \<open>simp_all add: awaits_def\<close>)
  then show ?thesis by simp
qed

lemma sem_good_lock_kept:
  assumes "sem_good idle s" "sched_inv idle s'" "lock_kept s s'"
  shows "sem_good idle s'"
  using assms sem_inv_lock_kept [of idle s s'] lock_kept_fields(11) [OF assms(3)] by (simp add: sem_good_def)

definition tick :: "(addr \<times> int) list \<Rightarrow> (addr \<times> int) list" where
  "tick q = filter (\<lambda>e. 0 < snd e) (map (\<lambda>(w, d). (w, d - 1)) q)"

definition watched :: "addr \<Rightarrow> 32 word \<Rightarrow> addr \<Rightarrow> 'z wdstate_scheme \<Rightarrow> bool" where
  "watched t q w s = (bound t (int16 (uint q)) s \<and> awaits (timed_out t) w (SEM_TIMEOUT, [q]) s)"

lemma watched_cong:
  assumes "wd_part s' = wd_part s" "g_pidhash s' = g_pidhash s" "waitsem (tcbs s' t) = waitsem (tcbs s t)"
    "pterrno (tcbs s' t) = pterrno (tcbs s t)" "runnable s' = runnable s"
  shows "watched t q w s' = watched t q w s"
  unfolding watched_def awaits_def wd_part_cong(5) [OF assms(1)] bound_cong(1) [OF assms(2-5)] bound_cong(2) [OF assms(2-5)] ..

lemma process_timer_post:
  assumes r: "irq_ready pool idle s" "due s = 0"
  obtains s' where "sched_process_timer s = Some s'" "irq_ready pool idle s'" "due s' = 0" "timers s' = tick (timers s)"
    "g_system_timer s' = g_system_timer s + 1" "g_basetime s' = g_basetime s"
    "\<forall>t q w. watched t q w s \<longrightarrow> watched t q w s'"
proof -
  let ?c = "clock_timer s"
  have p1: "wd_part ?c = wd_part s" by (simp add: clock_timer_def)
  have "sem_inv idle ?c = sem_inv idle s" by (rule sem_inv_cong) (simp_all add: clock_timer_def)
  then have r1: "irq_ready pool idle ?c" "due ?c = 0"
    using r wd_part_cong [OF p1] by (simp_all add: irq_ready_def sem_good_def clock_timer_def)
  obtain s2 where s2: "wd_timer wd_call ?c = Some s2" "irq_ready pool idle s2" "due s2 = 0"
    using timed.timer_returns [of pool idle ?c] r1 by (auto simp: timed_ready)
  have t2: "timers s2 = tick (timers s)"
    using timed.timer_timers [of pool idle ?c s2] r1 s2(1) wd_part_cong(3) [OF p1] by (simp add: timed_ready tick_def)
  have m2: "wdstate.more s2 = wdstate.more ?c" by (rule wd_timer_more [OF r1 s2(1)])
  have w2: "watched t q w s2" if "watched t q w s" for t q w
    using that watched_cong [OF p1, of t q w] wd_timer_awaits [of pool idle ?c t q w s2] r1 s2(1)
    by (simp add: timed_ready watched_def clock_timer_def)
  have g2: "sem_good idle s2" "sched_inv idle s2" using s2(2) by (simp_all add: irq_ready_def sem_good_def sem_inv_def sem_core_def)
  obtain s' where s': "sched_process_timeslice s2 = Some s'" "sched_inv idle s'" "lock_kept s2 s'" "runnable s' = runnable s2"
    by (rule sched_process_timeslice_inv [OF g2(2)])
  note f = lock_kept_fields [OF s'(3)]
  have more: "kstate.more s' = kstate.more s2" by (rule f)
  have p3: "wd_part s' = wd_part s2" and m3: "wdstate.more s' = wdstate.more s2" using more by (cases s'; cases s2; simp)+
  have "sem_good idle s'" by (rule sem_good_lock_kept [OF g2(1) s'(2,3)])
  then have "irq_ready pool idle s'" "due s' = 0" "timers s' = tick (timers s)"
    using s2(2,3) t2 wd_part_cong [OF p3] by (simp_all add: irq_ready_def)
  moreover have "g_system_timer s' = g_system_timer s + 1" "g_basetime s' = g_basetime s"
    using m2 m3 by (cases s'; cases s2; cases s; simp add: clock_timer_def)+
  moreover have "\<forall>t q w. watched t q w s \<longrightarrow> watched t q w s'"
    using w2 watched_cong [OF p3] s'(4) f by simp
  moreover have "sched_process_timer s = Some s'" using s2(1) s'(1) by (simp add: sched_process_timer_def)
  ultimately show ?thesis by (intro that) simp_all
qed

lemma timer_irq_post:
  assumes inv: "clk_inv pool idle s"
  obtains s' where "timer_irq s = Some s'" "clk_inv pool idle s'" "timers s' = tick (timers s)"
    "g_system_timer s' = g_system_timer s + 1" "g_basetime s' = g_basetime s" "\<forall>t q w. watched t q w s \<longrightarrow> watched t q w s'"
proof -
  let ?s = "s\<lparr>current_regs := True\<rparr>"
  have p: "wd_part ?s = wd_part s" by simp
  have r: "irq_ready pool idle ?s" "due ?s = 0"
    using inv wd_part_cong [OF p] by (simp_all add: clk_inv_def irq_ready_def sem_good_def sem_inv_regs)
  obtain u where u: "sched_process_timer ?s = Some u" "irq_ready pool idle u" "due u = 0" "timers u = tick (timers ?s)"
    "g_system_timer u = g_system_timer ?s + 1" "g_basetime u = g_basetime ?s" "\<forall>t q w. watched t q w ?s \<longrightarrow> watched t q w u"
    by (rule process_timer_post [OF r])
  let ?u = "u\<lparr>current_regs := False\<rparr>"
  have pu: "wd_part ?u = wd_part u" by simp
  have "clk_inv pool idle ?u"
    using u(2,3) wd_part_cong [OF pu] by (simp add: clk_inv_def irq_ready_def sem_good_def sem_inv_regs)
  moreover have "timer_irq s = Some ?u" using inv u(1) by (simp add: timer_irq_def clk_inv_def)
  moreover have "watched t q w s \<longrightarrow> watched t q w ?u" for t q w
    using u(7) watched_cong [OF p, of t q w] watched_cong [OF pu, of t q w] by simp
  ultimately show ?thesis using u by (intro that [of ?u]) simp_all
qed

fun timer_irqs :: "nat \<Rightarrow> 'z clkstate_scheme \<Rightarrow> 'z clkstate_scheme option" where
  "timer_irqs 0 s = Some s"
| "timer_irqs (Suc n) s = Option.bind (timer_irq s) (timer_irqs n)"

lemma tick_pow:
  "filter (\<lambda>e. 0 < snd e) (map (\<lambda>(w, d). (w, d - int n)) (tick q)) = filter (\<lambda>e. 0 < snd e) (map (\<lambda>(w, d). (w, d - int (Suc n))) q)"
  by (induction q) (auto simp: tick_def)

lemma timer_irqs_post:
  "clk_inv pool idle s \<Longrightarrow> \<exists>s'. timer_irqs n s = Some s' \<and> clk_inv pool idle s'
     \<and> timers s' = filter (\<lambda>e. 0 < snd e) (map (\<lambda>(w, d). (w, d - int n)) (timers s))
     \<and> g_system_timer s' = g_system_timer s + of_nat n \<and> g_basetime s' = g_basetime s
     \<and> (\<forall>t q w. watched t q w s \<longrightarrow> watched t q w s')"
proof (induction n arbitrary: s)
  case 0
  have "filter (\<lambda>e. 0 < snd e) (timers s) = timers s"
    using 0 by (simp add: clk_inv_def due_def filter_empty_conv filter_id_conv not_le)
  moreover have "map (\<lambda>(w, d). (w, d - int 0)) (timers s) = timers s" by (simp add: case_prod_beta)
  ultimately show ?case using 0 by simp
next
  case (Suc n)
  obtain s1 where s1: "timer_irq s = Some s1" "clk_inv pool idle s1" "timers s1 = tick (timers s)"
    "g_system_timer s1 = g_system_timer s + 1" "g_basetime s1 = g_basetime s" "\<forall>t q w. watched t q w s \<longrightarrow> watched t q w s1"
    by (rule timer_irq_post [OF Suc.prems])
  obtain s' where s': "timer_irqs n s1 = Some s'" "clk_inv pool idle s'"
     "timers s' = filter (\<lambda>e. 0 < snd e) (map (\<lambda>(w, d). (w, d - int n)) (timers s1))"
     "g_system_timer s' = g_system_timer s1 + of_nat n" "g_basetime s' = g_basetime s1" "\<forall>t q w. watched t q w s1 \<longrightarrow> watched t q w s'"
    using Suc.IH [OF s1(2)] by blast
  have "timers s' = filter (\<lambda>e. 0 < snd e) (map (\<lambda>(w, d). (w, d - int (Suc n))) (timers s))"
    unfolding s'(3) s1(3) by (rule tick_pow)
  with s1 s' show ?case by simp
qed

text \<open>
  C17. The timer interrupt always completes: from a state in which the invariants of the scheduler, the semaphores and the timers hold,
  any number of interrupts runs without failing, keeps them, advances the tick counter by one each and takes away exactly the timers
  whose remaining time has passed, however many expire at the same tick.
\<close>

theorem timer_irqs_correct:
  assumes "clk_inv pool idle s"
  shows "\<exists>s'. timer_irqs n s = Some s' \<and> clk_inv pool idle s'
     \<and> timers s' = filter (\<lambda>e. 0 < snd e) (map (\<lambda>(w, d). (w, d - int n)) (timers s))
     \<and> g_system_timer s' = g_system_timer s + of_nat n \<and> g_basetime s' = g_basetime s"
  using timer_irqs_post [OF assms, of n] by blast

lemma watched_fires:
  assumes inv: "clk_inv pool idle s" and w: "(w, d) \<in> set (timers s)" and b: "watched t q w s" and n: "d \<le> int n"
  obtains s' where "timer_irqs n s = Some s'" "clk_inv pool idle s'" "timed_out t s'"
proof -
  obtain s' where s': "timer_irqs n s = Some s'" "clk_inv pool idle s'"
     "timers s' = filter (\<lambda>e. 0 < snd e) (map (\<lambda>(w, d). (w, d - int n)) (timers s))" "watched t q w s'"
    using timer_irqs_post [OF inv, of n] b by blast
  have "distinct (map fst (timers s))" using inv by (simp add: clk_inv_def wd_ok_def)
  then have u: "d' = d" if "(w, d') \<in> set (timers s)" for d' using that w by (metis eq_key_imp_eq_value)
  have "w \<notin> fst ` set (timers s')" unfolding s'(3) using u n by fastforce
  then have "w \<notin> set (g_wdactivelist s')" by (metis map_fst_deadlines set_map)
  then have "timed_out t s'" using s'(4) by (simp add: watched_def awaits_def)
  with s' show ?thesis by (intro that)
qed

section \<open>The timed wait\<close>

text \<open>A timer in the hands of a task: not free, and marked the way \<open>wd_delete\<close> expects.\<close>

definition wd_owned :: "addr set \<Rightarrow> addr \<Rightarrow> 'z wdstate_scheme \<Rightarrow> bool" where
  "wd_owned pool w s = (w \<notin> set (g_wdfreelist s) \<and> w_flags (wdogs s w) AND WDOGF_STATIC = 0
     \<and> (w \<in> pool \<longleftrightarrow> w_flags (wdogs s w) AND WDOGF_ALLOCED = 0))"

lemma wd_create_calls: "wd_create m s = Some (w, s') \<Longrightarrow> call_of s' v = call_of s v"
  by (auto simp: wd_create_def bind_Some_conv upd_wdog_def split: if_splits list.splits option.splits)

lemma sem_inv_waitdog: "sem_inv idle s \<Longrightarrow> sem_inv idle (upd_tcb t (\<lambda>b. b\<lparr>waitdog := w\<rparr>) s)"
proof -
  assume inv: "sem_inv idle s"
  then have "sem_core idle (upd_tcb t (\<lambda>b. b\<lparr>waitdog := w\<rparr>) s)"
    by (intro sem_core_upd_tcb) (simp_all add: sem_inv_def sem_core_def sched_inv_upd_tcb)
  moreover have "waits_ok (upd_tcb t (\<lambda>b. b\<lparr>waitdog := w\<rparr>) s) = waits_ok s" by (rule waits_ok_cong) simp_all
  ultimately show ?thesis using inv by (simp add: sem_inv_def)
qed

lemma sem_inv_errno: "sem_inv idle s \<Longrightarrow> sem_inv idle (set_errno e s)"
proof -
  assume inv: "sem_inv idle s"
  have "waits_ok (set_errno e s) = waits_ok s" by (rule waits_ok_cong) simp_all
  then show ?thesis using inv sem_core_set_errno [of idle s e] by (simp add: sem_inv_def)
qed

lemma sem_timedwait_enter:
  assumes inv: "clk_inv pool idle s" and rt: "hd (g_readytorun s) = rt" and wd: "waitdog (tcbs s rt) = None"
    and m: "m = Some a" "a \<notin> pool" "\<not> WDOG_ISACTIVE s a"
  obtains w u where "sem_timedwait m (Some sem) abstime s = sem_timedwait_try rt (Some sem) abstime u"
    "clk_inv pool idle u" "waitdog (tcbs u rt) = Some w" "wd_owned pool w u" "timers u = timers s" "w \<notin> set (g_wdactivelist u)"
    "mset (g_wdfreelist s) = (if w \<in> pool then add_mset w else id) (mset (g_wdfreelist u))"
    "wdstate.more u = wdstate.more s" "sems u = sems s" "holders u = holders s" "lists u = lists s" "g_pidhash u = g_pidhash s"
    "\<forall>t. pid (tcbs u t) = pid (tcbs s t) \<and> lockcount (tcbs u t) = lockcount (tcbs s t) \<and> npend_reprio (tcbs u t) = npend_reprio (tcbs s t)"
proof -
  have ok: "wd_ok pool s" and sem: "sem_inv idle s" and irq: "\<not> current_regs s" using inv by (simp_all add: clk_inv_def)
  obtain w s1 where s1: "wd_create m s = Some (Some w, s1)" "wd_ok pool s1" "timers s1 = timers s" "w \<notin> set (g_wdactivelist s1)"
    "g_wdfreelist s = w # g_wdfreelist s1 \<and> w_flags (wdogs s1 w) = 0
       \<or> w = a \<and> g_wdfreelist s1 = g_wdfreelist s \<and> w_flags (wdogs s1 w) = WDOGF_ALLOCED"
    by (rule wd_create_post [OF ok _ m]) (use irq in simp_all)
  have own: "wd_owned pool w s1" using s1(5) ok m(2) by (auto simp: wd_owned_def wd_ok_def WDOGF_ALLOCED_def WDOGF_STATIC_def)
  have fr: "mset (g_wdfreelist s) = (if w \<in> pool then add_mset w else id) (mset (g_wdfreelist s1))"
    using s1(5) ok m(2) by (auto simp: wd_ok_def)
  note f = wd_outer_fields [OF wd_create_outer [OF s1(1)]]
  let ?u = "upd_tcb rt (\<lambda>b. b\<lparr>waitdog := Some w\<rparr>) s1"
  have p: "wd_part ?u = wd_part s1" by (simp add: upd_tcb_def)
  have act: "g_wdactivelist s1 = g_wdactivelist s" using s1(3) by (metis map_fst_deadlines)
  have "all_legal wd_legal s1" "due s1 = 0"
    using inv act s1(3) wd_create_calls [OF s1(1)] by (simp_all add: clk_inv_def all_legal_def due_def)
  then have "clk_inv pool idle ?u"
    using s1(2) sem_inv_outer [OF wd_create_outer [OF s1(1)]] sem irq f(3) wd_part_cong [OF p] sem_inv_waitdog [of idle s1 rt "Some w"]
    by (simp add: clk_inv_def)
  moreover have "this_task s = Some rt"
    using sem core_ready(1) [of idle s] this_task_hd [of s] rt by (auto simp: sem_inv_def sem_core_def sched_inv_def)
  then have "sem_timedwait m (Some sem) abstime s = sem_timedwait_try rt (Some sem) abstime ?u"
    using irq wd s1(1) by (simp add: sem_timedwait_def)
  moreover have "wd_owned pool w ?u" using own by (simp add: wd_owned_def upd_tcb_def)
  ultimately show ?thesis using s1(3,4) fr f wd_part_cong(3) [OF p] by (intro that [of ?u w]) (simp_all add: upd_tcb_def)
qed

lemma abstime2ticks_cong:
  assumes "g_basetime s' = g_basetime s" "g_system_timer s' = g_system_timer s"
    "clock_abstime2ticks CLOCK_REALTIME abstime s = (e, k, s)"
  shows "clock_abstime2ticks CLOCK_REALTIME abstime s' = (e, k, s')"
proof -
  obtain ts where "clock_gettime CLOCK_REALTIME s = (OK, Some ts, s)" "clock_gettime CLOCK_REALTIME s' = (OK, Some ts, s')"
    using assms(1,2)
    by (simp add: clock_gettime_def clock_systimespec_def clock_systimer_def CLOCK_REALTIME_def CLOCK_MONOTONIC_def Let_def)
  then show ?thesis using assms(3) by (auto simp: clock_abstime2ticks_def Let_def case_prod_beta)
qed

lemma abstime2ticks_int: "clock_abstime2ticks c abstime s = (e, Some k, s') \<Longrightarrow> k \<le> INT_MAX"
proof -
  assume "clock_abstime2ticks c abstime s = (e, Some k, s')"
  then obtain n where "k = -1 \<or> k = int32 n"
    by (auto simp: clock_abstime2ticks_def clock_time2ticks_def Let_def split: if_splits prod.splits option.splits)
  moreover have "int32 n < 2 ^ 31" using sint_lt [of "word_of_int n :: 32 word"] by simp
  ultimately show ?thesis by (auto simp: INT_MAX_def)
qed

lemma set_errno_wd [simp]:
  "wdogs (set_errno e s) = wdogs s" "g_wdactivelist (set_errno e s) = g_wdactivelist s" "g_wdfreelist (set_errno e s) = g_wdfreelist s"
  "g_wdnfree (set_errno e s) = g_wdnfree s" "wdstate.more (set_errno e s) = wdstate.more s"
  using more_wd [of "set_errno e s" s] by simp_all

lemma set_errno_clk [simp]:
  "g_basetime (set_errno e s) = g_basetime s" "g_system_timer (set_errno e s) = g_system_timer s"
  by (simp_all add: set_errno_def upd_tcb_def split: list.split)

lemma set_errno_tcb [simp]:
  "pid (tcbs (set_errno e s) t) = pid (tcbs s t)" "waitdog (tcbs (set_errno e s) t) = waitdog (tcbs s t)"
  "npend_reprio (tcbs (set_errno e s) t) = npend_reprio (tcbs s t)"
  by (simp_all add: set_errno_def split: list.split)

lemma clk_inv_errno: "clk_inv pool idle s \<Longrightarrow> clk_inv pool idle (set_errno e s)"
  using wd_part_cong [of "set_errno e s" s] sem_inv_errno [of idle s e] by (simp add: clk_inv_def)

lemma in_deadlines: "v \<in> set ws \<longleftrightarrow> (\<exists>d. (v, d) \<in> set (deadlines lg t ws))"
  by (induction ws arbitrary: t) auto

text \<open>Starting the timer of the wait.\<close>

lemma wd_start_inv:
  assumes inv: "clk_inv pool idle s" and w: "wd_owned pool w s" "w \<notin> set (g_wdactivelist s)" and k: "0 < k" "k \<le> INT_MAX"
  obtains s' where "wd_start (Some w) k SEM_TIMEOUT [q] s = Some (OK, s')" "clk_inv pool idle s'" "(w, k) \<in> set (timers s')"
    "call_of s' w = (SEM_TIMEOUT, [q])" "wd_outer s' = wd_outer s"
proof -
  have ok: "wd_ok pool s" using inv by (simp add: clk_inv_def)
  obtain s' where s': "wd_start (Some w) k SEM_TIMEOUT [q] s = Some (OK, s')" "wd_ok pool s'"
    "timers s' = prio_insert urgency (w, max 1 k) (filter (\<lambda>e. fst e \<noteq> w) (timers s))"
    "w_func (wdogs s' w) = SEM_TIMEOUT" "take (w_argc (wdogs s' w)) (w_parm (wdogs s' w)) = [q]"
    "\<forall>v. v \<noteq> w \<longrightarrow> w_func (wdogs s' v) = w_func (wdogs s v) \<and> w_argc (wdogs s' v) = w_argc (wdogs s v)
       \<and> w_parm (wdogs s' v) = w_parm (wdogs s v)"
    by (rule wd_start_post [OF ok, of w k "[q]" SEM_TIMEOUT]) (use w k in \<open>simp_all add: wd_owned_def CONFIG_MAX_WDOGPARMS_def\<close>)
  have o: "wd_outer s' = wd_outer s" by (rule wd_start_outer [OF s'(1)])
  have tm: "set (timers s') \<subseteq> insert (w, k) (set (timers s))" unfolding s'(3) using k by (auto simp: prio.set_ins)
  have act: "v \<in> set (g_wdactivelist s)" if "v \<in> set (g_wdactivelist s')" "v \<noteq> w" for v
    using that tm in_deadlines [of v "g_wdactivelist s'"] in_deadlines [of v "g_wdactivelist s"] by blast
  have c: "call_of s' w = (SEM_TIMEOUT, [q])" using s'(4,5) by simp
  have other: "call_of s' v = call_of s v" if "v \<noteq> w" for v using s'(6) that by simp
  have leg: "\<forall>v \<in> set (g_wdactivelist s). case_prod wd_legal (call_of s v)" using inv unfolding clk_inv_def all_legal_def by blast
  have "case_prod wd_legal (call_of s' v)" if v: "v \<in> set (g_wdactivelist s')" for v
  proof (cases "v = w")
    case True
    then show ?thesis unfolding True c by (simp add: wd_legal_def)
  next
    case False
    then show ?thesis unfolding other [OF False] using leg act [OF v False] by blast
  qed
  then have legal: "all_legal wd_legal s'" unfolding all_legal_def by blast
  have "\<forall>e \<in> set (timers s). 0 < snd e" using inv by (auto simp: clk_inv_def due_def filter_empty_conv not_le)
  then have "\<forall>e \<in> set (timers s'). 0 < snd e" using tm k by auto
  then have "due s' = 0" by (auto simp: due_def filter_empty_conv not_le)
  then have "clk_inv pool idle s'"
    using s'(2) legal inv sem_inv_outer [OF o] wd_outer_fields(3) [OF o] by (simp add: clk_inv_def)
  moreover have "(w, k) \<in> set (timers s')" unfolding s'(3) using k by (simp add: prio.set_ins)
  ultimately show ?thesis using s'(1) c o by (intro that [of s'])
qed

lemma sem_timedwait_blocks:
  assumes inv: "clk_inv pool idle s" and rt: "hd (g_readytorun s) = rt" "rt \<noteq> idle" and lock: "lockcount (tcbs s rt) < MAX_LOCK_COUNT"
    and c: "-32768 < semcount (sems s sem)" "semcount (sems s sem) \<le> 0"
    and room: "\<forall>p \<in> set (hhead (sems s sem)). \<forall>h. htcb (holders s p) = Some h \<longrightarrow> npend_reprio (tcbs s h) < CONFIG_SEM_NNESTPRIO"
    and w: "waitdog (tcbs s rt) = Some w" "wd_owned pool w s" "w \<notin> set (g_wdactivelist s)"
    and p: "sched_gettcb (pid (tcbs s rt)) s = Some rt" "pid (tcbs s rt) < 32768"
    and k: "valid_ts abstime" "clock_abstime2ticks CLOCK_REALTIME abstime s = (OK, Some k, s)" "0 < k"
  obtains s' q where "sem_timedwait_try rt (Some sem) abstime s = Some (Switched, s')" "clk_inv pool idle s'"
    "waitsem (tcbs s' rt) = Some sem" "hd (g_readytorun s') \<noteq> rt" "(w, k) \<in> set (timers s')" "watched rt q w s'"
proof -
  let ?u = "set_errno EAGAIN s" let ?q = "word_of_int (pid (tcbs s rt)) :: 32 word"
  have cur: "this_task s = Some rt" "this_task ?u = Some rt"
    using inv core_ready(1) [of idle s] this_task_hd [of s] this_task_hd [of ?u] rt(1)
    by (auto simp: clk_inv_def sem_inv_def sem_core_def sched_inv_def)
  have irq: "\<not> current_regs s" using inv by (simp add: clk_inv_def)
  have tr: "sem_trywait (Some sem) s = Some (ERROR, ?u)" using c(2) cur irq by (simp add: sem_trywait_def)
  have tk: "clock_abstime2ticks CLOCK_REALTIME abstime ?u = (OK, Some k, ?u)"
    by (rule abstime2ticks_cong [OF _ _ k(2)]) simp_all
  have own: "wd_owned pool w ?u" "w \<notin> set (g_wdactivelist ?u)" using w(2,3) by (simp_all add: wd_owned_def)
  obtain s2 where s2: "wd_start (Some w) k SEM_TIMEOUT [?q] ?u = Some (OK, s2)" "clk_inv pool idle s2" "(w, k) \<in> set (timers s2)"
    "call_of s2 w = (SEM_TIMEOUT, [?q])" "wd_outer s2 = wd_outer ?u"
    by (rule wd_start_inv [OF clk_inv_errno [OF inv] own k(3) abstime2ticks_int [OF k(2)]])
  note f = wd_outer_fields [OF s2(5)]
  obtain s3 where s3: "sem_wait (Some sem) s2 = Some (Switched, s3)" "sem_inv idle s3"
    "waitsem (tcbs s3 rt) = Some sem" "hd (g_readytorun s3) \<noteq> rt"
    "g_pidhash s3 = g_pidhash s2" "semstate.more s3 = semstate.more s2" "\<not> current_regs s3"
    by (rule sem_wait_blocks_post [of idle s2 rt sem])
      (use s2(2) rt lock c room in \<open>simp_all add: clk_inv_def f\<close>)
  have part: "wd_part s3 = wd_part s2" using more_wd [OF s3(6)] by simp
  have inv3: "clk_inv pool idle s3" using s2(2) s3(2,7) wd_part_cong [OF part] by (simp add: clk_inv_def)
  have "int16 (uint ?q) = pid (tcbs s rt)"
    using p by (simp add: sched_gettcb_def uint_word_of_int split: if_splits)
  moreover have "sched_gettcb x s3 = sched_gettcb x s" for x by (rule gettcb_cong) (simp add: s3(5) f(4))
  ultimately have "watched rt ?q w s3"
    using p(1) s3(3) s2(3,4) fst_deadlines [of w k] part by (simp add: watched_def bound_def awaits_def)
  moreover have "sem_timedwait_try rt (Some sem) abstime s = Some (Switched, s3)"
    using tr k(1,3) tk w(1) cur(2) s2(1) s3(1)
    by (simp add: sem_timedwait_try_def valid_ts_def NSEC_PER_SEC_def getpid_def OK_def ERROR_def)
  moreover have "(w, k) \<in> set (timers s3)" using s2(3) part by simp
  ultimately show ?thesis using inv3 s3(3,4) by (intro that)
qed

text \<open>Giving the timer of a wait back.\<close>

lemma wd_delete_inactive:
  "\<not> WDOG_ISACTIVE s w \<Longrightarrow> wd_delete w s = Some (r, s') \<Longrightarrow> wdogs s' = wdogs s \<and> g_wdactivelist s' = g_wdactivelist s"
  by (auto simp: wd_delete_def bind_Some_conv Let_def split: if_splits)

lemma drop_waitdog_post:
  assumes inv: "clk_inv pool idle s" and w: "waitdog (tcbs s rt) = Some w" "wd_owned pool w s" "w \<notin> set (g_wdactivelist s)"
  obtains s' where "drop_waitdog rt s = Some s'" "clk_inv pool idle s'" "timers s' = timers s" "waitdog (tcbs s' rt) = None"
    "mset (g_wdfreelist s') = (if w \<in> pool then add_mset w else id) (mset (g_wdfreelist s))"
    "sems s' = sems s" "lists s' = lists s" "wdstate.more s' = wdstate.more s"
proof -
  have ok: "wd_ok pool s" using inv by (simp add: clk_inv_def)
  have na: "\<not> WDOG_ISACTIVE s w" using wd_okD(2) [OF ok] w(3) by simp
  have own: "w \<notin> set (g_wdfreelist s)" "w_flags (wdogs s w) AND WDOGF_STATIC = 0" "w \<in> pool \<longleftrightarrow> w_flags (wdogs s w) AND WDOGF_ALLOCED = 0"
    using w(2) by (simp_all add: wd_owned_def)
  obtain u where u: "wd_delete w s = Some (OK, u)" "wd_ok pool u" "timers u = filter (\<lambda>e. fst e \<noteq> w) (timers s)"
    "g_wdfreelist u = (if w \<in> pool then g_wdfreelist s @ [w] else g_wdfreelist s)"
    by (rule wd_delete_post [OF ok own])
  note f = wd_outer_fields [OF wd_delete_outer [OF u(1)]] and d = wd_delete_inactive [OF na u(1)]
  let ?s = "upd_tcb rt (\<lambda>b. b\<lparr>waitdog := None\<rparr>) u"
  have p: "wd_part ?s = wd_part u" by (simp add: upd_tcb_def)
  have tu: "timers u = timers s" "due u = due s" "all_legal wd_legal u = all_legal wd_legal s" using d by (simp_all add: due_def all_legal_def)
  have "sem_inv idle ?s"
    using inv sem_inv_outer [OF wd_delete_outer [OF u(1)]] sem_inv_waitdog [of idle u rt None] by (simp add: clk_inv_def)
  then have "clk_inv pool idle ?s" using inv u(2) tu wd_part_cong [OF p] f(3) by (simp add: clk_inv_def)
  moreover have "drop_waitdog rt s = Some ?s" using w(1) u(1) by (simp add: drop_waitdog_def)
  ultimately show ?thesis using tu u(4) f by (intro that [of ?s]) (simp_all add: upd_tcb_def)
qed

lemma get_set_errno: "get_errno (set_errno e s) = e"
  by (cases "g_readytorun s") (simp_all add: get_errno_def set_errno_def upd_tcb_def)


text \<open>
  C27. A timed wait that need not or cannot wait gives its timer back: with a free count it takes it and returns \<open>OK\<close>; with none, it fails
  at once with \<open>EINVAL\<close> for an invalid time and with \<open>ETIMEDOUT\<close> for one that has passed, and changes neither the count nor the task lists.
  The pool and the running timers are as before.
\<close>

theorem sem_timedwait_returns:
  assumes inv: "clk_inv pool idle s" and rt: "hd (g_readytorun s) = rt" "rt \<noteq> idle"
    and wd: "waitdog (tcbs s rt) = None" and m: "m = Some a" "a \<notin> pool" "\<not> WDOG_ISACTIVE s a"
    and k: "0 < semcount (sems s sem) \<or> \<not> valid_ts abstime \<or> clock_abstime2ticks CLOCK_REALTIME abstime s = (OK, Some k, s) \<and> k \<le> 0"
  shows "\<exists>r s'. sem_timedwait m (Some sem) abstime s = Some (Done r, s') \<and> clk_inv pool idle s' \<and> lists s' = lists s
     \<and> timers s' = timers s \<and> mset (g_wdfreelist s') = mset (g_wdfreelist s) \<and> waitdog (tcbs s' rt) = None
     \<and> (if 0 < semcount (sems s sem) then r = OK \<and> semcount (sems s' sem) = semcount (sems s sem) - 1
        else r = ERROR \<and> sems s' = sems s \<and> get_errno s' = (if valid_ts abstime then ETIMEDOUT else EINVAL))"
proof -
  obtain w u where u: "sem_timedwait m (Some sem) abstime s = sem_timedwait_try rt (Some sem) abstime u"
    "clk_inv pool idle u" "waitdog (tcbs u rt) = Some w" "wd_owned pool w u" "timers u = timers s" "w \<notin> set (g_wdactivelist u)"
    "mset (g_wdfreelist s) = (if w \<in> pool then add_mset w else id) (mset (g_wdfreelist u))"
    "wdstate.more u = wdstate.more s" "sems u = sems s" "lists u = lists s"
    by (rule sem_timedwait_enter [OF inv rt(1) wd m])
  have clk: "g_basetime u = g_basetime s" "g_system_timer u = g_system_timer s" using u(8) by (cases u; cases s; simp)+
  have cur: "this_task u = Some rt" and irq: "\<not> current_regs u"
    using u(2,10) core_ready(1) [of idle u] this_task_hd [of u] rt(1) by (auto simp: clk_inv_def sem_inv_def sem_core_def sched_inv_def)
  show ?thesis
  proof (cases "0 < semcount (sems s sem)")
    case True
    let ?v = "sem_taken rt sem u"
    have su: "sem_inv idle u" "hd (g_readytorun u) = rt" "0 < semcount (sems u sem)" using u(2,9,10) rt(1) True by (simp_all add: clk_inv_def)
    note t = sem_taken_post [OF su(1,2) rt(2) su(3)]
    have same: "semstate.more ?v = semstate.more u" "current_regs ?v = current_regs u" "lists ?v = lists u"
      "waitdog (tcbs ?v rt) = Some w" using u(3) by (simp_all add: sem_taken_def set_waitsem_def add_count_def)
    have part: "wd_part ?v = wd_part u" using more_wd [OF same(1)] by simp
    have inv': "clk_inv pool idle ?v" using u(2) t(1) same(2) wd_part_cong [OF part] by (simp add: clk_inv_def)
    obtain v' where v': "drop_waitdog rt ?v = Some v'" "clk_inv pool idle v'" "timers v' = timers ?v" "waitdog (tcbs v' rt) = None"
      "mset (g_wdfreelist v') = (if w \<in> pool then add_mset w else id) (mset (g_wdfreelist ?v))" "sems v' = sems ?v" "lists v' = lists ?v"
      by (rule drop_waitdog_post [OF inv' same(4)]) (use u(4,6) part in \<open>simp_all add: wd_owned_def\<close>)
    have "sem_timedwait_try rt (Some sem) abstime u = Some (Done OK, v')"
      using t(4) [OF irq] v'(1) by (simp add: sem_timedwait_try_def)
    then show ?thesis using True u v' t(2) same(3) part by auto
  next
    case False
    let ?v = "set_errno EAGAIN u"
    have tr: "sem_trywait (Some sem) u = Some (ERROR, ?v)" using False cur irq u(9) by (simp add: sem_trywait_def)
    obtain v' where v': "drop_waitdog rt ?v = Some v'" "clk_inv pool idle v'" "timers v' = timers ?v" "waitdog (tcbs v' rt) = None"
      "mset (g_wdfreelist v') = (if w \<in> pool then add_mset w else id) (mset (g_wdfreelist ?v))" "sems v' = sems ?v" "lists v' = lists ?v"
      by (rule drop_waitdog_post [where rt = rt and w = w, OF clk_inv_errno [OF u(2)]]) (use u(3,4,6) in \<open>simp_all add: wd_owned_def\<close>)
    let ?e = "if valid_ts abstime then ETIMEDOUT else EINVAL"
    have "sem_timedwait_try rt (Some sem) abstime u = Some (Done ERROR, set_errno ?e v')"
    proof (cases "valid_ts abstime")
      case valid: True
      then have a: "clock_abstime2ticks CLOCK_REALTIME abstime s = (OK, Some k, s)" and le: "k \<le> 0" using k False by auto
      have "clock_abstime2ticks CLOCK_REALTIME abstime ?v = (OK, Some k, ?v)"
        by (rule abstime2ticks_cong [OF _ _ a]) (simp_all add: clk)
      then show ?thesis using valid le tr v'(1)
        by (simp add: sem_timedwait_try_def sem_timedwait_error_def valid_ts_def NSEC_PER_SEC_def OK_def ERROR_def)
    next
      case False
      then show ?thesis using tr v'(1)
        by (auto simp: sem_timedwait_try_def sem_timedwait_error_def valid_ts_def NSEC_PER_SEC_def OK_def ERROR_def)
    qed
    moreover have "clk_inv pool idle (set_errno ?e v')" by (rule clk_inv_errno [OF v'(2)])
    ultimately show ?thesis using u v' False by (auto simp: get_set_errno)
  qed
qed

section \<open>Example\<close>

text \<open>Task 1 of \<^const>\<open>ex_sem\<close> waits for semaphore 7 until 30 ms after the current time.\<close>

lemma ex_clk_fields [simp]:
  "tcbs ex_clk = tcbs ex_sem" "lists ex_clk = lists ex_sem" "sems ex_clk = sems ex_sem" "holders ex_clk = holders ex_sem"
  "g_freeholders ex_clk = g_freeholders ex_sem" "g_pidhash ex_clk = g_pidhash ex_sem" "current_regs ex_clk = False"
  by (simp_all add: ex_clk_def ex_wd_def wdstate.defs semstate.defs) (simp add: ex_sem_def)

lemma ex_clk_part: "wd_part ex_clk = wd_part ex_wd"
  by (simp add: ex_clk_def ex_wd_def wdstate.defs semstate.defs)

lemma ex_clk_inv: "clk_inv {100..<132} 0 ex_clk"
proof -
  have "sem_inv 0 ex_clk = sem_inv 0 ex_sem" by (rule sem_inv_cong) simp_all
  moreover note p = wd_part_cong [OF ex_clk_part]
  moreover have "due ex_wd = 0" by (simp add: due_def)
  moreover have "all_legal wd_legal ex_wd" by (simp add: all_legal_def wd_legal_def SEM_TIMEOUT_def) (simp add: ex_wd_def semstate.defs)
  ultimately show ?thesis using ex_sem_inv ex_wd_ok by (simp add: clk_inv_def)
qed

lemma ex_clk_timers: "timers ex_clk = [(200, 5), (201, 8)]"
  using wd_part_cong(3) [OF ex_clk_part] by simp

lemma ex_clk_ticks:
  "clock_abstime2ticks CLOCK_REALTIME \<lparr>tv_sec = 1577836801, tv_nsec = 25000000\<rparr> ex_clk = (OK, Some (int 3), ex_clk)"
  "clock_abstime2ticks CLOCK_REALTIME \<lparr>tv_sec = 1577836800, tv_nsec = 0\<rparr> ex_clk = (OK, Some (- 1), ex_clk)"
proof -
  have g: "clock_gettime CLOCK_REALTIME ex_clk = (OK, Some (ts_of (realtime ex_clk)), ex_clk)"
    by (rule gettime_realtime) (simp_all add: valid_ts_def NSEC_PER_SEC_def)
  have n: "ns (ts_of (realtime ex_clk)) = 1577836801 * 10 ^ 9"
    unfolding ns_ts_of ex_clk_realtime by (simp add: ERA_def NSEC_PER_SEC_def)
  show "clock_abstime2ticks CLOCK_REALTIME \<lparr>tv_sec = 1577836801, tv_nsec = 25000000\<rparr> ex_clk = (OK, Some (int 3), ex_clk)"
    "clock_abstime2ticks CLOCK_REALTIME \<lparr>tv_sec = 1577836800, tv_nsec = 0\<rparr> ex_clk = (OK, Some (- 1), ex_clk)"
    using abstime2ticks_ts [OF g ts_of_valid, of "\<lparr>tv_sec = 1577836801, tv_nsec = 25000000\<rparr>"]
      abstime2ticks_ts [OF g ts_of_valid, of "\<lparr>tv_sec = 1577836800, tv_nsec = 0\<rparr>"]
    unfolding n by (simp_all add: valid_ts_def ns_def ticks_until_def NSEC_PER_SEC_def NSEC_PER_TICK_def)
qed

theorem timer_irqs_correct_witness:
  "\<exists>s'. timer_irqs 6 ex_clk = Some s' \<and> clk_inv {100..<132} 0 s' \<and> timers s' = [(201, 2)] \<and> g_system_timer s' = 106"
  using timer_irqs_correct [OF ex_clk_inv, of 6] by (auto simp: ex_clk_timers)

lemma ex_clk_inactive: "\<not> WDOG_ISACTIVE ex_clk 300"
  using wd_okD(2) [of "{100..<132}" ex_clk 300] ex_clk_inv ex_clk_part by (simp add: clk_inv_def)

lemma ex_clk_pid: "sched_gettcb 1 ex_clk = Some 1"
  by (simp add: sched_gettcb_def PIDHASH_def CONFIG_MAX_TASKS_def ex_sem_def)


theorem sem_timedwait_returns_witness:
  "\<exists>s'. sem_timedwait (Some 300) (Some 7) \<lparr>tv_sec = 1577836800, tv_nsec = 0\<rparr> ex_clk = Some (Done ERROR, s')
     \<and> get_errno s' = ETIMEDOUT \<and> timers s' = [(200, 5), (201, 8)]"
  using sem_timedwait_returns [OF ex_clk_inv _ _ _ refl _ ex_clk_inactive, of 1 7 "\<lparr>tv_sec = 1577836800, tv_nsec = 0\<rparr>" "- 1"]
  by (auto simp: ex_clk_ticks(2) ex_clk_timers ex_sem_def zero_tcb_def valid_ts_def NSEC_PER_SEC_def)

end
