(* ===== verification/Mm_Heap.thy ===== *)
theory Mm_Heap
  imports Rtos_Prelude "HOL-Library.Word"
begin

text \<open>
  The memory manager (src/os/mm/mm_heap), in the configuration with one region, 32-bit sizes and
  \<open>CONFIG_DEBUG_MM_HEAPINFO\<close>: the operations of the critical sections, which run with the semaphore of the
  heap held. The semaphore is added in theory \<open>Mm_Lock\<close>.

  The memory is a function from the addresses of 32-bit words to their values, natural numbers below
  \<open>2^32\<close>. A node is a header of four words: the size of the chunk, the size of the chunk before it with
  the allocation flag in bit 31, and two more words. In a free chunk these link the chunk into the list of
  free chunks, in an allocated one they hold the caller and the task of the allocation. The pointer \<open>NULL\<close>
  is \<open>0\<close>. \<open>None\<close> is a failing \<open>DEBUGASSERT\<close>.
\<close>

unbundle bit_operations_syntax

section \<open>Data\<close>

definition MM_MIN_SHIFT :: nat where "MM_MIN_SHIFT = 4"
definition MM_MAX_SHIFT :: nat where "MM_MAX_SHIFT = 22"
definition MM_MIN_CHUNK :: nat where "MM_MIN_CHUNK = 2 ^ MM_MIN_SHIFT"
definition MM_MAX_CHUNK :: nat where "MM_MAX_CHUNK = 2 ^ MM_MAX_SHIFT"
definition MM_NNODES :: nat where "MM_NNODES = MM_MAX_SHIFT - MM_MIN_SHIFT + 1"
definition MM_GRAN_MASK :: nat where "MM_GRAN_MASK = MM_MIN_CHUNK - 1"
definition MM_ALLOC_BIT :: nat where "MM_ALLOC_BIT = 0x80000000"
definition SIZEOF_MM_ALLOCNODE :: nat where "SIZEOF_MM_ALLOCNODE = 16"

text \<open>\<open>SIZEOF_MM_ALLOCNODE - SIZEOF_MM_MALLOC_DEBUG_INFO + 2 * MM_PTR_SIZE\<close>\<close>

definition SIZEOF_MM_FREENODE :: nat where "SIZEOF_MM_FREENODE = SIZEOF_MM_ALLOCNODE - (4 + 2 + 2) + 2 * 4"

text \<open>Arithmetic of \<open>size_t\<close>.\<close>

definition add32 :: "nat \<Rightarrow> nat \<Rightarrow> nat" where "add32 a b = (a + b) mod 2 ^ 32"
definition sub32 :: "nat \<Rightarrow> nat \<Rightarrow> nat" where "sub32 a b = (a + 2 ^ 32 - b) mod 2 ^ 32"
definition mul32 :: "nat \<Rightarrow> nat \<Rightarrow> nat" where "mul32 a b = (a * b) mod 2 ^ 32"
definition not32 :: "nat \<Rightarrow> nat" where "not32 a = 2 ^ 32 - 1 - a"

definition MM_ALIGN_UP :: "nat \<Rightarrow> nat" where
  "MM_ALIGN_UP a = add32 a MM_GRAN_MASK AND not32 MM_GRAN_MASK"

definition MM_ALIGN_DOWN :: "nat \<Rightarrow> nat" where
  "MM_ALIGN_DOWN a = a AND not32 MM_GRAN_MASK"

text \<open>
  A heap with its memory; \<open>mm_nodelist\<close> is the address of the array of list heads. The last three fields are
  the counters in the task control blocks.
\<close>

record mm_heap_s =
  mm_heapsize :: nat
  peak_alloc_size :: int
  total_alloc_size :: int
  mm_heapstart :: addr
  mm_heapend :: addr
  mm_nodelist :: addr
  mem :: "addr \<Rightarrow> nat"
  tcb_curr_alloc_size :: "addr \<Rightarrow> int"
  tcb_peak_alloc_size :: "addr \<Rightarrow> int"
  tcb_num_alloc_free :: "addr \<Rightarrow> int"

definition store :: "addr \<Rightarrow> nat \<Rightarrow> mm_heap_s \<Rightarrow> mm_heap_s" where
  "store a v h = h\<lparr>mem := (mem h)(a := v)\<rparr>"

text \<open>The members of a node.\<close>

definition nd_size :: "mm_heap_s \<Rightarrow> addr \<Rightarrow> nat" where "nd_size h node = mem h node"
definition preceding :: "mm_heap_s \<Rightarrow> addr \<Rightarrow> nat" where "preceding h node = mem h (node + 4)"
definition nd_flink :: "mm_heap_s \<Rightarrow> addr \<Rightarrow> addr" where "nd_flink h node = mem h (node + 8)"
definition nd_blink :: "mm_heap_s \<Rightarrow> addr \<Rightarrow> addr" where "nd_blink h node = mem h (node + 12)"

definition set_size :: "addr \<Rightarrow> nat \<Rightarrow> mm_heap_s \<Rightarrow> mm_heap_s" where "set_size node v = store node v"
definition set_preceding :: "addr \<Rightarrow> nat \<Rightarrow> mm_heap_s \<Rightarrow> mm_heap_s" where "set_preceding node v = store (node + 4) v"
definition set_nflink :: "addr \<Rightarrow> addr \<Rightarrow> mm_heap_s \<Rightarrow> mm_heap_s" where "set_nflink node v = store (node + 8) v"
definition set_nblink :: "addr \<Rightarrow> addr \<Rightarrow> mm_heap_s \<Rightarrow> mm_heap_s" where "set_nblink node v = store (node + 12) v"

text \<open>\<open>pid\<close> is the lower half of its word.\<close>

definition nd_pid :: "mm_heap_s \<Rightarrow> addr \<Rightarrow> int" where
  "nd_pid h node = signed_take_bit 15 (int (mem h (node + 12)))"

definition allocated :: "mm_heap_s \<Rightarrow> addr \<Rightarrow> bool" where
  "allocated h node = (preceding h node AND MM_ALLOC_BIT \<noteq> 0)"

definition nodelist :: "mm_heap_s \<Rightarrow> nat \<Rightarrow> addr" where
  "nodelist h i = mm_nodelist h + 16 * i"

text \<open>
  What the statistics take from the kernel: the task of an allocation (\<open>-1\<close> in interrupt handlers) and
  \<open>sched_gettcb\<close>.
\<close>

record mm_ctx =
  ctx_pid :: int
  ctx_gettcb :: "int \<Rightarrow> ptr"

section \<open>Statistics\<close>

definition heapinfo_add_size :: "mm_ctx \<Rightarrow> int \<Rightarrow> nat \<Rightarrow> mm_heap_s \<Rightarrow> mm_heap_s" where
  "heapinfo_add_size c p sz h = (case ctx_gettcb c p of
      None \<Rightarrow> h
    | Some rtcb \<Rightarrow>
        (let curr = tcb_curr_alloc_size h rtcb + int sz;
             h = h\<lparr>tcb_curr_alloc_size := (tcb_curr_alloc_size h)(rtcb := curr),
                  tcb_num_alloc_free := (tcb_num_alloc_free h)(rtcb := tcb_num_alloc_free h rtcb + 1)\<rparr>
         in if curr > tcb_peak_alloc_size h rtcb
            then h\<lparr>tcb_peak_alloc_size := (tcb_peak_alloc_size h)(rtcb := curr)\<rparr> else h))"

definition heapinfo_subtract_size :: "mm_ctx \<Rightarrow> int \<Rightarrow> nat \<Rightarrow> mm_heap_s \<Rightarrow> mm_heap_s" where
  "heapinfo_subtract_size c p sz h = (case ctx_gettcb c p of
      None \<Rightarrow> h
    | Some rtcb \<Rightarrow>
        h\<lparr>tcb_curr_alloc_size := (tcb_curr_alloc_size h)(rtcb := tcb_curr_alloc_size h rtcb - int sz),
          tcb_num_alloc_free := (tcb_num_alloc_free h)(rtcb := tcb_num_alloc_free h rtcb - 1)\<rparr>)"

definition heapinfo_update_total_size :: "int \<Rightarrow> mm_heap_s \<Rightarrow> mm_heap_s" where
  "heapinfo_update_total_size sz h =
     (let h = h\<lparr>total_alloc_size := total_alloc_size h + sz\<rparr>
      in if total_alloc_size h > peak_alloc_size h then h\<lparr>peak_alloc_size := total_alloc_size h\<rparr> else h)"

definition heapinfo_update_node :: "mm_ctx \<Rightarrow> addr \<Rightarrow> nat \<Rightarrow> mm_heap_s \<Rightarrow> mm_heap_s" where
  "heapinfo_update_node c node caller_retaddr h =
     store (node + 12) (nat (take_bit 16 (ctx_pid c))) (store (node + 8) caller_retaddr h)"

text \<open>The three calls that record an allocation.\<close>

definition heapinfo_claim :: "mm_ctx \<Rightarrow> addr \<Rightarrow> nat \<Rightarrow> mm_heap_s \<Rightarrow> mm_heap_s" where
  "heapinfo_claim c node caller_retaddr h =
     (let h = heapinfo_update_node c node caller_retaddr h;
          h = heapinfo_add_size c (nd_pid h node) (nd_size h node) h
      in heapinfo_update_total_size (int (nd_size h node)) h)"

section \<open>The list of free chunks\<close>

fun size2ndx_loop :: "nat \<Rightarrow> nat \<Rightarrow> nat" where
  "size2ndx_loop sz ndx = (if sz > 1 then size2ndx_loop (sz div 2) (ndx + 1) else ndx)"

declare size2ndx_loop.simps [simp del]

definition mm_size2ndx :: "nat \<Rightarrow> nat" where
  "mm_size2ndx sz =
     (if sz \<ge> MM_MAX_CHUNK then MM_NNODES - 1 else size2ndx_loop (drop_bit MM_MIN_SHIFT sz) 0)"

partial_function (option) addfree_find :: "mm_heap_s \<Rightarrow> nat \<Rightarrow> addr \<Rightarrow> addr \<Rightarrow> (addr \<times> addr) option" where
  "addfree_find h sz prev nxt =
     (if nxt \<noteq> 0 \<and> nd_size h nxt \<noteq> 0 \<and> nd_size h nxt < sz
      then addfree_find h sz nxt (nd_flink h nxt) else Some (prev, nxt))"

definition mm_addfreechunk :: "addr \<Rightarrow> mm_heap_s \<Rightarrow> mm_heap_s option" where
  "mm_addfreechunk node h = do {
     let ndx = mm_size2ndx (nd_size h node);
     (prev, nxt) \<leftarrow> addfree_find h (nd_size h node) (nodelist h ndx) (nd_flink h (nodelist h ndx));
     let h = set_nflink prev node h;
     let h = set_nblink node prev h;
     let h = set_nflink node nxt h;
     Some (if nxt \<noteq> 0 then set_nblink nxt node h else h)
   }"

text \<open>Removing a node from the list of free chunks; the code repeats these lines at every use.\<close>

definition mm_unlink :: "addr \<Rightarrow> mm_heap_s \<Rightarrow> mm_heap_s option" where
  "mm_unlink node h = do {
     ASSERT (nd_blink h node \<noteq> 0);
     let h = set_nflink (nd_blink h node) (nd_flink h node) h;
     Some (if nd_flink h node \<noteq> 0 then set_nblink (nd_flink h node) (nd_blink h node) h else h)
   }"

definition mm_shrinkchunk :: "addr \<Rightarrow> nat \<Rightarrow> mm_heap_s \<Rightarrow> mm_heap_s option" where
  "mm_shrinkchunk node sz h =
     (let nxt = node + nd_size h node
      in if \<not> allocated h nxt then do {
           let andbeyond = nxt + nd_size h nxt;
           h \<leftarrow> mm_unlink nxt h;
           let newnode = node + sz;
           let newsize = sub32 (add32 (nd_size h nxt) (nd_size h node)) sz;
           let h = set_size newnode newsize h;
           let h = set_preceding newnode sz h;
           let h = set_size node sz h;
           let h = set_preceding andbeyond (nd_size h newnode OR (preceding h andbeyond AND MM_ALLOC_BIT)) h;
           mm_addfreechunk newnode h
         }
         else if nd_size h node \<ge> add32 sz SIZEOF_MM_FREENODE then do {
           let newnode = node + sz;
           let h = set_size newnode (sub32 (nd_size h node) sz) h;
           let h = set_preceding newnode sz h;
           let h = set_size node sz h;
           let h = set_preceding nxt (nd_size h newnode OR MM_ALLOC_BIT) h;
           mm_addfreechunk newnode h
         }
         else Some h)"

section \<open>Allocation\<close>

partial_function (option) malloc_find :: "mm_heap_s \<Rightarrow> nat \<Rightarrow> addr \<Rightarrow> addr option" where
  "malloc_find h sz node =
     (if node \<noteq> 0 \<and> nd_size h node < sz then malloc_find h sz (nd_flink h node) else Some node)"

text \<open>Splitting a free chunk and putting the remainder back into the list.\<close>

definition malloc_split :: "addr \<Rightarrow> nat \<Rightarrow> nat \<Rightarrow> mm_heap_s \<Rightarrow> mm_heap_s option" where
  "malloc_split node sz remaining h =
     (let nxt = node + nd_size h node;
          remainder = node + sz;
          h = set_size remainder remaining h;
          h = set_preceding remainder sz h;
          h = set_size node sz h;
          h = set_preceding nxt (remaining OR (preceding h nxt AND MM_ALLOC_BIT)) h
      in mm_addfreechunk remainder h)"

text \<open>The critical section of \<open>mm_malloc\<close>, for an adjusted size.\<close>

definition mm_malloc_locked :: "mm_ctx \<Rightarrow> nat \<Rightarrow> nat \<Rightarrow> mm_heap_s \<Rightarrow> (addr \<times> mm_heap_s) option" where
  "mm_malloc_locked c sz caller_retaddr h = do {
     let ndx = (if sz \<ge> MM_MAX_CHUNK then MM_NNODES - 1 else mm_size2ndx sz);
     node \<leftarrow> malloc_find h sz (nd_flink h (nodelist h ndx));
     if node = 0 then Some (0, h)
     else do {
       h \<leftarrow> mm_unlink node h;
       let remaining = sub32 (nd_size h node) sz;
       h \<leftarrow> (if remaining \<ge> SIZEOF_MM_FREENODE then malloc_split node sz remaining h else Some h);
       let h = set_preceding node (preceding h node OR MM_ALLOC_BIT) h;
       Some (node + SIZEOF_MM_ALLOCNODE, heapinfo_claim c node caller_retaddr h)
     }
   }"

text \<open>
  The critical section of \<open>mm_free\<close>: the chunk is merged with the chunk behind it, giving the address behind
  the merged chunk, and with the chunk before it, giving the node of the merged chunk.
\<close>

definition free_next :: "addr \<Rightarrow> addr \<Rightarrow> mm_heap_s \<Rightarrow> (addr \<times> mm_heap_s) option" where
  "free_next node nxt h =
     (if \<not> allocated h nxt then do {
        let andbeyond = nxt + nd_size h nxt;
        h \<leftarrow> mm_unlink nxt h;
        let h = set_size node (add32 (nd_size h node) (nd_size h nxt)) h;
        let h = set_preceding andbeyond (nd_size h node OR (preceding h andbeyond AND MM_ALLOC_BIT)) h;
        Some (andbeyond, h)
      } else Some (nxt, h))"

definition free_prev :: "addr \<Rightarrow> addr \<Rightarrow> mm_heap_s \<Rightarrow> (addr \<times> mm_heap_s) option" where
  "free_prev node nxt h =
     (let prev = node - preceding h node
      in if \<not> allocated h prev then do {
           h \<leftarrow> mm_unlink prev h;
           let h = set_size prev (add32 (nd_size h prev) (nd_size h node)) h;
           let h = set_preceding nxt (nd_size h prev OR (preceding h nxt AND MM_ALLOC_BIT)) h;
           Some (prev, h)
         } else Some (node, h))"

definition mm_free_locked :: "mm_ctx \<Rightarrow> addr \<Rightarrow> mm_heap_s \<Rightarrow> mm_heap_s option" where
  "mm_free_locked c p h = do {
     let node = p - SIZEOF_MM_ALLOCNODE;
     let h = (if allocated h node
              then heapinfo_update_total_size (- int (nd_size h node))
                     (heapinfo_subtract_size c (nd_pid h node) (nd_size h node) h)
              else h);
     let h = set_preceding node (preceding h node AND not32 MM_ALLOC_BIT) h;
     (nxt, h) \<leftarrow> free_next node (node + nd_size h node) h;
     (node, h) \<leftarrow> free_prev node nxt h;
     mm_addfreechunk node h
   }"

section \<open>Changing the size of an allocation\<close>

text \<open>\<open>memcpy\<close> of the C library on aligned addresses: one word after the other, from low to high addresses.\<close>

fun memcpy_words :: "addr \<Rightarrow> addr \<Rightarrow> nat \<Rightarrow> mm_heap_s \<Rightarrow> mm_heap_s" where
  "memcpy_words dst src 0 h = h"
| "memcpy_words dst src (Suc n) h = memcpy_words (dst + 4) (src + 4) n (store dst (mem h src) h)"

definition mm_memcpy :: "addr \<Rightarrow> addr \<Rightarrow> nat \<Rightarrow> mm_heap_s \<Rightarrow> mm_heap_s" where
  "mm_memcpy dst src n = memcpy_words dst src (n div 4)"

text \<open>How much \<open>mm_realloc\<close> takes from the chunk before and from the chunk behind the allocation.\<close>

definition realloc_take :: "nat \<Rightarrow> nat \<Rightarrow> nat \<Rightarrow> nat \<times> nat" where
  "realloc_take needed prevsize nextsize =
     (let (takeprev, takenext, needed) =
            (if prevsize > 0 \<and> (nextsize \<ge> prevsize \<or> nextsize < 1)
             then if needed > prevsize then (prevsize, sub32 needed prevsize, 0) else (needed, 0, 0)
             else (0, 0, needed))
      in if nextsize > 0 \<and> needed \<noteq> 0
         then if needed > nextsize then (sub32 needed nextsize, nextsize) else (0, needed)
         else (takeprev, takenext))"

text \<open>Extending into the chunk before: first the new node, then the moved contents.\<close>

definition takeprev_node :: "addr \<Rightarrow> nat \<Rightarrow> addr \<Rightarrow> nat \<Rightarrow> addr \<Rightarrow> nat \<Rightarrow> mm_heap_s \<Rightarrow> (addr \<times> mm_heap_s) option" where
  "takeprev_node oldnode oldsize prev prevsize nxt takeprev h = do {
     h \<leftarrow> mm_unlink prev h;
     if sub32 prevsize takeprev \<ge> SIZEOF_MM_FREENODE then do {
       let newnode = oldnode - takeprev;
       let h = set_size prev (sub32 (nd_size h prev) takeprev) h;
       let h = set_size newnode (add32 oldsize takeprev) h;
       let h = set_preceding newnode (nd_size h prev OR MM_ALLOC_BIT) h;
       let h = set_preceding nxt (nd_size h newnode OR (preceding h nxt AND MM_ALLOC_BIT)) h;
       h \<leftarrow> mm_addfreechunk prev h;
       Some (newnode, h)
     } else do {
       let newnode = oldnode - nd_size h prev;
       let h = set_size newnode (add32 (nd_size h newnode) oldsize) h;
       let h = set_preceding newnode (preceding h newnode OR MM_ALLOC_BIT) h;
       let h = set_preceding nxt (nd_size h newnode OR (preceding h nxt AND MM_ALLOC_BIT)) h;
       Some (newnode, h)
     }
   }"

definition realloc_takeprev :: "addr \<Rightarrow> nat \<Rightarrow> addr \<Rightarrow> nat \<Rightarrow> addr \<Rightarrow> nat \<Rightarrow> addr \<Rightarrow> mm_heap_s \<Rightarrow>
    (addr \<times> nat \<times> addr \<times> mm_heap_s) option" where
  "realloc_takeprev oldnode oldsize prev prevsize nxt takeprev oldmem h = do {
     (newnode, h) \<leftarrow> takeprev_node oldnode oldsize prev prevsize nxt takeprev h;
     let oldsize = nd_size h newnode;
     let newmem = newnode + SIZEOF_MM_ALLOCNODE;
     Some (newnode, oldsize, newmem, mm_memcpy newmem oldmem (sub32 oldsize SIZEOF_MM_ALLOCNODE) h)
   }"

text \<open>Extending into the chunk behind.\<close>

definition realloc_takenext :: "addr \<Rightarrow> nat \<Rightarrow> addr \<Rightarrow> nat \<Rightarrow> nat \<Rightarrow> mm_heap_s \<Rightarrow> mm_heap_s option" where
  "realloc_takenext oldnode oldsize nxt nextsize takenext h = do {
     let andbeyond = nxt + nextsize;
     h \<leftarrow> mm_unlink nxt h;
     if sub32 nextsize takenext \<ge> SIZEOF_MM_FREENODE then do {
       let h = set_size oldnode (add32 oldsize takenext) h;
       let newnode = oldnode + nd_size h oldnode;
       let h = set_size newnode (sub32 nextsize takenext) h;
       let h = set_preceding newnode (nd_size h oldnode) h;
       let h = set_preceding andbeyond (nd_size h newnode OR (preceding h andbeyond AND MM_ALLOC_BIT)) h;
       mm_addfreechunk newnode h
     } else do {
       let h = set_size oldnode (add32 oldsize nextsize) h;
       Some (set_preceding andbeyond (nd_size h oldnode OR (preceding h andbeyond AND MM_ALLOC_BIT)) h)
     }
   }"

definition realloc_extend :: "addr \<Rightarrow> nat \<Rightarrow> addr \<Rightarrow> nat \<Rightarrow> addr \<Rightarrow> nat \<Rightarrow> nat \<Rightarrow> nat \<Rightarrow> addr \<Rightarrow> mm_heap_s \<Rightarrow>
    (addr \<times> addr \<times> mm_heap_s) option" where
  "realloc_extend oldnode oldsize prev prevsize nxt nextsize takeprev takenext oldmem h = do {
     (oldnode, oldsize, newmem, h) \<leftarrow>
        (if takeprev \<noteq> 0 then realloc_takeprev oldnode oldsize prev prevsize nxt takeprev oldmem h
         else Some (oldnode, oldsize, oldmem, h));
     h \<leftarrow> (if takenext \<noteq> 0 then realloc_takenext oldnode oldsize nxt nextsize takenext h else Some h);
     Some (oldnode, newmem, h)
   }"

text \<open>
  The first critical section of \<open>mm_realloc\<close>: the address of the allocation when the chunk could be
  resized in place, \<open>None\<close> when a new chunk is needed.
\<close>

definition mm_realloc_locked :: "mm_ctx \<Rightarrow> addr \<Rightarrow> nat \<Rightarrow> nat \<Rightarrow> mm_heap_s \<Rightarrow> (addr option \<times> mm_heap_s) option" where
  "mm_realloc_locked c oldmem newsize caller_retaddr h =
     (let oldnode = oldmem - SIZEOF_MM_ALLOCNODE; oldsize = nd_size h oldnode
      in if newsize \<le> oldsize then
           if newsize < oldsize then do {
             let h = heapinfo_subtract_size c (nd_pid h oldnode) oldsize h;
             let h = heapinfo_update_total_size (- int oldsize) h;
             h \<leftarrow> mm_shrinkchunk oldnode newsize h;
             let h = heapinfo_claim c oldnode caller_retaddr h;
             Some (Some oldmem, h)
           } else Some (Some oldmem, h)
         else
           let nxt = oldnode + nd_size h oldnode;
               nextsize = (if allocated h nxt then 0 else nd_size h nxt);
               prev = oldnode - (preceding h oldnode AND not32 MM_ALLOC_BIT);
               prevsize = (if allocated h prev then 0 else nd_size h prev)
           in if add32 (add32 nextsize prevsize) oldsize \<ge> newsize then do {
                let (takeprev, takenext) = realloc_take (sub32 newsize oldsize) prevsize nextsize;
                let h = heapinfo_subtract_size c (nd_pid h oldnode) oldsize h;
                let h = heapinfo_update_total_size (- int oldsize) h;
                (oldnode, newmem, h) \<leftarrow>
                   realloc_extend oldnode oldsize prev prevsize nxt nextsize takeprev takenext oldmem h;
                let h = heapinfo_claim c oldnode caller_retaddr h;
                Some (Some newmem, h)
              } else Some (None, h))"

text \<open>The critical section of \<open>mm_memalign\<close>, on the chunk that \<open>mm_malloc\<close> gave.\<close>

definition mm_memalign_locked :: "mm_ctx \<Rightarrow> nat \<Rightarrow> nat \<Rightarrow> nat \<Rightarrow> addr \<Rightarrow> nat \<Rightarrow> mm_heap_s \<Rightarrow> (addr \<times> mm_heap_s) option" where
  "mm_memalign_locked c alignment sz allocsize rawchunk caller_retaddr h = do {
     let node = rawchunk - SIZEOF_MM_ALLOCNODE;
     let mask = sub32 alignment 1;
     let h = heapinfo_subtract_size c (nd_pid h node) (nd_size h node) h;
     let h = heapinfo_update_total_size (- int (nd_size h node)) h;
     let alignedchunk = add32 rawchunk mask AND not32 mask;
     (node, alignedchunk, allocsize, h) \<leftarrow> (if alignedchunk \<noteq> rawchunk then do {
            let nxt = node + nd_size h node;
            ASSERT (alignedchunk \<ge> add32 rawchunk 8);
            let newnode = alignedchunk - SIZEOF_MM_ALLOCNODE;
            let precedingsize = sub32 newnode node;
            let (alignedchunk, newnode, precedingsize) =
              (if precedingsize < SIZEOF_MM_FREENODE
               then (add32 alignedchunk alignment, add32 alignedchunk alignment - SIZEOF_MM_ALLOCNODE,
                     sub32 (add32 alignedchunk alignment - SIZEOF_MM_ALLOCNODE) node)
               else (alignedchunk, newnode, precedingsize));
            let h = set_size newnode (sub32 nxt newnode) h;
            let h = set_preceding newnode (precedingsize OR MM_ALLOC_BIT) h;
            let h = set_size node precedingsize h;
            let h = set_preceding node (preceding h node AND not32 MM_ALLOC_BIT) h;
            let h = set_preceding nxt (nd_size h newnode OR (preceding h nxt AND MM_ALLOC_BIT)) h;
            let allocsize = sub32 (nd_size h newnode) SIZEOF_MM_ALLOCNODE;
            h \<leftarrow> mm_addfreechunk node h;
            Some (newnode, alignedchunk, allocsize, h)
          } else Some (node, alignedchunk, allocsize, h));
     h \<leftarrow> (if allocsize > sz then mm_shrinkchunk node (add32 sz SIZEOF_MM_ALLOCNODE) h else Some h);
     let h = heapinfo_claim c node caller_retaddr h;
     Some (alignedchunk, h)
   }"

section \<open>Initialization and information\<close>

definition mm_addregion :: "mm_ctx \<Rightarrow> addr \<Rightarrow> nat \<Rightarrow> mm_heap_s \<Rightarrow> mm_heap_s option" where
  "mm_addregion c heapstart heapsize h =
     (let heapbase = MM_ALIGN_UP heapstart;
          heapend = MM_ALIGN_DOWN (add32 heapstart heapsize);
          heapsize = sub32 heapend heapbase;
          h = h\<lparr>mm_heapsize := add32 (mm_heapsize h) heapsize, mm_heapstart := heapbase\<rparr>;
          h = set_size heapbase SIZEOF_MM_ALLOCNODE h;
          h = set_preceding heapbase MM_ALLOC_BIT h;
          h = heapinfo_update_node c heapbase 0xDEAD h;
          node = heapbase + SIZEOF_MM_ALLOCNODE;
          h = set_size node (sub32 heapsize (2 * SIZEOF_MM_ALLOCNODE)) h;
          h = set_preceding node SIZEOF_MM_ALLOCNODE h;
          tail = heapend - SIZEOF_MM_ALLOCNODE;
          h = h\<lparr>mm_heapend := tail\<rparr>;
          h = set_size tail SIZEOF_MM_ALLOCNODE h;
          h = set_preceding tail (nd_size h node OR MM_ALLOC_BIT) h;
          h = heapinfo_update_node c tail 0xDEADDEAD h
      in mm_addfreechunk node h)"

text \<open>The list heads: all members cleared, then linked in order.\<close>

fun init_nodelist :: "nat \<Rightarrow> mm_heap_s \<Rightarrow> mm_heap_s" where
  "init_nodelist 0 h = h"
| "init_nodelist (Suc i) h =
     (let h = init_nodelist i h;
          h = set_nflink (nodelist h i) (nodelist h (Suc i)) h
      in set_nblink (nodelist h (Suc i)) (nodelist h i) h)"

fun mm_memset0 :: "addr \<Rightarrow> nat \<Rightarrow> mm_heap_s \<Rightarrow> mm_heap_s" where
  "mm_memset0 a 0 h = h"
| "mm_memset0 a (Suc n) h = mm_memset0 (a + 4) n (store a 0 h)"

definition mm_initialize_heap :: "mm_ctx \<Rightarrow> addr \<Rightarrow> nat \<Rightarrow> mm_heap_s \<Rightarrow> mm_heap_s option" where
  "mm_initialize_heap c heapstart heapsize h =
     (let h = h\<lparr>mm_heapsize := 0\<rparr>;
          h = mm_memset0 (mm_nodelist h) (4 * MM_NNODES) h;
          h = init_nodelist (MM_NNODES - 1) h
      in mm_addregion c heapstart heapsize h)"

definition mm_extend_locked :: "addr \<Rightarrow> nat \<Rightarrow> mm_heap_s \<Rightarrow> mm_heap_s option" where
  "mm_extend_locked p sz h = do {
     let blockend = add32 p sz;
     let oldnode = mm_heapend h;
     ASSERT (oldnode + SIZEOF_MM_ALLOCNODE = p);
     let h = set_size oldnode sz h;
     ASSERT (allocated h oldnode);
     let newnode = blockend - SIZEOF_MM_ALLOCNODE;
     let h = set_size newnode SIZEOF_MM_ALLOCNODE h;
     let h = set_preceding newnode (nd_size h oldnode OR MM_ALLOC_BIT) h;
     Some (h\<lparr>mm_heapend := newnode\<rparr>)
   }"

record mallinfo =
  arena :: nat
  ordblks :: nat
  mxordblk :: nat
  uordblks :: nat
  fordblks :: nat

partial_function (option) mallinfo_loop :: "mm_heap_s \<Rightarrow> addr \<Rightarrow> mallinfo \<Rightarrow> (addr \<times> mallinfo) option" where
  "mallinfo_loop h node i =
     (if node < mm_heapend h
      then mallinfo_loop h (node + nd_size h node)
             (if allocated h node then i\<lparr>uordblks := add32 (uordblks i) (nd_size h node)\<rparr>
              else i\<lparr>ordblks := ordblks i + 1, fordblks := add32 (fordblks i) (nd_size h node),
                     mxordblk := (if nd_size h node > mxordblk i then nd_size h node else mxordblk i)\<rparr>)
      else Some (node, i))"

text \<open>What \<open>mm_mallinfo\<close> does with the sums after the lock is given back.\<close>

definition mallinfo_finish :: "addr \<Rightarrow> mallinfo \<Rightarrow> mm_heap_s \<Rightarrow> mallinfo option" where
  "mallinfo_finish node i h = do {
     ASSERT (node = mm_heapend h);
     let i = i\<lparr>uordblks := add32 (uordblks i) SIZEOF_MM_ALLOCNODE\<rparr>;
     ASSERT (add32 (uordblks i) (fordblks i) = mm_heapsize h);
     Some (i\<lparr>arena := mm_heapsize h\<rparr>)
   }"

end
