(* ===== verification/Mm_Inv.thy ===== *)
theory Mm_Inv
  imports Mm_Heap
begin

text \<open>
  The representation of the heap: the chunks of the region in address order and the sorted, doubly linked
  list of the free chunks, with the lemmas on the list operations and on replacing a run of chunks.
\<close>

section \<open>Sizes and flags\<close>

lemmas mm_consts = MM_MIN_SHIFT_def MM_MAX_SHIFT_def MM_MIN_CHUNK_def MM_MAX_CHUNK_def MM_NNODES_def
  MM_GRAN_MASK_def SIZEOF_MM_ALLOCNODE_def SIZEOF_MM_FREENODE_def

lemma and_high_gen:
  fixes n :: nat
  assumes "n < 2 ^ w" "k \<le> w"
  shows "n AND (2 ^ w - 2 ^ k) = n div 2 ^ k * 2 ^ k"
proof -
  have "2 ^ w - 2 ^ k = push_bit k (mask (w - k) :: nat)"
    using assms(2) by (simp add: push_bit_eq_mult mask_eq_exp_minus_1 diff_mult_distrib flip: power_add)
  moreover have "n AND push_bit k (mask (w - k)) = push_bit k (take_bit (w - k) (drop_bit k n))"
    by (auto simp: bit_eq_iff bit_simps)
  moreover have "take_bit (w - k) (drop_bit k n) = n div 2 ^ k"
    using assms by (simp add: take_bit_nat_eq_self drop_bit_eq_div less_mult_imp_div_less flip: power_add)
  ultimately show ?thesis by (simp add: push_bit_eq_mult)
qed

lemmas and_high = and_high_gen [where w = 32]

lemma align_down: "n < 2 ^ 32 \<Longrightarrow> MM_ALIGN_DOWN n = n div 16 * 16"
  using and_high [of n 4] by (simp add: MM_ALIGN_DOWN_def mm_consts not32_def)

lemma align_up: "n + 15 < 2 ^ 32 \<Longrightarrow> MM_ALIGN_UP n = (n + 15) div 16 * 16"
  using and_high [of "n + 15" 4] by (simp add: MM_ALIGN_UP_def mm_consts not32_def add32_def)

text \<open>\<open>flagged b n\<close>: the word \<open>preceding\<close> of a chunk behind a chunk of size \<open>n\<close>.\<close>

definition flagged :: "bool \<Rightarrow> nat \<Rightarrow> nat" where
  "flagged b n = (if b then n OR MM_ALLOC_BIT else n)"

lemma high_bit:
  fixes n :: nat
  assumes "n < 2 ^ k"
  shows "n AND push_bit k 1 = 0" "(n OR push_bit k 1) AND push_bit k 1 = push_bit k 1"
proof -
  have "\<not> bit n k" using assms by (metis bit_take_bit_iff less_irrefl take_bit_nat_eq_self)
  then show "n AND push_bit k 1 = 0" "(n OR push_bit k 1) AND push_bit k 1 = push_bit k 1"
    by (auto intro!: bit_eqI simp: bit_simps)
qed

lemma alloc_bit: "MM_ALLOC_BIT = push_bit 31 1"
  by (simp add: MM_ALLOC_BIT_def)

lemma flag_and: "n < 2 ^ 31 \<Longrightarrow> flagged b n AND MM_ALLOC_BIT = (if b then MM_ALLOC_BIT else 0)"
  using high_bit [of n 31] unfolding flagged_def alloc_bit by (cases b) (simp_all only: if_True if_False)

lemma flag_clear: "n < 2 ^ 31 \<Longrightarrow> flagged b n AND not32 MM_ALLOC_BIT = n"
proof -
  assume n: "n < 2 ^ 31"
  have "not32 MM_ALLOC_BIT = mask 31" by (simp add: not32_def MM_ALLOC_BIT_def mask_eq_exp_minus_1)
  moreover have "m AND mask k = take_bit k m" "(m OR push_bit k 1) AND mask k = take_bit k m" for m k :: nat
    by (auto intro!: bit_eqI simp: bit_simps)
  ultimately have "flagged b n AND not32 MM_ALLOC_BIT = take_bit 31 n"
    unfolding flagged_def alloc_bit by (cases b) (simp_all only: if_True if_False)
  with n show ?thesis by (simp add: take_bit_nat_eq_self)
qed

lemma flag_or: "(flagged b n) OR MM_ALLOC_BIT = flagged True n"
  by (simp add: flagged_def or.assoc)

lemma flag_keep: "m < 2 ^ 31 \<Longrightarrow> n OR (flagged b m AND MM_ALLOC_BIT) = flagged b n"
  by (simp add: flag_and) (simp add: flagged_def)

lemma alloc_nonzero [simp]: "MM_ALLOC_BIT \<noteq> 0" by (simp add: MM_ALLOC_BIT_def)

lemma sub32_le: "b \<le> a \<Longrightarrow> a < 2 ^ 32 \<Longrightarrow> sub32 a b = a - b"
proof -
  assume "b \<le> a" "a < 2 ^ 32"
  then have "a + 2 ^ 32 - b = (a - b) + 2 ^ 32" "a - b < 2 ^ 32" by linarith+
  then show ?thesis by (simp add: sub32_def del: add_diff_assoc add_diff_assoc2)
qed

lemma add32_small: "a + b < 2 ^ 32 \<Longrightarrow> add32 a b = a + b"
  by (simp add: add32_def)

lemma size2ndx_loop_bounds:
  "0 < n \<Longrightarrow> ndx \<le> size2ndx_loop n ndx
     \<and> 2 ^ (size2ndx_loop n ndx - ndx) \<le> n \<and> n < 2 ^ (size2ndx_loop n ndx - ndx + 1)"
proof (induction n ndx rule: size2ndx_loop.induct)
  case (1 n ndx)
  show ?case
  proof (cases "n > 1")
    case True
    with 1 have IH: "ndx + 1 \<le> size2ndx_loop (n div 2) (ndx + 1)"
      "2 ^ (size2ndx_loop (n div 2) (ndx + 1) - (ndx + 1)) \<le> n div 2"
      "n div 2 < 2 ^ (size2ndx_loop (n div 2) (ndx + 1) - (ndx + 1) + 1)" by auto
    define k where "k = size2ndx_loop (n div 2) (ndx + 1) - (ndx + 1)"
    have k: "size2ndx_loop n ndx = ndx + 1 + k"
      using IH(1) True by (simp add: k_def size2ndx_loop.simps [of n])
    from IH have "2 ^ k \<le> n div 2" "n div 2 < 2 ^ (k + 1)" by (simp_all add: k_def)
    then have "2 ^ (k + 1) \<le> n" "n < 2 ^ (k + 2)" by auto
    with k show ?thesis by simp
  next
    case False
    with 1(2) have "n = 1" by simp
    then show ?thesis by (simp add: size2ndx_loop.simps [of "Suc 0"])
  qed
qed

text \<open>List \<open>i\<close> holds the chunks of sizes \<open>2 ^ (i + 4)\<close> to \<open>2 ^ (i + 5) - 1\<close>, the last one also all greater ones.\<close>

lemma mm_size2ndx:
  assumes "16 \<le> n"
  shows "mm_size2ndx n < 19" "2 ^ (mm_size2ndx n + 4) \<le> n" "mm_size2ndx n < 18 \<Longrightarrow> n < 2 ^ (mm_size2ndx n + 5)"
proof -
  define k where "k = size2ndx_loop (n div 16) 0"
  have "2 ^ k \<le> n div 16" "n div 16 < 2 ^ (k + 1)"
    using size2ndx_loop_bounds [of "n div 16" 0] assms by (auto simp: k_def)
  then have k: "2 ^ (k + 4) \<le> n" "n < 2 ^ (k + 5)" by (auto simp: power_add)
  have "k < 18" if "n < 4194304"
  proof -
    have "(2::nat) ^ (k + 4) < 2 ^ 22" using k(1) that by simp
    then have "k + 4 < 22" using power_less_imp_less_exp [of "2::nat" "k + 4" 22] by linarith
    then show ?thesis by simp
  qed
  moreover have "mm_size2ndx n = (if n \<ge> 4194304 then 18 else k)"
    by (simp add: mm_size2ndx_def mm_consts k_def drop_bit_eq_div)
  ultimately show "mm_size2ndx n < 19" "2 ^ (mm_size2ndx n + 4) \<le> n"
    "mm_size2ndx n < 18 \<Longrightarrow> n < 2 ^ (mm_size2ndx n + 5)"
    using k by (auto split: if_splits)
qed

section \<open>Chunks\<close>

text \<open>
  The chunks of a region in address order, each with its size and whether it is allocated. \<open>region m p a cs\<close>:
  memory \<open>m\<close> holds the headers of the chunks \<open>cs\<close> from address \<open>a\<close> on, where the chunk before \<open>a\<close> has size \<open>p\<close>.
\<close>

type_synonym chunks = "(nat \<times> bool) list"

definition bytes :: "chunks \<Rightarrow> nat" where
  "bytes cs = sum_list (map fst cs)"

fun region :: "(addr \<Rightarrow> nat) \<Rightarrow> nat \<Rightarrow> addr \<Rightarrow> chunks \<Rightarrow> bool" where
  "region m p a [] = True"
| "region m p a ((n, b) # cs) = (m a = n \<and> m (a + 4) = flagged b p \<and> region m n (a + n) cs)"

fun lastsz :: "nat \<Rightarrow> chunks \<Rightarrow> nat" where
  "lastsz p [] = p"
| "lastsz p ((n, b) # cs) = lastsz n cs"

text \<open>
  The addresses of the chunks, of the free chunks, the allocated chunks with their sizes, and the addresses of
  the bytes allocated to users.
\<close>

fun addrs :: "addr \<Rightarrow> chunks \<Rightarrow> addr list" where
  "addrs a [] = []"
| "addrs a ((n, b) # cs) = a # addrs (a + n) cs"

fun frees :: "addr \<Rightarrow> chunks \<Rightarrow> addr set" where
  "frees a [] = {}"
| "frees a ((n, b) # cs) = (if b then frees (a + n) cs else insert a (frees (a + n) cs))"

fun allocs :: "addr \<Rightarrow> chunks \<Rightarrow> (addr \<times> nat) set" where
  "allocs a [] = {}"
| "allocs a ((n, b) # cs) = (if b then insert (a, n) (allocs (a + n) cs) else allocs (a + n) cs)"

fun live :: "addr \<Rightarrow> chunks \<Rightarrow> addr set" where
  "live a [] = {}"
| "live a ((n, b) # cs) = (if b then {a + 16 ..< a + n} else {}) \<union> live (a + n) cs"

definition gran :: "chunks \<Rightarrow> bool" where
  "gran cs = (\<forall>c \<in> set cs. 16 dvd fst c \<and> 16 \<le> fst c)"

text \<open>No two neighbours are both free.\<close>

fun merged :: "chunks \<Rightarrow> bool" where
  "merged (c # d # cs) = ((snd c \<or> snd d) \<and> merged (d # cs))"
| "merged cs = True"

lemma bytes_simps [simp]:
  "bytes [] = 0" "bytes ((n, b) # cs) = n + bytes cs" "bytes (xs @ ys) = bytes xs + bytes ys"
  by (simp_all add: bytes_def)

lemma gran_simps [simp]:
  "gran []" "gran ((n, b) # cs) = (16 dvd n \<and> 16 \<le> n \<and> gran cs)" "gran (xs @ ys) = (gran xs \<and> gran ys)"
  by (auto simp: gran_def)

lemma lastsz_append [simp]: "lastsz p (xs @ ys) = lastsz (lastsz p xs) ys"
  by (induction p xs rule: lastsz.induct) auto

lemma region_append [simp]:
  "region m p a (xs @ ys) = (region m p a xs \<and> region m (lastsz p xs) (a + bytes xs) ys)"
  by (induction m p a xs rule: region.induct) (auto simp: add.assoc)

lemma addrs_append [simp]: "addrs a (xs @ ys) = addrs a xs @ addrs (a + bytes xs) ys"
  by (induction a xs rule: addrs.induct) (auto simp: add.assoc)

lemma frees_append [simp]: "frees a (xs @ ys) = frees a xs \<union> frees (a + bytes xs) ys"
  by (induction a xs rule: frees.induct) (auto simp: add.assoc)

lemma allocs_append [simp]: "allocs a (xs @ ys) = allocs a xs \<union> allocs (a + bytes xs) ys"
  by (induction a xs rule: allocs.induct) (auto simp: add.assoc)

lemma live_append [simp]: "live a (xs @ ys) = live a xs \<union> live (a + bytes xs) ys"
  by (induction a xs rule: live.induct) (auto simp: add.assoc)

lemma merged_append [simp]:
  "merged (xs @ ys) = (merged xs \<and> merged ys \<and> (xs \<noteq> [] \<longrightarrow> ys \<noteq> [] \<longrightarrow> snd (last xs) \<or> snd (hd ys)))"
  by (induction xs rule: merged.induct) (auto, (cases ys; auto)+)

lemma merged_Cons [simp]: "merged (c # cs) = (merged cs \<and> (cs \<noteq> [] \<longrightarrow> snd c \<or> snd (hd cs)))"
  using merged_append [of "[c]" cs] by simp

lemma region_frame:
  "(\<And>x. x \<in> set (addrs a cs) \<Longrightarrow> m' x = m x \<and> m' (x + 4) = m (x + 4)) \<Longrightarrow> region m' p a cs = region m p a cs"
  by (induction m p a cs rule: region.induct) auto

lemma frees_addrs: "x \<in> frees a cs \<Longrightarrow> x \<in> set (addrs a cs)"
  by (induction a cs rule: frees.induct) (auto split: if_splits)

lemma addrs_bounds:
  "gran cs \<Longrightarrow> 16 dvd a \<Longrightarrow> x \<in> set (addrs a cs) \<Longrightarrow> 16 dvd x \<and> a \<le> x \<and> x + 16 \<le> a + bytes cs"
  by (induction a cs rule: addrs.induct) fastforce+

lemma live_bounds: "x \<in> live a cs \<Longrightarrow> a + 16 \<le> x \<and> x < a + bytes cs"
  by (induction a cs rule: live.induct) (fastforce split: if_splits)+

lemma region_sizes: "region m p a cs \<Longrightarrow> gran cs \<Longrightarrow> x \<in> set (addrs a cs) \<Longrightarrow> 16 \<le> m x"
  by (induction m p a cs rule: region.induct) auto

text \<open>The payload of an allocated chunk is apart from all headers and from all free chunks.\<close>

lemma live_addrs:
  assumes "gran cs" "16 dvd a" "x \<in> live a cs" "y \<in> set (addrs a cs)"
  shows "x < y \<or> y + 16 \<le> x"
  using assms
proof (induction a cs rule: live.induct)
  case (2 a n b cs)
  have a': "16 dvd a + n" "gran cs" using 2 by auto
  have "y = a \<or> y \<in> set (addrs (a + n) cs)" using 2 by auto
  moreover have "x \<in> {a + 16 ..< a + n} \<or> x \<in> live (a + n) cs" using 2 by (auto split: if_splits)
  ultimately show ?case
    using 2(1) [OF a'(2,1)] addrs_bounds [OF a'(2,1)] live_bounds [of x "a + n" cs] by fastforce
qed simp

section \<open>The list of free chunks\<close>

text \<open>\<open>fseg m p xs n\<close>: the nodes \<open>xs\<close> are linked in order, between the nodes \<open>p\<close> and \<open>n\<close>.\<close>

definition fst0 :: "addr \<Rightarrow> addr list \<Rightarrow> addr" where
  "fst0 n xs = (case xs of [] \<Rightarrow> n | x # _ \<Rightarrow> x)"

fun lst0 :: "addr \<Rightarrow> addr list \<Rightarrow> addr" where
  "lst0 p [] = p"
| "lst0 p (x # xs) = lst0 x xs"

fun fseg :: "(addr \<Rightarrow> nat) \<Rightarrow> addr \<Rightarrow> addr list \<Rightarrow> addr \<Rightarrow> bool" where
  "fseg m p [] n = True"
| "fseg m p (x # xs) n = (m (x + 12) = p \<and> m (x + 8) = fst0 n xs \<and> fseg m x xs n)"

lemma fst0_simps [simp]: "fst0 n [] = n" "fst0 n (x # xs) = x" "fst0 n (xs @ ys) = fst0 (fst0 n ys) xs"
  by (simp_all add: fst0_def split: list.split)

lemma lst0_append [simp]: "lst0 p (xs @ ys) = lst0 (lst0 p xs) ys"
  by (induction p xs rule: lst0.induct) auto

lemma lst0_last: "lst0 p xs = (if xs = [] then p else last xs)"
  by (induction p xs rule: lst0.induct) auto

lemma fseg_append [simp]: "fseg m p (xs @ ys) n = (fseg m p xs (fst0 n ys) \<and> fseg m (lst0 p xs) ys n)"
  by (induction m p xs n rule: fseg.induct) auto

lemma fseg_frame:
  "(\<And>x. x \<in> set xs \<Longrightarrow> m' (x + 8) = m (x + 8) \<and> m' (x + 12) = m (x + 12)) \<Longrightarrow> fseg m' p xs n = fseg m p xs n"
  by (induction m p xs n rule: fseg.induct) auto

text \<open>Headers of different nodes do not overlap.\<close>

definition apart :: "addr set \<Rightarrow> bool" where
  "apart S = (\<forall>a \<in> S. \<forall>b \<in> S. a \<noteq> b \<longrightarrow> a + 16 \<le> b \<or> b + 16 \<le> a)"

lemma apartD: "apart S \<Longrightarrow> a \<in> S \<Longrightarrow> b \<in> S \<Longrightarrow> a \<noteq> b \<Longrightarrow> a + 16 \<le> b \<or> b + 16 \<le> a"
  unfolding apart_def by blast

lemma apart_neq:
  assumes "apart S" "a \<in> S" "b \<in> S" "a \<noteq> b"
  shows "a + 8 \<noteq> b + 8 \<and> a + 8 \<noteq> b + 12 \<and> a + 12 \<noteq> b + 8 \<and> a + 12 \<noteq> b + 12"
  using apartD [OF assms] by linarith

lemma fseg_insert:
  assumes seg: "fseg m 0 (A @ B) 0" and A: "A \<noteq> []" and d: "distinct (A @ x # B)"
    and ap: "apart (set (A @ x # B))"
    and m': "m' = (let m1 = m(last A + 8 := x, x + 12 := last A, x + 8 := fst0 0 B)
                   in if B = [] then m1 else m1(hd B + 12 := x))"
  shows "fseg m' 0 (A @ x # B) 0"
proof -
  obtain A' a where A': "A = A' @ [a]" using A by (metis append_butlast_last_id)
  note off = apart_neq [OF ap]
  have *: "m' (y + 8) = m (y + 8) \<and> m' (y + 12) = m (y + 12)" if y: "y \<in> set A' \<union> set (tl B)" for y
  proof (cases B)
    case Nil
    with y d have "y \<noteq> a" "y \<noteq> x" by (auto simp: A')
    with y Nil off [of y a] off [of y x] show ?thesis by (simp add: m' A' Let_def)
  next
    case (Cons b B')
    with y d have "y \<noteq> a" "y \<noteq> x" "y \<noteq> b" by (auto simp: A')
    with y Cons off [of y a] off [of y x] off [of y b] show ?thesis by (simp add: m' A' Let_def)
  qed
  have A1: "fseg m' 0 A' n = fseg m 0 A' n" for n by (rule fseg_frame) (use * in blast)
  have B1: "fseg m' p (tl B) n = fseg m p (tl B) n" for p n by (rule fseg_frame) (use * in blast)
  have ax: "a \<noteq> x" using d by (auto simp: A')
  show ?thesis
  proof (cases B)
    case Nil
    with seg A1 off [of a x] ax show ?thesis by (simp add: A' m' lst0_last Let_def)
  next
    case (Cons b B')
    with d have "b \<noteq> a" "b \<noteq> x" by (auto simp: A')
    with Cons ax off [of a x] off [of b a] off [of b x]
    have "m' (a + 12) = m (a + 12)" "m' (a + 8) = x" "m' (x + 12) = a" "m' (x + 8) = b"
      "m' (b + 12) = x" "m' (b + 8) = m (b + 8)"
      by (simp_all add: A' m' Let_def)
    with Cons seg A1 B1 show ?thesis by (simp add: A' lst0_last)
  qed
qed

lemma fseg_remove:
  assumes seg: "fseg m 0 (A @ x # B) 0" and A: "A \<noteq> []" and d: "distinct (A @ x # B)"
    and ap: "apart (set (A @ x # B))"
    and m': "m' = (let m1 = m(last A + 8 := fst0 0 B) in if B = [] then m1 else m1(hd B + 12 := last A))"
  shows "fseg m' 0 (A @ B) 0"
proof -
  obtain A' a where A': "A = A' @ [a]" using A by (metis append_butlast_last_id)
  note off = apart_neq [OF ap]
  have *: "m' (y + 8) = m (y + 8) \<and> m' (y + 12) = m (y + 12)" if y: "y \<in> set A' \<union> set (tl B)" for y
  proof (cases B)
    case Nil
    with y d have "y \<noteq> a" by (auto simp: A')
    with y Nil off [of y a] show ?thesis by (simp add: m' A' Let_def)
  next
    case (Cons b B')
    with y d have "y \<noteq> a" "y \<noteq> b" by (auto simp: A')
    with y Cons off [of y a] off [of y b] show ?thesis by (simp add: m' A' Let_def)
  qed
  have A1: "fseg m' 0 A' n = fseg m 0 A' n" for n by (rule fseg_frame) (use * in blast)
  have B1: "fseg m' p (tl B) n = fseg m p (tl B) n" for p n by (rule fseg_frame) (use * in blast)
  show ?thesis
  proof (cases B)
    case Nil
    with seg A1 show ?thesis by (simp add: A' m' lst0_last)
  next
    case (Cons b B')
    with d have "b \<noteq> a" by (auto simp: A')
    with Cons seg A1 B1 off [of b a] show ?thesis by (simp add: A' m' lst0_last Let_def)
  qed
qed

text \<open>
  The list runs through the heads in the array and the free chunks, in the order of this key: behind head \<open>i\<close>
  are the chunks of list \<open>i\<close> by size.
\<close>

definition heads :: "addr \<Rightarrow> addr set" where
  "heads nl = (\<lambda>i. nl + 16 * i) ` {..<19}"

definition nkey :: "addr \<Rightarrow> (addr \<Rightarrow> nat) \<Rightarrow> addr \<Rightarrow> nat" where
  "nkey nl m x = (if x \<in> heads nl then 2 ^ ((x - nl) div 16 + 5) else 2 * m x + 1)"

definition by_key :: "addr \<Rightarrow> (addr \<Rightarrow> nat) \<Rightarrow> addr list \<Rightarrow> bool" where
  "by_key nl m L = sorted_wrt (\<lambda>x y. nkey nl m x \<le> nkey nl m y) L"

text \<open>Where chunks may lie: between \<open>lo\<close> and \<open>hi\<close>, apart from the array of heads.\<close>

definition places :: "addr \<Rightarrow> addr \<Rightarrow> addr set" where
  "places lo hi = {x. 16 dvd x \<and> lo \<le> x \<and> x + 16 \<le> hi}"

definition flist_as :: "addr \<Rightarrow> addr \<Rightarrow> mm_heap_s \<Rightarrow> addr set \<Rightarrow> addr list \<Rightarrow> bool" where
  "flist_as lo hi h F L =
     (0 < mm_nodelist h \<and> 0 < lo \<and> (mm_nodelist h + 304 \<le> lo \<or> hi \<le> mm_nodelist h)
      \<and> (\<forall>x \<in> heads (mm_nodelist h). mem h x = 0)
      \<and> F \<subseteq> places lo hi \<and> (\<forall>x \<in> F. 16 \<le> mem h x)
      \<and> fseg (mem h) 0 L 0 \<and> distinct L \<and> set L = heads (mm_nodelist h) \<union> F
      \<and> by_key (mm_nodelist h) (mem h) L)"

definition flist :: "addr \<Rightarrow> addr \<Rightarrow> mm_heap_s \<Rightarrow> addr set \<Rightarrow> bool" where
  "flist lo hi h F = (\<exists>L. flist_as lo hi h F L)"

text \<open>Only link words of these nodes may have changed.\<close>

definition relinked :: "addr set \<Rightarrow> mm_heap_s \<Rightarrow> mm_heap_s \<Rightarrow> bool" where
  "relinked F h h' =
     (h' = h\<lparr>mem := mem h'\<rparr>
      \<and> (\<forall>a. (\<forall>y \<in> heads (mm_nodelist h) \<union> F. a \<noteq> y + 8 \<and> a \<noteq> y + 12) \<longrightarrow> mem h' a = mem h a))"

lemma heads_bounds: "x \<in> heads nl \<Longrightarrow> nl \<le> x \<and> x + 16 \<le> nl + 304"
  by (auto simp: heads_def)

lemma nodelist_heads [simp]: "i < 19 \<Longrightarrow> nodelist h i \<in> heads (mm_nodelist h)"
  by (auto simp: nodelist_def heads_def)

lemma nkey_head [simp]: "i < 19 \<Longrightarrow> nkey (mm_nodelist h) m (nodelist h i) = 2 ^ (i + 5)"
  using nodelist_heads [of i h] by (simp add: nkey_def nodelist_def)

lemma heads_apart:
  assumes "x \<in> places lo hi" "y \<in> heads nl" "nl + 304 \<le> lo \<or> hi \<le> nl"
  shows "x + 16 \<le> y \<or> y + 16 \<le> x"
  using assms heads_bounds [of y nl] by (auto simp: places_def)

lemma apart_nodes:
  assumes "nl + 304 \<le> lo \<or> hi \<le> nl" "X \<subseteq> places lo hi"
  shows "apart (heads nl \<union> X)"
proof -
  have hh: "a + 16 \<le> b \<or> b + 16 \<le> a" if "a \<in> heads nl" "b \<in> heads nl" "a \<noteq> b" for a b
    using that by (auto simp: heads_def)
  have xx: "a + 16 \<le> b \<or> b + 16 \<le> a" if "a \<in> X" "b \<in> X" "a \<noteq> b" for a b
  proof -
    have "16 dvd a" "16 dvd b" using that assms(2) by (auto simp: places_def)
    then obtain i j where "a = 16 * i" "b = 16 * j" by (auto elim!: dvdE)
    moreover from this that(3) have "i + 1 \<le> j \<or> j + 1 \<le> i" by auto
    ultimately show ?thesis by linarith
  qed
  have hx: "a + 16 \<le> b \<or> b + 16 \<le> a" if "a \<in> X" "b \<in> heads nl" for a b
    using that assms heads_apart by blast
  show ?thesis unfolding apart_def by (metis Un_iff hh hx xx)
qed

lemma flist_as_nodes:
  assumes "flist_as lo hi h F L"
  shows "0 \<notin> set L" "apart (set L)" "F \<inter> heads (mm_nodelist h) = {}"
    "x \<in> F \<Longrightarrow> nkey (mm_nodelist h) (mem h) x = 2 * mem h x + 1"
    "x \<in> set L \<Longrightarrow> (mem h x = 0) = (x \<in> heads (mm_nodelist h))"
proof -
  note * = assms [unfolded flist_as_def]
  show "0 \<notin> set L" using * heads_bounds [of 0 "mm_nodelist h"] by (auto simp: places_def)
  show "apart (set L)" using * apart_nodes by metis
  show d: "F \<inter> heads (mm_nodelist h) = {}"
  proof (rule ccontr)
    assume "F \<inter> heads (mm_nodelist h) \<noteq> {}"
    then obtain y where y: "y \<in> F" "y \<in> heads (mm_nodelist h)" by blast
    then have "y + 16 \<le> y \<or> y + 16 \<le> y" using * heads_apart by blast
    then show False by simp
  qed
  show "x \<in> F \<Longrightarrow> nkey (mm_nodelist h) (mem h) x = 2 * mem h x + 1"
    using d by (auto simp: nkey_def)
  show "x \<in> set L \<Longrightarrow> (mem h x = 0) = (x \<in> heads (mm_nodelist h))"
    using * by force
qed

lemma flist_as_set: "flist_as lo hi h F L \<Longrightarrow> set L = heads (mm_nodelist h) \<union> F"
  and flist_as_key: "flist_as lo hi h F L \<Longrightarrow> by_key (mm_nodelist h) (mem h) L"
  and flist_as_distinct: "flist_as lo hi h F L \<Longrightarrow> distinct L"
  and flist_as_seg: "flist_as lo hi h F L \<Longrightarrow> fseg (mem h) 0 L 0"
  by (simp_all add: flist_as_def)

lemma flist_as_first:
  assumes L: "flist_as lo hi h F (A @ x # B)" and x: "x \<in> F"
  shows "A \<noteq> []"
proof
  assume "A = []"
  then have L0: "flist_as lo hi h F (x # B)" using L by simp
  have "nodelist h 0 \<in> set (x # B)" unfolding flist_as_set [OF L0] by simp
  moreover have "x \<noteq> nodelist h 0" using x flist_as_nodes(3) [OF L] nodelist_heads [of 0 h] by auto
  ultimately have "nodelist h 0 \<in> set B" by simp
  with flist_as_key [OF L0] have "nkey (mm_nodelist h) (mem h) x \<le> nkey (mm_nodelist h) (mem h) (nodelist h 0)"
    unfolding by_key_def sorted_wrt.simps by blast
  then have "nkey (mm_nodelist h) (mem h) x \<le> 32" by simp
  moreover have "16 \<le> mem h x" using L x by (simp add: flist_as_def)
  ultimately show False using flist_as_nodes(4) [OF L x] by simp
qed

lemmas nd_defs = nd_size_def preceding_def nd_flink_def nd_blink_def set_size_def set_preceding_def
  set_nflink_def set_nblink_def store_def

text \<open>Changes outside the headers of the list keep it.\<close>

lemma flist_as_frame:
  assumes L: "flist_as lo hi h F L" and h': "mm_nodelist h' = mm_nodelist h"
    and eq: "\<And>x. x \<in> heads (mm_nodelist h) \<union> F \<Longrightarrow>
      mem h' x = mem h x \<and> mem h' (x + 8) = mem h (x + 8) \<and> mem h' (x + 12) = mem h (x + 12)"
  shows "flist_as lo hi h' F L"
proof -
  have "fseg (mem h') 0 L 0 = fseg (mem h) 0 L 0"
    by (rule fseg_frame) (use eq flist_as_set [OF L] in blast)
  moreover have "by_key (mm_nodelist h) (mem h') L = by_key (mm_nodelist h) (mem h) L"
    unfolding by_key_def
    by (rule sorted_wrt_map_cong) (use eq flist_as_set [OF L] in \<open>auto simp: nkey_def\<close>)
  ultimately show ?thesis using L eq by (auto simp: flist_as_def h')
qed

lemma mm_unlink_post:
  assumes "flist lo hi h F" "x \<in> F"
  obtains h' where "mm_unlink x h = Some h'" "flist lo hi h' (F - {x})" "relinked F h h'"
proof -
  from assms(1) obtain L where L: "flist_as lo hi h F L" by (auto simp: flist_def)
  with assms(2) obtain A B where AB: "L = A @ x # B"
    using flist_as_set split_list by (metis UnCI)
  note L = L [unfolded AB]
  note n = flist_as_nodes [OF L] and seg = flist_as_seg [OF L] and d = flist_as_distinct [OF L]
  have A: "A \<noteq> []" by (rule flist_as_first [OF L assms(2)])
  define m where "m = (let m1 = (mem h)(last A + 8 := fst0 0 B) in if B = [] then m1 else m1(hd B + 12 := last A))"
  let ?h = "h\<lparr>mem := m\<rparr>"
  have x: "mem h (x + 12) = last A" "mem h (x + 8) = fst0 0 B"
    using seg A by (simp_all add: lst0_last)
  have la: "last A \<in> set (A @ x # B)" "last A \<noteq> x" using A d by auto
  have "last A + 8 \<noteq> x + 8" "last A + 8 \<noteq> x + 12"
    using apart_neq [OF n(2) la(1) _ la(2)] by simp_all
  moreover have "last A \<noteq> 0" using la n(1) by metis
  moreover have "(fst0 0 B = 0) = (B = [])" using n(1) by (cases B) auto
  ultimately have run: "mm_unlink x h = Some ?h"
    using x by (cases B) (auto simp: mm_unlink_def nd_defs m_def)
  have S: "y \<in> heads (mm_nodelist h) \<union> F \<longleftrightarrow> y \<in> set A \<or> y = x \<or> y \<in> set B" for y
    unfolding flist_as_set [OF L, symmetric] by auto
  have nodes: "set A \<union> set B = heads (mm_nodelist h) \<union> (F - {x})"
    using S d n(3) assms(2) by (intro set_eqI) (metis Diff_iff Un_iff disjoint_iff distinct_split_iff singletonD singletonI)
  have same: "m a = mem h a" if "\<And>y. y \<in> heads (mm_nodelist h) \<union> F \<Longrightarrow> a \<noteq> y + 8 \<and> a \<noteq> y + 12" for a
  proof -
    have "a \<noteq> last A + 8" "B \<noteq> [] \<Longrightarrow> a \<noteq> hd B + 12"
      using that [of "last A"] that [of "hd B"] A S by simp_all
    then show ?thesis by (auto simp: m_def Let_def)
  qed
  have sz: "m a = mem h a" if "a \<in> heads (mm_nodelist h) \<union> F" for a
  proof (rule same)
    fix y assume "y \<in> heads (mm_nodelist h) \<union> F"
    then show "a \<noteq> y + 8 \<and> a \<noteq> y + 12"
      using apartD [OF n(2), of a y] that by (cases "a = y") (auto simp: flist_as_set [OF L] simp del: set_append)
  qed
  have "flist_as lo hi ?h (F - {x}) (A @ B)"
  proof -
    have "fseg m 0 (A @ B) 0" by (rule fseg_remove [OF seg A d n(2) m_def])
    moreover have "by_key (mm_nodelist h) m (A @ B)"
    proof -
      have "by_key (mm_nodelist h) (mem h) (A @ B)"
        using flist_as_key [OF L] by (auto simp: by_key_def sorted_wrt_append)
      moreover have "by_key (mm_nodelist h) m (A @ B) = by_key (mm_nodelist h) (mem h) (A @ B)"
        unfolding by_key_def
        by (rule sorted_wrt_map_cong) (use sz nodes in \<open>auto simp: nkey_def\<close>)
      ultimately show ?thesis by simp
    qed
    ultimately show ?thesis using L d nodes sz unfolding flist_as_def by (auto simp del: fseg_append)
  qed
  moreover have "relinked F h ?h" using same by (auto simp: relinked_def)
  ultimately show ?thesis using that run by (auto simp: flist_def)
qed

text \<open>The two loops over the list.\<close>

lemma addfree_find_walk:
  assumes "fseg (mem h) q (p # B) 0" "0 \<notin> set B"
  shows "addfree_find h n p (fst0 0 B) =
    Some (last (p # takeWhile (\<lambda>y. mem h y \<noteq> 0 \<and> mem h y < n) B),
          fst0 0 (dropWhile (\<lambda>y. mem h y \<noteq> 0 \<and> mem h y < n) B))"
  using assms
proof (induction B arbitrary: p q)
  case Nil
  then show ?case by (simp add: addfree_find.simps)
next
  case (Cons y B)
  then show ?case by (subst addfree_find.simps) (auto simp: nd_size_def nd_flink_def)
qed

lemma malloc_find_walk:
  assumes "fseg (mem h) p B 0" "0 \<notin> set B"
  shows "malloc_find h n (fst0 0 B) = Some (fst0 0 (dropWhile (\<lambda>y. mem h y < n) B))"
  using assms
proof (induction B arbitrary: p)
  case Nil
  then show ?case by (simp add: malloc_find.simps)
next
  case (Cons y B)
  then show ?case by (subst malloc_find.simps) (auto simp: nd_size_def nd_flink_def)
qed

text \<open>Splitting the list at the head for size \<open>n\<close>: the chunks before it are smaller than \<open>n\<close>.\<close>

lemma flist_as_split:
  assumes L: "flist_as lo hi h F L" and n: "16 \<le> n"
  obtains A B where "L = A @ nodelist h (mm_size2ndx n) # B"
    "\<And>y. y \<in> set A \<Longrightarrow> nkey (mm_nodelist h) (mem h) y \<le> 2 * n"
    "nkey (mm_nodelist h) (mem h) (nodelist h (mm_size2ndx n)) \<le> 2 * n"
    "\<And>y. y \<in> set B \<Longrightarrow> y \<in> heads (mm_nodelist h) \<Longrightarrow> 2 * n < nkey (mm_nodelist h) (mem h) y"
proof -
  let ?p = "nodelist h (mm_size2ndx n)" and ?k = "nkey (mm_nodelist h) (mem h)"
  note ndx = mm_size2ndx [OF n]
  have "?p \<in> set L" using ndx(1) flist_as_set [OF L] by simp
  then obtain A B where AB: "L = A @ ?p # B" by (metis split_list)
  have p: "?k ?p = 2 ^ (mm_size2ndx n + 5)" using ndx(1) by simp
  moreover have "(2::nat) ^ (mm_size2ndx n + 5) = 2 * 2 ^ (mm_size2ndx n + 4)" by (simp add: power_add)
  ultimately have pn: "?k ?p \<le> 2 * n" using ndx(2) by linarith
  have key: "?k y \<le> ?k ?p" if "y \<in> set A" for y
    using that flist_as_key [OF L] unfolding AB by_key_def sorted_wrt_append by simp
  have "2 * n < ?k y" if y: "y \<in> set B" "y \<in> heads (mm_nodelist h)" for y
  proof -
    from y(2) obtain i where i: "i < 19" "y = nodelist h i" by (auto simp: heads_def nodelist_def)
    have "?k ?p \<le> ?k y" using y flist_as_key [OF L] unfolding AB by_key_def sorted_wrt_append by simp
    then have "(2::nat) ^ (mm_size2ndx n + 5) \<le> 2 ^ (i + 5)" using i p by simp
    then have "mm_size2ndx n \<le> i" by simp
    moreover have "y \<noteq> ?p" using y flist_as_distinct [OF L] unfolding AB by auto
    ultimately have lt: "mm_size2ndx n < i" using i by (cases "mm_size2ndx n = i") auto
    then have "n < 2 ^ (mm_size2ndx n + 5)" using ndx(3) i by simp
    also have "(2::nat) ^ (mm_size2ndx n + 5) \<le> 2 ^ (i + 4)" using lt by (intro power_increasing) auto
    also have "2 * (2::nat) ^ (i + 4) = ?k y" using i by (simp add: power_add)
    finally show ?thesis by simp
  qed
  moreover have "?k y \<le> 2 * n" if "y \<in> set A" for y using key [OF that] pn by simp
  ultimately show ?thesis using that [OF AB _ pn] by blast
qed

text \<open>The search of \<open>mm_malloc\<close> finds a smallest chunk that is big enough.\<close>

lemma malloc_find_post:
  assumes "flist lo hi h F" "16 \<le> n"
  obtains node where "malloc_find h n (nd_flink h (nodelist h (mm_size2ndx n))) = Some node"
    "node = 0 \<and> (\<forall>x \<in> F. mem h x < n)
     \<or> node \<in> F \<and> n \<le> mem h node \<and> (\<forall>x \<in> F. n \<le> mem h x \<longrightarrow> mem h node \<le> mem h x)"
proof -
  from assms(1) obtain L where L: "flist_as lo hi h F L" by (auto simp: flist_def)
  obtain A B where AB: "L = A @ nodelist h (mm_size2ndx n) # B"
    and A: "\<And>y. y \<in> set A \<Longrightarrow> nkey (mm_nodelist h) (mem h) y \<le> 2 * n"
    using flist_as_split [OF L assms(2)] by metis
  let ?p = "nodelist h (mm_size2ndx n)" and ?D = "dropWhile (\<lambda>y. mem h y < n) B"
  note nodes = flist_as_nodes [OF L]
  have seg: "fseg (mem h) (lst0 0 A) (?p # B) 0" using flist_as_seg [OF L] unfolding AB fseg_append by blast
  have run: "malloc_find h n (nd_flink h ?p) = Some (fst0 0 ?D)"
    using malloc_find_walk [of h ?p B n] seg nodes(1) by (simp add: AB nd_flink_def)
  have F: "x \<in> set B" if "x \<in> F" "n \<le> mem h x" for x
  proof -
    have "x \<in> set L" using that flist_as_set [OF L] by simp
    moreover have "x \<notin> set A" using A [of x] that nodes(4) [of x] by auto
    moreover have "x \<noteq> ?p" using that nodes(3) mm_size2ndx(1) [OF assms(2)] nodelist_heads by auto
    ultimately show ?thesis by (simp add: AB)
  qed
  show ?thesis
  proof (cases ?D)
    case Nil
    then have "\<forall>y \<in> set B. mem h y < n" by (simp add: dropWhile_eq_Nil_conv)
    with F have "\<forall>x \<in> F. mem h x < n" using not_less by blast
    moreover have "fst0 0 ?D = 0" by (simp only: Nil fst0_simps)
    ultimately show ?thesis by (intro that [OF run]) blast
  next
    case (Cons d D)
    have d: "n \<le> mem h d" "d \<in> set B"
      using Cons hd_dropWhile [of "\<lambda>y. mem h y < n" B] set_dropWhileD [of d "\<lambda>y. mem h y < n" B] by auto
    then have "d \<in> F"
      using nodes(5) [of d] flist_as_set [OF L] assms(2) by (auto simp: AB)
    moreover have "mem h d \<le> mem h x" if x: "x \<in> F" "n \<le> mem h x" for x
    proof -
      have B: "B = takeWhile (\<lambda>y. mem h y < n) B @ d # D"
        using takeWhile_dropWhile_id [of "\<lambda>y. mem h y < n" B] unfolding Cons by (rule sym)
      have "x \<notin> set (takeWhile (\<lambda>y. mem h y < n) B)" using x(2) set_takeWhileD by force
      moreover have "x \<in> set (takeWhile (\<lambda>y. mem h y < n) B @ d # D)" using F [OF x] B by simp
      ultimately have "x \<in> set (d # D)" by simp
      moreover have "by_key (mm_nodelist h) (mem h) (A @ ?p # takeWhile (\<lambda>y. mem h y < n) B @ d # D)"
        using flist_as_key [OF L] AB B by simp
      then have "by_key (mm_nodelist h) (mem h) (d # D)"
        unfolding by_key_def sorted_wrt_append sorted_wrt.simps(2) by blast
      ultimately have "x = d \<or> nkey (mm_nodelist h) (mem h) d \<le> nkey (mm_nodelist h) (mem h) x"
        by (auto simp: by_key_def)
      then show ?thesis using nodes(4) [OF x(1)] nodes(4) [OF \<open>d \<in> F\<close>] by auto
    qed
    moreover have "fst0 0 ?D = d" by (simp only: Cons fst0_simps)
    ultimately show ?thesis using d by (intro that [OF run]) auto
  qed
qed

text \<open>The insertion point of a chunk keeps the order.\<close>

lemma addfree_order:
  assumes L: "flist_as lo hi h F (A @ p # B)" and x: "nkey (mm_nodelist h) (mem h) x = 2 * n + 1"
    and A: "\<And>y. y \<in> set (A @ [p]) \<Longrightarrow> nkey (mm_nodelist h) (mem h) y \<le> 2 * n"
    and B: "\<And>y. y \<in> set B \<Longrightarrow> y \<in> heads (mm_nodelist h) \<Longrightarrow> 2 * n < nkey (mm_nodelist h) (mem h) y"
    and TD: "B = T @ D" "\<And>y. y \<in> set T \<Longrightarrow> mem h y \<noteq> 0 \<and> mem h y < n"
      "D \<noteq> [] \<Longrightarrow> \<not> (mem h (hd D) \<noteq> 0 \<and> mem h (hd D) < n)"
  shows "by_key (mm_nodelist h) (mem h) ((A @ p # T) @ x # D)"
proof -
  let ?k = "nkey (mm_nodelist h) (mem h)"
  note nodes = flist_as_nodes [OF L]
  have S: "y \<in> heads (mm_nodelist h) \<or> y \<in> F" if "y \<in> set B" for y
    using that flist_as_set [OF L] by auto
  have T: "?k y \<le> 2 * n + 1" if "y \<in> set T" for y
    using S [of y] nodes(4) [of y] nodes(5) [of y] TD(1) TD(2) [OF that] that by auto
  have D: "2 * n + 1 \<le> ?k y" if y: "y \<in> set D" for y
  proof -
    have "D \<noteq> []" using y by auto
    moreover from this have "hd D \<in> set B" using TD(1) by simp
    ultimately have "2 * n + 1 \<le> ?k (hd D)"
      using TD(3) S [of "hd D"] B [of "hd D"] nodes(4,5) [of "hd D"] by (auto simp: not_less)
    also have "?k (hd D) \<le> ?k y"
      using y flist_as_key [OF L] unfolding TD(1) by_key_def by (cases D) (auto simp: sorted_wrt_append)
    finally show ?thesis .
  qed
  have key: "by_key (mm_nodelist h) (mem h) ((A @ p # T) @ D)" using flist_as_key [OF L] TD(1) by simp
  show ?thesis
    unfolding by_key_def
    by (rule sorted_wrt_insert [OF key [unfolded by_key_def]]) (use A T D x in fastforce)+
qed

lemma mm_addfreechunk_post:
  assumes "flist lo hi h F" "x \<in> places lo hi" "x \<notin> F" "16 \<le> mem h x"
  obtains h' where "mm_addfreechunk x h = Some h'" "flist lo hi h' (insert x F)" "relinked (insert x F) h h'"
proof -
  let ?n = "mem h x" and ?nl = "mm_nodelist h"
  from assms(1) obtain L where L: "flist_as lo hi h F L" by (auto simp: flist_def)
  define p where "p = nodelist h (mm_size2ndx ?n)"
  obtain A B where AB: "L = A @ p # B"
    and A: "\<And>y. y \<in> set A \<Longrightarrow> nkey ?nl (mem h) y \<le> 2 * ?n" "nkey ?nl (mem h) p \<le> 2 * ?n"
    and B: "\<And>y. y \<in> set B \<Longrightarrow> y \<in> heads ?nl \<Longrightarrow> 2 * ?n < nkey ?nl (mem h) y"
    using flist_as_split [OF L assms(4)] unfolding p_def by metis
  note L = L [unfolded AB]
  note nodes = flist_as_nodes [OF L]
  define T where "T = takeWhile (\<lambda>y. mem h y \<noteq> 0 \<and> mem h y < ?n) B"
  define D where "D = dropWhile (\<lambda>y. mem h y \<noteq> 0 \<and> mem h y < ?n) B"
  have TD: "B = T @ D" by (simp add: T_def D_def)
  have D1: "D \<noteq> [] \<Longrightarrow> \<not> (mem h (hd D) \<noteq> 0 \<and> mem h (hd D) < ?n)"
    unfolding D_def by (rule hd_dropWhile)
  have T1: "y \<in> set T \<Longrightarrow> mem h y \<noteq> 0 \<and> mem h y < ?n" for y unfolding T_def by (rule set_takeWhileD [THEN conjunct2])
  define a where "a = last (A @ p # T)"
  define m where "m = (let m1 = (mem h)(a + 8 := x, x + 12 := a, x + 8 := fst0 0 D) in if D = [] then m1 else m1(hd D + 12 := x))"
  have xh: "x \<notin> heads ?nl"
    using heads_apart [OF assms(2), of x ?nl] L by (auto simp: flist_as_def)
  have seg: "fseg (mem h) 0 ((A @ p # T) @ D) 0" using flist_as_seg [OF L] TD by simp
  have "addfree_find h ?n p (nd_flink h p) = Some (a, fst0 0 D)"
    using addfree_find_walk [of h "lst0 0 A" p B ?n] flist_as_seg [OF L] nodes(1)
    by (simp add: a_def T_def D_def nd_flink_def)
  moreover have "(fst0 0 D = 0) = (D = [])" using nodes(1) TD by (cases D) auto
  ultimately have run: "mm_addfreechunk x h = Some (h\<lparr>mem := m\<rparr>)"
    by (cases D) (auto simp: mm_addfreechunk_def nd_size_def p_def [symmetric] nd_defs m_def Let_def)
  have S: "set ((A @ p # T) @ x # D) = heads ?nl \<union> insert x F"
    using flist_as_set [OF L] TD by auto
  have ap: "apart (set ((A @ p # T) @ x # D))"
    unfolding S by (rule apart_nodes) (use L assms(2) in \<open>auto simp: flist_as_def\<close>)
  have "x \<notin> set (A @ p # B)" using xh assms(3) flist_as_set [OF L] by blast
  then have d: "distinct ((A @ p # T) @ x # D)" using flist_as_distinct [OF L] TD by auto
  have a: "a \<in> heads ?nl \<union> insert x F" unfolding S [symmetric] a_def by (cases T) auto
  have hdD: "D \<noteq> [] \<Longrightarrow> hd D \<in> heads ?nl \<union> insert x F" unfolding S [symmetric] by simp
  have same: "m b = mem h b" if "\<And>y. y \<in> heads ?nl \<union> insert x F \<Longrightarrow> b \<noteq> y + 8 \<and> b \<noteq> y + 12" for b
    using that [OF a] that [OF hdD] that [of x] by (auto simp: m_def Let_def)
  have sz: "m b = mem h b" if "b \<in> heads ?nl \<union> insert x F" for b
  proof (rule same)
    fix y assume "y \<in> heads ?nl \<union> insert x F"
    then show "b \<noteq> y + 8 \<and> b \<noteq> y + 12"
      using apartD [OF ap [unfolded S], of b y] that by (cases "b = y") auto
  qed
  have kx: "nkey ?nl (mem h) x = 2 * ?n + 1" using xh by (simp add: nkey_def)
  have "by_key ?nl (mem h) ((A @ p # T) @ x # D)"
    by (rule addfree_order [OF L kx _ B TD T1 D1]) (use A in auto)
  moreover have "by_key ?nl m ((A @ p # T) @ x # D) = by_key ?nl (mem h) ((A @ p # T) @ x # D)"
    unfolding by_key_def by (rule sorted_wrt_map_cong, unfold S) (use sz in \<open>auto simp: nkey_def\<close>)
  moreover have "fseg m 0 ((A @ p # T) @ x # D) 0"
    by (rule fseg_insert [OF seg _ d ap m_def [unfolded a_def]]) simp
  ultimately have "flist_as lo hi (h\<lparr>mem := m\<rparr>) (insert x F) ((A @ p # T) @ x # D)"
    using L d S sz assms(2,4) by (auto simp: flist_as_def simp del: fseg_append set_append)
  moreover have "relinked (insert x F) h (h\<lparr>mem := m\<rparr>)" using same by (auto simp: relinked_def)
  ultimately show ?thesis using that run by (auto simp: flist_def)
qed

section \<open>The heap\<close>

text \<open>
  \<open>heap_as h cs F\<close>: heap \<open>h\<close> consists of the chunks \<open>cs\<close>, the first and the last of which are the guards, and
  the chunks at the addresses \<open>F\<close> are in the list. \<open>heap_ok\<close> is the invariant of the heap between the calls:
  exactly the free chunks are in the list and no two of them are neighbours.
\<close>

definition guarded :: "chunks \<Rightarrow> bool" where
  "guarded cs = (length cs \<ge> 2 \<and> hd cs = (16, True) \<and> last cs = (16, True))"

definition heap_as :: "mm_heap_s \<Rightarrow> chunks \<Rightarrow> addr set \<Rightarrow> bool" where
  "heap_as h cs F =
     (region (mem h) 0 (mm_heapstart h) cs \<and> gran cs \<and> guarded cs \<and> 16 dvd mm_heapstart h
      \<and> bytes cs < 2 ^ 31 \<and> mm_heapstart h + bytes cs < 2 ^ 32
      \<and> mm_heapend h + 16 = mm_heapstart h + bytes cs \<and> mm_heapsize h = bytes cs
      \<and> F \<subseteq> set (addrs (mm_heapstart h) cs)
      \<and> flist (mm_heapstart h) (mm_heapstart h + bytes cs) h F)"

definition heap_ok :: "mm_heap_s \<Rightarrow> chunks \<Rightarrow> bool" where
  "heap_ok h cs = (heap_as h cs (frees (mm_heapstart h) cs) \<and> merged cs)"

text \<open>The part of the state the invariant is about.\<close>

definition core :: "mm_heap_s \<Rightarrow> (addr \<Rightarrow> nat) \<times> addr \<times> addr \<times> addr \<times> nat" where
  "core h = (mem h, mm_nodelist h, mm_heapstart h, mm_heapend h, mm_heapsize h)"

lemma heap_as_cong: "core h' = core h \<Longrightarrow> heap_as h' cs F = heap_as h cs F"
  by (simp add: core_def heap_as_def flist_def flist_as_def)

lemma region_below:
  "gran cs \<Longrightarrow> (\<And>x. x < a + bytes cs \<Longrightarrow> m' x = m x) \<Longrightarrow> region m' p a cs = region m p a cs"
proof (induction m p a cs rule: region.induct)
  case (2 m p a n b cs)
  then have "region m' n (a + n) cs = region m n (a + n) cs" by (simp add: add.assoc)
  then show ?case using 2 by simp
qed simp

lemma region_above: "(\<And>x. a \<le> x \<Longrightarrow> m' x = m x) \<Longrightarrow> region m' p a cs = region m p a cs"
  by (induction m p a cs rule: region.induct) auto

lemma addrs_places: "gran cs \<Longrightarrow> 16 dvd a \<Longrightarrow> set (addrs a cs) \<subseteq> places a (a + bytes cs)"
  using addrs_bounds by (fastforce simp: places_def)

lemma dvd_gap: "16 dvd x \<Longrightarrow> 16 dvd y \<Longrightarrow> x < y \<Longrightarrow> x + 16 \<le> (y :: nat)"
  by (auto elim!: dvdE)

lemma gran_bytes: "gran cs \<Longrightarrow> 16 dvd bytes cs"
  by (induction cs) auto

lemma heap_as_apart:
  assumes "heap_as h cs F"
  shows "apart (heads (mm_nodelist h) \<union> places (mm_heapstart h) (mm_heapstart h + bytes cs))"
  using assms by (intro apart_nodes) (auto simp: heap_as_def flist_def flist_as_def)

text \<open>Changing links keeps the chunks and what the users stored.\<close>

lemma relinked_same:
  assumes "heap_as h cs F" "relinked F' h h'" "F' \<subseteq> set (addrs (mm_heapstart h) cs)"
  shows "region (mem h') 0 (mm_heapstart h) cs" "a \<in> live (mm_heapstart h) cs \<Longrightarrow> mem h' a = mem h a"
    "mm_heapstart h' = mm_heapstart h" "mm_heapend h' = mm_heapend h" "mm_heapsize h' = mm_heapsize h"
    "total_alloc_size h' = total_alloc_size h"
proof -
  let ?lo = "mm_heapstart h" and ?nl = "mm_nodelist h"
  note H = assms(1) [unfolded heap_as_def]
  have pl: "set (addrs ?lo cs) \<subseteq> places ?lo (?lo + bytes cs)" using H addrs_places by blast
  have rl: "mem h' a = mem h a" if "\<And>y. y \<in> heads ?nl \<union> F' \<Longrightarrow> a \<noteq> y + 8 \<and> a \<noteq> y + 12" for a
    using assms(2) that unfolding relinked_def by blast
  have "mem h' x = mem h x \<and> mem h' (x + 4) = mem h (x + 4)" if x: "x \<in> set (addrs ?lo cs)" for x
  proof -
    have "x \<noteq> y + 8 \<and> x \<noteq> y + 12 \<and> x + 4 \<noteq> y + 8 \<and> x + 4 \<noteq> y + 12" if "y \<in> heads ?nl \<union> F'" for y
    proof (cases "x = y")
      case False
      have "x + 16 \<le> y \<or> y + 16 \<le> x"
        by (rule apartD [OF heap_as_apart [OF assms(1)] _ _ False]) (use x pl that assms(3) in blast)+
      then show ?thesis by linarith
    qed simp
    then show ?thesis using rl [of x] rl [of "x + 4"] by blast
  qed
  then show "region (mem h') 0 ?lo cs" using H region_frame by blast
  show "mem h' a = mem h a" if a: "a \<in> live ?lo cs"
  proof (rule rl)
    fix y assume "y \<in> heads ?nl \<union> F'"
    then consider "y \<in> heads ?nl" | "y \<in> set (addrs ?lo cs)" using assms(3) by blast
    then show "a \<noteq> y + 8 \<and> a \<noteq> y + 12"
    proof cases
      case 1
      have "?nl + 304 \<le> ?lo \<or> ?lo + bytes cs \<le> ?nl" using H by (simp add: flist_def flist_as_def)
      then show ?thesis using live_bounds [OF a] heads_bounds [OF 1] by linarith
    next
      case 2
      have "a < y \<or> y + 16 \<le> a" using live_addrs [OF _ _ a 2] H by blast
      then show ?thesis by linarith
    qed
  qed
  obtain m' where h': "h' = h\<lparr>mem := m'\<rparr>" using assms(2) unfolding relinked_def by blast
  show "mm_heapstart h' = mm_heapstart h" "mm_heapend h' = mm_heapend h" "mm_heapsize h' = mm_heapsize h"
    "total_alloc_size h' = total_alloc_size h"
    by (simp_all add: h')
qed

lemma heap_as_unlink:
  assumes "heap_as h cs F" "x \<in> F"
  obtains h' where "mm_unlink x h = Some h'" "heap_as h' cs (F - {x})" "relinked F h h'"
proof -
  note H = assms(1) [unfolded heap_as_def]
  obtain h' where h': "mm_unlink x h = Some h'"
    "flist (mm_heapstart h) (mm_heapstart h + bytes cs) h' (F - {x})" "relinked F h h'"
    using mm_unlink_post assms(2) H by metis
  have "heap_as h' cs (F - {x})"
    using H h'(2) relinked_same [OF assms(1) h'(3)] unfolding heap_as_def by auto
  with h' that show ?thesis by blast
qed

lemma heap_as_add:
  assumes "heap_as h cs F" "x \<in> set (addrs (mm_heapstart h) cs)" "x \<notin> F"
  obtains h' where "mm_addfreechunk x h = Some h'" "heap_as h' cs (insert x F)" "relinked (insert x F) h h'"
proof -
  note H = assms(1) [unfolded heap_as_def]
  have "16 \<le> mem h x" using region_sizes assms(2) H by blast
  moreover have "x \<in> places (mm_heapstart h) (mm_heapstart h + bytes cs)" using addrs_places assms(2) H by blast
  ultimately obtain h' where h': "mm_addfreechunk x h = Some h'"
    "flist (mm_heapstart h) (mm_heapstart h + bytes cs) h' (insert x F)" "relinked (insert x F) h h'"
    using mm_addfreechunk_post assms(3) H by metis
  have "insert x F \<subseteq> set (addrs (mm_heapstart h) cs)" using assms(2) H by blast
  then have "heap_as h' cs (insert x F)"
    using H h'(2) relinked_same [OF assms(1) h'(3)] unfolding heap_as_def by auto
  with h' that show ?thesis by blast
qed

text \<open>
  Replacing the chunks \<open>old\<close> by others of the same total size, where the memory changes inside them and in the
  flagged size in the header behind them.
\<close>

lemma heap_as_replace:
  assumes H: "heap_as h (xs @ old @ (n, b) # ys) F" and xs: "xs \<noteq> []"
    and node: "node = mm_heapstart h + bytes xs" and nxt: "nxt = node + bytes old"
    and new: "region m (lastsz 0 xs) node new" "bytes new = bytes old" "gran new"
      "m (nxt + 4) = flagged b (lastsz (lastsz 0 xs) new)"
    and same: "\<And>a. a < node \<or> nxt \<le> a \<Longrightarrow> a \<noteq> nxt + 4 \<Longrightarrow> m a = mem h a"
    and F: "\<And>x. x \<in> F \<Longrightarrow> x < node \<or> nxt \<le> x"
    and h': "core h' = core (h\<lparr>mem := m\<rparr>)"
  shows "heap_as h' (xs @ new @ (n, b) # ys) F"
proof -
  let ?lo = "mm_heapstart h" and ?cs = "xs @ old @ (n, b) # ys" and ?cs' = "xs @ new @ (n, b) # ys"
  note HA = H [unfolded heap_as_def]
  have g: "gran xs" "gran old" "gran ys" "16 \<le> n" "16 dvd n" "16 dvd ?lo" using HA by auto
  have dvd: "16 dvd node" "16 dvd nxt" using g gran_bytes by (auto simp: node nxt)
  have R: "region (mem h) 0 ?lo xs" "region (mem h) (lastsz (lastsz 0 xs) old) nxt ((n, b) # ys)"
    using HA by (simp_all add: node nxt add.assoc)
  have lower: "m x = mem h x" if "x < node" for x using same [of x] that by (simp add: nxt)
  have upper: "m x = mem h x" if "nxt + 8 \<le> x" for x using same [of x] that by simp
  have "region m 0 ?lo xs" using R(1) region_below [OF g(1), of ?lo m "mem h"] lower by (simp add: node)
  moreover have "region m n (nxt + n) ys" using R(2) region_above [of "nxt + n" m "mem h"] upper g(4) by simp
  ultimately have reg: "region m 0 ?lo ?cs'"
    using new R(2) same [of nxt] by (simp add: node [symmetric] nxt add.assoc)
  have pl: "F \<subseteq> places ?lo (?lo + bytes ?cs)" using HA addrs_places [of ?cs ?lo] by blast
  have keep: "m x = mem h x \<and> m (x + 8) = mem h (x + 8) \<and> m (x + 12) = mem h (x + 12)"
    if x: "x \<in> heads (mm_nodelist h) \<union> F" for x
  proof (cases "x \<in> F")
    case True
    then have "16 dvd x" using pl by (auto simp: places_def)
    then have "x + 16 \<le> node \<or> x = nxt \<or> nxt + 16 \<le> x"
      using F [OF True] dvd_gap [of x node] dvd_gap [of nxt x] dvd by linarith
    then show ?thesis using lower upper same [of nxt] by auto
  next
    case False
    with x have hx: "x \<in> heads (mm_nodelist h)" by simp
    have "mm_nodelist h + 304 \<le> ?lo \<or> ?lo + bytes ?cs \<le> mm_nodelist h"
      using HA by (simp add: flist_def flist_as_def)
    then have "x + 16 \<le> node \<or> nxt + 16 \<le> x" using heads_bounds [OF hx] g(4) by (auto simp: node nxt)
    then show ?thesis using lower upper by auto
  qed
  have "flist ?lo (?lo + bytes ?cs) (h\<lparr>mem := m\<rparr>) F"
    using HA keep flist_as_frame [of ?lo _ h F _ "h\<lparr>mem := m\<rparr>"] unfolding flist_def by fastforce
  moreover have "F \<subseteq> set (addrs ?lo ?cs')"
  proof
    fix x assume x: "x \<in> F"
    then have "x \<in> set (addrs ?lo ?cs)" using HA by blast
    moreover have "x \<notin> set (addrs node old)" using F [OF x] addrs_bounds [OF g(2) dvd(1)] by (fastforce simp: nxt)
    ultimately show "x \<in> set (addrs ?lo ?cs')" using new(2) by (auto simp: node [symmetric])
  qed
  moreover have "guarded ?cs" using HA by blast
  then have "guarded ?cs'" using xs by (cases xs) (auto simp: guarded_def)
  ultimately have "heap_as (h\<lparr>mem := m\<rparr>) ?cs' F" using HA reg new(2,3) by (simp add: heap_as_def)
  then show ?thesis using heap_as_cong [OF h'] by simp
qed

end
