(* ===== verification/Mm_Spec.thy ===== *)
theory Mm_Spec
  imports Mm_Inv
begin

text \<open>
  What the operations of the memory manager do to the chunks: allocation and release.
\<close>

section \<open>Finding chunks\<close>

lemma frees_split:
  "x \<in> frees a cs \<Longrightarrow> \<exists>xs n ys. cs = xs @ (n, False) # ys \<and> x = a + bytes xs"
proof (induction a cs rule: frees.induct)
  case (2 a n b cs)
  show ?case
  proof (cases "\<not> b \<and> x = a")
    case True
    then show ?thesis by (intro exI [of _ "[]"]) simp
  next
    case False
    with 2(3) have "x \<in> frees (a + n) cs" by (auto split: if_splits)
    then obtain xs k ys where "cs = xs @ (k, False) # ys" "x = a + n + bytes xs"
      using 2(1,2) by (cases b) auto
    then show ?thesis by (intro exI [of _ "(n, b) # xs"]) simp
  qed
qed simp

lemma frees_sizes: "region m p a cs \<Longrightarrow> (n, False) \<in> set cs \<Longrightarrow> \<exists>x \<in> frees a cs. m x = n"
  by (induction m p a cs rule: region.induct) (auto split: if_splits)

lemma frees_all:
  assumes "region m p a cs" "\<forall>x \<in> frees a cs. P (m x)"
  shows "\<forall>(k, b) \<in> set cs. b \<or> P k"
proof clarify
  fix k b assume "(k, b) \<in> set cs" "\<not> P k"
  then show b using frees_sizes [OF assms(1), of k] assms(2) by (cases b) auto
qed

lemma frees_le: "x \<in> frees a cs \<Longrightarrow> a \<le> x"
  using frees_split by fastforce

lemma frees_lt: "gran cs \<Longrightarrow> x \<in> frees a cs \<Longrightarrow> x < a + bytes cs"
  using frees_split [of x a cs] by fastforce

text \<open>A chunk is in the middle when it is neither the first nor the last.\<close>

lemma guarded_middle:
  assumes "guarded (xs @ (n, False) # ys)"
  shows "xs \<noteq> []" "ys \<noteq> []" "snd (hd xs)" "snd (last ys)"
  using assms by (auto simp: guarded_def hd_append split: if_splits)

section \<open>Statistics\<close>

lemma heapinfo_core [simp]:
  "core (heapinfo_add_size c p n h) = core h" "core (heapinfo_subtract_size c p n h) = core h"
  "core (heapinfo_update_total_size i h) = core h"
  by (simp_all add: core_def heapinfo_add_size_def heapinfo_subtract_size_def heapinfo_update_total_size_def
      Let_def split: option.split)

lemma heapinfo_total [simp]:
  "total_alloc_size (heapinfo_add_size c p n h) = total_alloc_size h"
  "total_alloc_size (heapinfo_subtract_size c p n h) = total_alloc_size h"
  "total_alloc_size (heapinfo_update_total_size i h) = total_alloc_size h + i"
  by (simp_all add: heapinfo_add_size_def heapinfo_subtract_size_def heapinfo_update_total_size_def
      Let_def split: option.split)

lemma core_fields:
  assumes "core h' = core h"
  shows "mem h' = mem h" "mm_nodelist h' = mm_nodelist h" "mm_heapstart h' = mm_heapstart h"
    "mm_heapend h' = mm_heapend h" "mm_heapsize h' = mm_heapsize h"
  using assms by (simp_all add: core_def)

lemma heapinfo_mem [simp]:
  "mem (heapinfo_add_size c p n h) = mem h" "mem (heapinfo_subtract_size c p n h) = mem h"
  "mem (heapinfo_update_total_size i h) = mem h"
  "mm_heapstart (heapinfo_add_size c p n h) = mm_heapstart h"
  "mm_heapstart (heapinfo_subtract_size c p n h) = mm_heapstart h"
  "mm_heapstart (heapinfo_update_total_size i h) = mm_heapstart h"
  using core_fields heapinfo_core by metis+

section \<open>Steps\<close>

text \<open>What a step leaves alone: the words \<open>A\<close>, the start of the region and the sum of the allocated sizes.\<close>

definition kept :: "addr set \<Rightarrow> mm_heap_s \<Rightarrow> mm_heap_s \<Rightarrow> bool" where
  "kept A h h' = ((\<forall>a \<in> A. mem h' a = mem h a) \<and> mm_heapstart h' = mm_heapstart h
     \<and> mm_nodelist h' = mm_nodelist h \<and> total_alloc_size h' = total_alloc_size h)"

lemma kept_trans: "kept A h h1 \<Longrightarrow> kept A h1 h2 \<Longrightarrow> kept A h h2"
  and kept_mono: "kept A h h' \<Longrightarrow> B \<subseteq> A \<Longrightarrow> kept B h h'"
  by (auto simp: kept_def)

lemma keptD: "kept A h h' \<Longrightarrow> a \<in> A \<Longrightarrow> mem h' a = mem h a"
  and kept_start: "kept A h h' \<Longrightarrow> mm_heapstart h' = mm_heapstart h"
  and kept_total: "kept A h h' \<Longrightarrow> total_alloc_size h' = total_alloc_size h"
  by (simp_all add: kept_def)

lemma kept_relinked:
  assumes "heap_as h cs F" "relinked F' h h'" "F' \<subseteq> set (addrs (mm_heapstart h) cs)"
  shows "kept (live (mm_heapstart h) cs) h h'"
proof -
  obtain m' where "h' = h\<lparr>mem := m'\<rparr>" using assms(2) unfolding relinked_def by blast
  then show ?thesis using relinked_same(2) [OF assms] by (simp add: kept_def)
qed

lemma heap_as_gap:
  assumes "heap_as h (xs @ old @ rest) F" "x \<in> F" "node = mm_heapstart h + bytes xs"
  shows "x + 16 \<le> node \<or> x \<in> set (addrs node old) \<or> node + bytes old \<le> x"
proof -
  note HA = assms(1) [unfolded heap_as_def]
  have "16 dvd node" "16 dvd node + bytes old" using HA gran_bytes by (auto simp: assms(3))
  moreover have "x \<in> set (addrs (mm_heapstart h) xs) \<or> x \<in> set (addrs node old) \<or> x \<in> set (addrs (node + bytes old) rest)"
    using HA assms(2,3) by auto
  ultimately show ?thesis
    using addrs_bounds [of xs "mm_heapstart h" x] addrs_bounds [of rest "node + bytes old" x] HA assms(3) by auto
qed

text \<open>Rewriting the headers of a run of chunks.\<close>

lemma heap_as_rewrite:
  assumes H: "heap_as h (xs @ old @ (n, b) # ys) F" and xs: "xs \<noteq> []"
    and node: "node = mm_heapstart h + bytes xs" and nxt: "nxt = node + bytes old"
    and new: "region (mem h') (lastsz 0 xs) node new" "bytes new = bytes old" "gran new"
      "mem h' (nxt + 4) = flagged b (lastsz (lastsz 0 xs) new)"
    and same: "\<And>a. a < node \<or> nxt \<le> a \<Longrightarrow> a \<noteq> nxt + 4 \<Longrightarrow> mem h' a = mem h a"
    and F: "F \<inter> set (addrs node old) = {}"
    and h': "h' = h\<lparr>mem := mem h'\<rparr>"
  shows "heap_as h' (xs @ new @ (n, b) # ys) F"
proof -
  have "x < node \<or> nxt \<le> x" if "x \<in> F" for x
    using heap_as_gap [OF H that node] F that by (auto simp: nxt)
  then show ?thesis
    using heap_as_replace [OF H xs node nxt new same, where h' = h'] h' by metis
qed

lemma kept_headers:
  assumes H: "heap_as h' cs F" and h': "h' = h\<lparr>mem := mem h'\<rparr>"
    and N: "N \<subseteq> set (addrs (mm_heapstart h) cs)"
    and same: "\<And>a. (\<And>y. y \<in> N \<Longrightarrow> a < y \<or> y + 16 \<le> a) \<Longrightarrow> mem h' a = mem h a"
  shows "kept (live (mm_heapstart h) cs) h h'"
proof -
  obtain m' where m': "h' = h\<lparr>mem := m'\<rparr>" using h' by blast
  have "mem h' a = mem h a" if "a \<in> live (mm_heapstart h) cs" for a
    by (rule same) (use live_addrs [OF _ _ that] H m' N in \<open>auto simp: heap_as_def\<close>)
  then show ?thesis by (simp add: kept_def m')
qed

lemma heap_as_headers:
  assumes "heap_as h (xs @ (k, f) # (n, b) # ys) F" "node = mm_heapstart h + bytes xs"
  shows "mem h node = k" "mem h (node + 4) = flagged f (lastsz 0 xs)" "mem h (node + k) = n"
    "mem h (node + k + 4) = flagged b k" "16 dvd k" "16 \<le> k" "16 \<le> n" "16 dvd n" "gran xs" "gran ys" "k < 2 ^ 31" "n < 2 ^ 31"
    "16 dvd mm_heapstart h" "16 dvd node" "node + k + n < 2 ^ 32" "0 < node"
proof -
  note HA = assms(1) [unfolded heap_as_def]
  have "0 < mm_heapstart h" using HA by (simp add: flist_def flist_as_def)
  then show "0 < node" by (simp add: assms(2))
  show "mem h node = k" "mem h (node + 4) = flagged f (lastsz 0 xs)" "mem h (node + k) = n"
    "mem h (node + k + 4) = flagged b k" "16 dvd k" "16 \<le> k" "16 \<le> n" "16 dvd n" "gran xs" "gran ys" "k < 2 ^ 31" "n < 2 ^ 31"
    "16 dvd mm_heapstart h" "node + k + n < 2 ^ 32"
    using HA by (simp_all add: assms(2) add.assoc)
  show "16 dvd node" using HA gran_bytes by (simp add: assms(2))
qed

lemma alloc_pos [simp]: "0 < MM_ALLOC_BIT"
  by (simp add: MM_ALLOC_BIT_def)

lemma flagged_False [simp]: "flagged False n = n"
  by (simp add: flagged_def)

text \<open>The owner of an allocated chunk is stored where a free chunk has its links.\<close>

lemma heap_as_owner:
  assumes H: "heap_as h (xs @ (k, True) # (n, b) # ys) F" and xs: "xs \<noteq> []"
    and node: "node = mm_heapstart h + bytes xs" "node \<notin> F"
  shows "heap_as (heapinfo_update_node c node ra h) (xs @ (k, True) # (n, b) # ys) F"
    "kept (live (mm_heapstart h) (xs @ (k, True) # (n, b) # ys)) h (heapinfo_update_node c node ra h)"
proof -
  let ?h = "heapinfo_update_node c node ra h"
  note hd = heap_as_headers [OF H node(1)]
  have H': "heap_as h (xs @ [(k, True)] @ (n, b) # ys) F" using H by simp
  have "heap_as ?h (xs @ [(k, True)] @ (n, b) # ys) F"
    by (rule heap_as_rewrite [OF H' xs node(1) refl])
      (use hd node(2) in \<open>auto simp: heapinfo_update_node_def store_def\<close>)
  then show K: "heap_as ?h (xs @ (k, True) # (n, b) # ys) F" by simp
  have "mem ?h a = mem h a" if "a < node \<or> node + 16 \<le> a" for a
    using that by (auto simp: heapinfo_update_node_def store_def)
  then show "kept (live (mm_heapstart h) (xs @ (k, True) # (n, b) # ys)) h ?h"
    by (intro kept_headers [OF K, where N = "{node}"]) (auto simp: node heapinfo_update_node_def store_def)
qed

text \<open>Setting and clearing the allocation flag.\<close>

lemma heap_as_flag:
  assumes H: "heap_as h (xs @ (k, f) # (n, b) # ys) F" and xs: "xs \<noteq> []"
    and node: "node = mm_heapstart h + bytes xs" "node \<notin> F"
    and w: "w = flagged g (lastsz 0 xs)"
  shows "heap_as (set_preceding node w h) (xs @ (k, g) # (n, b) # ys) F"
    "kept (live (mm_heapstart h) (xs @ (k, g) # (n, b) # ys)) h (set_preceding node w h)"
proof -
  let ?h = "set_preceding node w h"
  note hd = heap_as_headers [OF H node(1)]
  have H': "heap_as h (xs @ [(k, f)] @ (n, b) # ys) F" using H by simp
  have "heap_as ?h (xs @ [(k, g)] @ (n, b) # ys) F"
    by (rule heap_as_rewrite [OF H' xs node(1) refl]) (use hd node(2) w in \<open>auto simp: nd_defs\<close>)
  then show K: "heap_as ?h (xs @ (k, g) # (n, b) # ys) F" by simp
  have "mem ?h a = mem h a" if "a < node \<or> node + 16 \<le> a" for a
    using that by (auto simp: nd_defs)
  then show "kept (live (mm_heapstart h) (xs @ (k, g) # (n, b) # ys)) h ?h"
    by (intro kept_headers [OF K, where N = "{node}"]) (auto simp: node nd_defs)
qed

lemma lastsz_le: "gran cs \<Longrightarrow> lastsz p cs \<le> max p (bytes cs)"
  by (induction p cs rule: lastsz.induct) fastforce+

lemma heap_as_lastsz: "heap_as h (xs @ ys) F \<Longrightarrow> lastsz 0 xs < 2 ^ 31"
  using lastsz_le [of xs 0] by (simp add: heap_as_def)

text \<open>Cutting a chunk that is not in the list in two, the rear part of which becomes a free chunk.\<close>

definition cutchunk :: "addr \<Rightarrow> nat \<Rightarrow> nat \<Rightarrow> mm_heap_s \<Rightarrow> mm_heap_s" where
  "cutchunk node k n h =
     (let h = set_size (node + n) (k - n) h;
          h = set_preceding (node + n) n h;
          h = set_size node n h
      in set_preceding (node + k) ((k - n) OR (preceding h (node + k) AND MM_ALLOC_BIT)) h)"

lemma heap_as_cut_run:
  assumes H: "heap_as h (xs @ (k1, f) # rs @ (n2, b) # ys) F" and xs: "xs \<noteq> []" and k: "k = k1 + bytes rs"
    and node: "node = mm_heapstart h + bytes xs" and F: "F \<inter> set (addrs node ((k1, f) # rs)) = {}"
    and n: "16 dvd n" "16 \<le> n" "n < k"
  obtains h' where "mm_addfreechunk (node + n) (cutchunk node k n h) = Some h'"
    "heap_as h' (xs @ (n, f) # (k - n, False) # (n2, b) # ys) (insert (node + n) F)"
    "kept (live (mm_heapstart h) (xs @ (n, f) # (k - n, False) # (n2, b) # ys)) h h'"
proof -
  let ?h = "cutchunk node k n h" and ?cs = "xs @ [(n, f), (k - n, False)] @ (n2, b) # ys"
  have H': "heap_as h (xs @ ((k1, f) # rs) @ (n2, b) # ys) F" using H by simp
  note HA = H' [unfolded heap_as_def]
  have hd: "mem h (node + 4) = flagged f (lastsz 0 xs)" "mem h (node + k + 4) = flagged b (lastsz k1 rs)"
    "mem h (node + k) = n2" "16 dvd k" "lastsz k1 rs < 2 ^ 31"
    using HA gran_bytes [of rs] lastsz_le [of rs k1] by (auto simp: node k add.assoc)
  have r: "16 dvd k - n" "n + 16 \<le> k" using n hd dvd_gap [of n k] by auto
  have h1: "heap_as ?h ?cs F"
    by (rule heap_as_rewrite [OF H' xs node, of "node + k"])
      (use hd F n r k in \<open>auto simp: cutchunk_def nd_defs Let_def flag_keep\<close>)
  have same: "mem ?h a = mem h a" if "a < node \<or> node + 16 \<le> a" "a < node + n \<or> node + n + 16 \<le> a"
      "a < node + k \<or> node + k + 16 \<le> a" for a
    using that by (auto simp: cutchunk_def nd_defs Let_def)
  have kk: "kept (live (mm_heapstart h) ?cs) h ?h"
  proof (rule kept_headers [OF h1, where N = "{node, node + n, node + k}"])
    show "{node, node + n, node + k} \<subseteq> set (addrs (mm_heapstart h) ?cs)" using r by (simp add: node add.assoc)
    show "?h = h\<lparr>mem := mem ?h\<rparr>" by (simp add: cutchunk_def nd_defs Let_def)
  qed (rule same; blast)
  have lo: "mm_heapstart ?h = mm_heapstart h" by (rule kept_start [OF kk])
  have "node + n \<notin> F"
    using heap_as_gap [OF H' _ node, of "node + n"] F n k by auto
  moreover have nn: "node + n \<in> set (addrs (mm_heapstart ?h) ?cs)" unfolding lo by (simp add: node)
  ultimately obtain h' where h': "mm_addfreechunk (node + n) ?h = Some h'"
    "heap_as h' ?cs (insert (node + n) F)" "relinked (insert (node + n) F) ?h h'"
    using heap_as_add [OF h1] by metis
  have "insert (node + n) F \<subseteq> set (addrs (mm_heapstart ?h) ?cs)" using nn h1 unfolding heap_as_def by blast
  then have "kept (live (mm_heapstart h) ?cs) ?h h'" using kept_relinked [OF h1 h'(3)] lo by simp
  then have "kept (live (mm_heapstart h) ?cs) h h'" using kk kept_trans by blast
  with that h' show ?thesis by simp
qed

lemma heap_as_cut:
  assumes "heap_as h (xs @ (k, f) # (n2, b) # ys) F" "xs \<noteq> []" "node = mm_heapstart h + bytes xs" "node \<notin> F"
    "16 dvd n" "16 \<le> n" "n < k"
  obtains h' where "mm_addfreechunk (node + n) (cutchunk node k n h) = Some h'"
    "heap_as h' (xs @ (n, f) # (k - n, False) # (n2, b) # ys) (insert (node + n) F)"
    "kept (live (mm_heapstart h) (xs @ (n, f) # (k - n, False) # (n2, b) # ys)) h h'"
  by (rule heap_as_cut_run [of h xs k f "[]" n2 b ys F k node n]) (use assms that in simp_all)

section \<open>Allocation\<close>

text \<open>What becomes of a free chunk of size \<open>k\<close> when \<open>n\<close> bytes of it are allocated.\<close>

definition taken :: "nat \<Rightarrow> nat \<Rightarrow> chunks" where
  "taken n k = (if n = k then [(k, True)] else [(n, True), (k - n, False)])"

lemma bytes_taken [simp]: "n \<le> k \<Longrightarrow> bytes (taken n k) = k"
  by (simp add: taken_def)

lemma heap_as_frees:
  assumes H: "heap_as h (xs @ old @ ys) F"
  shows "frees (mm_heapstart h) xs \<inter> {mm_heapstart h + bytes xs ..} = {}"
    "frees (mm_heapstart h + bytes xs + bytes old) ys \<inter> {..< mm_heapstart h + bytes xs + bytes old} = {}"
  using H frees_lt [of xs _ "mm_heapstart h"] frees_le by (fastforce simp: heap_as_def)+

lemma heap_ok_region: "heap_ok h cs \<Longrightarrow> region (mem h) 0 (mm_heapstart h) cs"
  by (simp add: heap_ok_def heap_as_def)

text \<open>Marking a chunk as allocated and recording its owner, the last steps of an allocation.\<close>

lemma heap_as_claim:
  assumes H: "heap_as h (xs @ (k, True) # (n, b) # ys) F" and xs: "xs \<noteq> []"
    and node: "node = mm_heapstart h + bytes xs" "node \<notin> F"
  shows "heap_as (heapinfo_claim c node ra h) (xs @ (k, True) # (n, b) # ys) F"
    "\<forall>a \<in> live (mm_heapstart h) (xs @ (k, True) # (n, b) # ys). mem (heapinfo_claim c node ra h) a = mem h a"
    "mm_heapstart (heapinfo_claim c node ra h) = mm_heapstart h"
    "total_alloc_size (heapinfo_claim c node ra h) = total_alloc_size h + int k"
proof -
  let ?h1 = "heapinfo_update_node c node ra h" and ?h = "heapinfo_claim c node ra h"
  note O = heap_as_owner [OF H xs node]
  have "mem ?h1 node = k" using heap_as_headers(1) [OF O(1)] O(2) node(1) by (simp add: kept_def)
  then have core: "core ?h = core ?h1" "total_alloc_size ?h = total_alloc_size ?h1 + int k"
    by (simp_all add: heapinfo_claim_def Let_def nd_size_def)
  show "heap_as ?h (xs @ (k, True) # (n, b) # ys) F" using O(1) heap_as_cong [OF core(1)] by simp
  show "\<forall>a \<in> live (mm_heapstart h) (xs @ (k, True) # (n, b) # ys). mem ?h a = mem h a"
    "mm_heapstart ?h = mm_heapstart h" "total_alloc_size ?h = total_alloc_size h + int k"
    using O(2) core_fields [OF core(1)] core(2) by (simp_all add: kept_def)
qed

lemma malloc_split_cut:
  assumes "mem h node = k" "n \<le> k" "k < 2 ^ 32"
  shows "malloc_split node n (sub32 (nd_size h node) n) h = mm_addfreechunk (node + n) (cutchunk node k n h)"
  using assms by (simp add: malloc_split_def cutchunk_def nd_size_def sub32_le Let_def)

text \<open>The part of \<open>mm_malloc\<close> behind the removal of the chunk from the list.\<close>

lemma malloc_finish:
  assumes H: "heap_as h (xs @ (k, False) # (n2, b) # ys) (frees (mm_heapstart h) (xs @ (k, False) # (n2, b) # ys) - {node})"
    and xs: "xs \<noteq> []" and node: "node = mm_heapstart h + bytes xs"
    and n: "16 dvd n" "16 \<le> n" "n \<le> k"
  obtains h2 h' where
    "(if SIZEOF_MM_FREENODE \<le> sub32 (nd_size h node) n then malloc_split node n (sub32 (nd_size h node) n) h else Some h) = Some h2"
    "heapinfo_claim c node ra (set_preceding node (preceding h2 node OR MM_ALLOC_BIT) h2) = h'"
    "heap_as h' (xs @ taken n k @ (n2, b) # ys) (frees (mm_heapstart h) (xs @ taken n k @ (n2, b) # ys))"
    "\<forall>a \<in> live (mm_heapstart h) (xs @ (k, False) # (n2, b) # ys). mem h' a = mem h a"
    "mm_heapstart h' = mm_heapstart h" "total_alloc_size h' = total_alloc_size h + int (fst (hd (taken n k)))"
proof -
  let ?lo = "mm_heapstart h"
  define j where "j = fst (hd (taken n k))"
  obtain n3 b3 zs where zs: "tl (taken n k) @ (n2, b) # ys = (n3, b3) # zs" by (cases "n = k") (auto simp: taken_def)
  have tk: "taken n k @ (n2, b) # ys = (j, True) # (n3, b3) # zs"
    using zs by (auto simp: j_def taken_def split: if_splits)
  let ?F = "frees ?lo (xs @ (j, True) # (n3, b3) # zs)" and ?G = "frees ?lo (xs @ (k, False) # (n2, b) # ys) - {node}"
  let ?cs = "xs @ (j, False) # (n3, b3) # zs"
  have shape: "n = k \<and> j = k \<and> (n3, b3) # zs = (n2, b) # ys \<or> n < k \<and> j = n \<and> (n3, b3) # zs = (k - n, False) # (n2, b) # ys"
    using n(3) zs by (auto simp: j_def taken_def split: if_splits)
  note hd = heap_as_headers [OF H node]
  have H0: "heap_as h (xs @ [(k, False)] @ (n2, b) # ys) ?G" using H by simp
  note fr = heap_as_frees [OF H0]
  have nx: "node \<notin> frees ?lo xs" "node \<notin> frees (node + k) ((n2, b) # ys)"
    using fr hd(6) by (auto simp: node)
  have G: "?G = frees ?lo xs \<union> frees (node + k) ((n2, b) # ys)"
    using nx by (simp add: node [symmetric] del: frees.simps(2)) auto
  have F: "?F = (if n < k then insert (node + n) ?G else ?G)"
    using shape unfolding G by (auto simp: node [symmetric])
  have nF: "node \<notin> ?F" unfolding F G using nx n(2) by auto
  have lv: "live ?lo (xs @ (k, False) # (n2, b) # ys) = live ?lo ?cs"
    using shape by (elim disjE) (simp_all add: add.assoc)
  obtain h2 where h2: "(if SIZEOF_MM_FREENODE \<le> sub32 (nd_size h node) n then malloc_split node n (sub32 (nd_size h node) n) h else Some h) = Some h2"
    "heap_as h2 ?cs ?F" "kept (live ?lo ?cs) h h2"
  proof (cases "n = k")
    case True
    then have "sub32 (nd_size h node) n = 0" using hd(1,11) by (simp add: nd_size_def sub32_le)
    then show ?thesis using that [of h] H F True shape by (auto simp: mm_consts kept_def)
  next
    case False
    then have nk: "n < k" using n(3) by simp
    then have r: "n + 16 \<le> k" using dvd_gap [OF n(1) hd(5)] by simp
    obtain h2 where h2: "mm_addfreechunk (node + n) (cutchunk node k n h) = Some h2"
      "heap_as h2 (xs @ (n, False) # (k - n, False) # (n2, b) # ys) (insert (node + n) ?G)"
      "kept (live ?lo (xs @ (n, False) # (k - n, False) # (n2, b) # ys)) h h2"
      using heap_as_cut [OF H xs node _ n(1,2) nk] by blast
    moreover have "SIZEOF_MM_FREENODE \<le> sub32 (nd_size h node) n"
      using r hd(1,11) by (simp add: nd_size_def sub32_le mm_consts)
    moreover have "malloc_split node n (sub32 (nd_size h node) n) h = Some h2"
      using malloc_split_cut [OF hd(1) n(3)] hd(11) h2(1) by simp
    ultimately show ?thesis using that [of h2] F nk shape False by auto
  qed
  have e2: "mm_heapstart h2 = ?lo" by (rule kept_start [OF h2(3)])
  then have nd2: "node = mm_heapstart h2 + bytes xs" using node by simp
  let ?h3 = "set_preceding node (preceding h2 node OR MM_ALLOC_BIT) h2"
  have "preceding h2 node OR MM_ALLOC_BIT = flagged True (lastsz 0 xs)"
    using heap_as_headers(2) [OF h2(2) nd2] flag_or [of False] by (simp add: preceding_def)
  note h3 = heap_as_flag [OF h2(2) xs nd2 nF this]
  have e3: "mm_heapstart ?h3 = mm_heapstart h2" by (rule kept_start [OF h3(2)])
  then have nd3: "node = mm_heapstart ?h3 + bytes xs" using nd2 by simp
  note h4 = heap_as_claim [OF h3(1) xs nd3 nF, of c ra]
  show ?thesis
  proof (rule that [OF h2(1) refl])
    show "heap_as (heapinfo_claim c node ra ?h3) (xs @ taken n k @ (n2, b) # ys) (frees ?lo (xs @ taken n k @ (n2, b) # ys))"
      using h4(1) tk by simp
    show "\<forall>a \<in> live ?lo (xs @ (k, False) # (n2, b) # ys). mem (heapinfo_claim c node ra ?h3) a = mem h a"
      unfolding lv
    proof
      fix a assume a: "a \<in> live ?lo ?cs"
      then have "mem h2 a = mem h a" by (rule keptD [OF h2(3)])
      moreover have a': "a \<in> live ?lo (xs @ (j, True) # (n3, b3) # zs)" using a by auto
      then have "mem ?h3 a = mem h2 a" using keptD [OF h3(2)] e2 by (simp only:)
      moreover have "mem (heapinfo_claim c node ra ?h3) a = mem ?h3 a" using h4(2) a' e2 e3 by (simp only:)
      ultimately show "mem (heapinfo_claim c node ra ?h3) a = mem h a" by simp
    qed
  qed (use kept_total [OF h2(3)] kept_total [OF h3(2)] h4 e2 e3 in \<open>simp_all add: j_def\<close>)
qed

lemma mm_malloc_locked_post:
  assumes ok: "heap_ok h cs" and n: "16 dvd n" "16 \<le> n"
  obtains
    (none) "mm_malloc_locked c n ra h = Some (0, h)" "\<forall>(k, b) \<in> set cs. b \<or> k < n"
  | (some) xs k ys h' where "cs = xs @ (k, False) # ys" "n \<le> k" "\<forall>(k', b) \<in> set cs. b \<or> k' < n \<or> k \<le> k'"
      "mm_malloc_locked c n ra h = Some (mm_heapstart h + bytes xs + 16, h')"
      "heap_ok h' (xs @ taken n k @ ys)" "\<forall>a \<in> live (mm_heapstart h) cs. mem h' a = mem h a"
      "mm_heapstart h' = mm_heapstart h" "total_alloc_size h' = total_alloc_size h + int (fst (hd (taken n k)))"
proof -
  let ?lo = "mm_heapstart h" and ?F = "frees (mm_heapstart h) cs"
  have H: "heap_as h cs ?F" and mg: "merged cs" using ok by (auto simp: heap_ok_def)
  obtain node where find: "malloc_find h n (nd_flink h (nodelist h (mm_size2ndx n))) = Some node"
    and node: "node = 0 \<and> (\<forall>x \<in> ?F. mem h x < n)
     \<or> node \<in> ?F \<and> n \<le> mem h node \<and> (\<forall>x \<in> ?F. n \<le> mem h x \<longrightarrow> mem h node \<le> mem h x)"
    using malloc_find_post [OF _ n(2)] H unfolding heap_as_def by metis
  have ndx: "(if n \<ge> MM_MAX_CHUNK then MM_NNODES - 1 else mm_size2ndx n) = mm_size2ndx n"
    by (simp add: mm_size2ndx_def)
  note run = mm_malloc_locked_def [of c n ra h, unfolded ndx Let_def find, simplified]
  from node show ?thesis
  proof (elim disjE conjE)
    assume "node = 0" "\<forall>x \<in> ?F. mem h x < n"
    with run frees_all [OF heap_ok_region [OF ok], of "\<lambda>k. k < n"] show ?thesis by (intro none) simp_all
  next
    assume F: "node \<in> ?F" "n \<le> mem h node" and best: "\<forall>x \<in> ?F. n \<le> mem h x \<longrightarrow> mem h node \<le> mem h x"
    obtain xs k zs where cs: "cs = xs @ (k, False) # zs" and nd: "node = ?lo + bytes xs"
      using frees_split [OF F(1)] by blast
    have g: "xs \<noteq> []" "zs \<noteq> []" using guarded_middle [of xs k zs] H cs by (auto simp: heap_as_def)
    then obtain n2 b ys where zs: "zs = (n2, b) # ys" by (cases zs) auto
    note H = H [unfolded cs zs]
    note hd = heap_as_headers [OF H nd]
    have "\<forall>x \<in> ?F. mem h x < n \<or> k \<le> mem h x" using best hd(1) not_less by auto
    then have "\<forall>(k', b) \<in> set cs. b \<or> k' < n \<or> k \<le> k'" by (rule frees_all [OF heap_ok_region [OF ok]])
    then have k: "n \<le> k" "\<forall>(k', b) \<in> set cs. b \<or> k' < n \<or> k \<le> k'" using F(2) hd(1) by simp_all
    let ?F1 = "frees ?lo (xs @ (k, False) # (n2, b) # ys) - {node}"
    obtain h1 where h1: "mm_unlink node h = Some h1" "heap_as h1 (xs @ (k, False) # (n2, b) # ys) ?F1"
      "relinked (frees ?lo (xs @ (k, False) # (n2, b) # ys)) h h1"
      using heap_as_unlink [OF H] F(1) cs zs by metis
    have k1: "kept (live ?lo (xs @ (k, False) # (n2, b) # ys)) h h1"
      by (rule kept_relinked [OF H h1(3)]) (use frees_addrs in blast)
    obtain h' where h': "mm_malloc_locked c n ra h = Some (node + 16, h')"
      "heap_as h' (xs @ taken n k @ (n2, b) # ys) (frees ?lo (xs @ taken n k @ (n2, b) # ys))"
      "\<forall>a \<in> live ?lo (xs @ (k, False) # (n2, b) # ys). mem h' a = mem h1 a"
      "mm_heapstart h' = ?lo" "total_alloc_size h' = total_alloc_size h1 + int (fst (hd (taken n k)))"
    proof -
      have e1: "mm_heapstart h1 = ?lo" by (rule kept_start [OF k1])
      have H1: "heap_as h1 (xs @ (k, False) # (n2, b) # ys) (frees (mm_heapstart h1) (xs @ (k, False) # (n2, b) # ys) - {node})"
        using h1(2) e1 by simp
      have nd1: "node = mm_heapstart h1 + bytes xs" using nd e1 by simp
      obtain h2 h' where "(if SIZEOF_MM_FREENODE \<le> sub32 (nd_size h1 node) n
            then malloc_split node n (sub32 (nd_size h1 node) n) h1 else Some h1) = Some h2"
        "heapinfo_claim c node ra (set_preceding node (preceding h2 node OR MM_ALLOC_BIT) h2) = h'"
        and rest: "heap_as h' (xs @ taken n k @ (n2, b) # ys) (frees ?lo (xs @ taken n k @ (n2, b) # ys))"
        "\<forall>a \<in> live ?lo (xs @ (k, False) # (n2, b) # ys). mem h' a = mem h1 a"
        "mm_heapstart h' = ?lo" "total_alloc_size h' = total_alloc_size h1 + int (fst (hd (taken n k)))"
        using malloc_finish [OF H1 g(1) nd1 n k(1), of c ra] e1 by metis
      then have "mm_malloc_locked c n ra h = Some (node + 16, h')"
        unfolding run h1(1) using hd(16) by (simp add: SIZEOF_MM_ALLOCNODE_def)
      with rest that show ?thesis by blast
    qed
    have "merged (xs @ taken n k @ (n2, b) # ys)" using mg unfolding cs zs by (auto simp: taken_def)
    with h' have "heap_ok h' (xs @ taken n k @ zs)" unfolding heap_ok_def zs by simp
    moreover have "\<forall>a \<in> live ?lo cs. mem h' a = mem h a" using h'(3) k1 cs zs by (simp add: kept_def)
    moreover have "total_alloc_size h' = total_alloc_size h + int (fst (hd (taken n k)))"
      using h'(5) k1 by (simp add: kept_def)
    ultimately show ?thesis using some [OF cs k _ _ _ h'(4)] h'(1) nd by blast
  qed
qed

section \<open>Release\<close>

text \<open>Joining two neighbours that are not in the list.\<close>

definition joinchunks :: "addr \<Rightarrow> addr \<Rightarrow> nat \<Rightarrow> mm_heap_s \<Rightarrow> mm_heap_s" where
  "joinchunks node nxt sz h =
     (let h = set_size node sz h
      in set_preceding nxt (nd_size h node OR (preceding h nxt AND MM_ALLOC_BIT)) h)"

lemma heap_as_join:
  assumes H: "heap_as h (xs @ (n, f) # (n2, False) # (n3, b) # ys) F" and xs: "xs \<noteq> []"
    and node: "node = mm_heapstart h + bytes xs" "node \<notin> F" "node + n \<notin> F"
  shows "heap_as (joinchunks node (node + n + n2) (n + n2) h) (xs @ (n + n2, f) # (n3, b) # ys) F"
    "kept (live (mm_heapstart h) (xs @ (n, f) # (n2, False) # (n3, b) # ys)) h (joinchunks node (node + n + n2) (n + n2) h)"
proof -
  let ?h = "joinchunks node (node + n + n2) (n + n2) h"
  have H2: "heap_as h ((xs @ [(n, f)]) @ (n2, False) # (n3, b) # ys) F" using H by simp
  have H': "heap_as h (xs @ [(n, f), (n2, False)] @ (n3, b) # ys) F" using H by simp
  note hd = heap_as_headers [OF H node(1)]
  have nx: "node + n = mm_heapstart h + bytes (xs @ [(n, f)])" by (simp add: node)
  note hd2 = heap_as_headers [OF H2 nx]
  have "heap_as ?h (xs @ [(n + n2, f)] @ (n3, b) # ys) F"
    by (rule heap_as_rewrite [OF H' xs node(1) refl])
      (use hd hd2 node(2,3) in \<open>auto simp: joinchunks_def nd_defs Let_def flag_keep add.assoc\<close>)
  then show "heap_as ?h (xs @ (n + n2, f) # (n3, b) # ys) F" by simp
  have "mem ?h a = mem h a" if "a \<in> live (mm_heapstart h) (xs @ (n, f) # (n2, False) # (n3, b) # ys)" for a
  proof -
    have "a < y \<or> y + 16 \<le> a" if "y \<in> {node, node + n + n2}" for y
      using live_addrs [OF _ _ \<open>a \<in> _\<close>, of y] H that node(1) by (auto simp: heap_as_def add.assoc)
    then show ?thesis by (fastforce simp: joinchunks_def nd_defs Let_def)
  qed
  then show "kept (live (mm_heapstart h) (xs @ (n, f) # (n2, False) # (n3, b) # ys)) h ?h"
    by (simp add: kept_def joinchunks_def nd_defs Let_def)
qed

text \<open>The size and the chunks behind a released chunk, when a free chunk follows and is merged.\<close>

definition absorb :: "nat \<Rightarrow> chunks \<Rightarrow> nat \<times> chunks" where
  "absorb n ys = (case ys of (n2, False) # r \<Rightarrow> (n + n2, r) | _ \<Rightarrow> (n, ys))"

text \<open>The chunks after the release of a chunk of size \<open>n\<close> between \<open>xs\<close> and \<open>ys\<close>.\<close>

definition released :: "chunks \<Rightarrow> nat \<Rightarrow> chunks \<Rightarrow> chunks" where
  "released xs n ys =
     (let (n, ys) = absorb n ys
      in if xs \<noteq> [] \<and> \<not> snd (last xs) then butlast xs @ (fst (last xs) + n, False) # ys
         else xs @ (n, False) # ys)"

lemma heap_as_allocated:
  assumes "heap_as h (xs @ (n, b) # ys) F" "node = mm_heapstart h + bytes xs"
  shows "allocated h node = b"
proof -
  have "mem h (node + 4) = flagged b (lastsz 0 xs)" using assms by (simp add: heap_as_def)
  then show ?thesis using flag_and [OF heap_as_lastsz [OF assms(1)], of b] by (simp add: allocated_def preceding_def)
qed

text \<open>The first half of \<open>mm_free\<close> merges the chunk with the one behind it.\<close>

lemma free_next_post:
  assumes H: "heap_as h (xs @ (n, False) # ys) (frees (mm_heapstart h) xs \<union> frees (node + n) ys)"
    and xs: "xs \<noteq> []" and node: "node = mm_heapstart h + bytes xs" and g: "ys \<noteq> []" "snd (last ys)"
    and ab: "absorb n ys = (n', ys')"
  obtains h' where "free_next node (node + n) h = Some (node + n', h')"
    "heap_as h' (xs @ (n', False) # ys') (frees (mm_heapstart h) xs \<union> frees (node + n') ys')"
    "kept (live (mm_heapstart h) (xs @ (n, False) # ys)) h h'" "ys' \<noteq> []" "snd (last ys')"
proof -
  obtain n2 b r where ys: "ys = (n2, b) # r" using g(1) by (cases ys) auto
  have H'': "heap_as h ((xs @ [(n, False)]) @ (n2, b) # r) (frees (mm_heapstart h) xs \<union> frees (node + n) ys)"
    using H ys by simp
  have al: "allocated h (node + n) = b" by (rule heap_as_allocated [OF H'']) (simp add: node)
  show ?thesis
  proof (cases b)
    case True
    then show ?thesis using that [of h] al H ab ys g by (auto simp: free_next_def absorb_def kept_def)
  next
    case False
    have "r \<noteq> []" using g ys False by (cases r) auto
    then obtain n3 b3 zs where r: "r = (n3, b3) # zs" by (cases r) auto
    have ab': "n' = n + n2" "ys' = r" using ab ys False by (auto simp: absorb_def)
    let ?F = "frees (mm_heapstart h) xs \<union> frees (node + n) ys"
    have H1: "heap_as h (xs @ (n, False) # (n2, False) # (n3, b3) # zs) ?F" using H ys r False by simp
    have H2: "heap_as h (xs @ [(n, False), (n2, False)] @ (n3, b3) # zs) ?F" using H1 by simp
    note hd = heap_as_headers [OF H1 node]
    note fr = heap_as_frees [OF H2]
    have F: "node + n \<in> ?F" "node \<notin> ?F" "?F - {node + n} = frees (mm_heapstart h) xs \<union> frees (node + n') ys'"
    proof -
      have R: "?F = frees (mm_heapstart h) xs \<union> insert (node + n) (frees (node + n + n2) r)"
        using ys False by simp
      moreover have "node \<notin> frees (mm_heapstart h) xs" "node + n \<notin> frees (mm_heapstart h) xs"
        using fr(1) by (auto simp: node)
      moreover have "node \<notin> frees (node + n + n2) r" "node + n \<notin> frees (node + n + n2) r"
        using frees_le [of _ "node + n + n2" r] hd(7) by fastforce+
      ultimately show "node + n \<in> ?F" "node \<notin> ?F"
        "?F - {node + n} = frees (mm_heapstart h) xs \<union> frees (node + n') ys'"
        using ab' hd(6) by (auto simp: add.assoc)
    qed
    obtain h1 where h1: "mm_unlink (node + n) h = Some h1"
      "heap_as h1 (xs @ (n, False) # (n2, False) # (n3, b3) # zs) (?F - {node + n})" "relinked ?F h h1"
      using heap_as_unlink [OF H1 F(1)] by blast
    have k1: "kept (live (mm_heapstart h) (xs @ (n, False) # (n2, False) # (n3, b3) # zs)) h h1"
      by (rule kept_relinked [OF H1 h1(3)]) (use H1 in \<open>simp only: heap_as_def\<close>)
    have e1: "mm_heapstart h1 = mm_heapstart h" by (rule kept_start [OF k1])
    have nd1: "node = mm_heapstart h1 + bytes xs" using e1 node by simp
    have nF: "node \<notin> ?F - {node + n}" "node + n \<notin> ?F - {node + n}" using F(2) by blast+
    note j = heap_as_join [OF h1(2) xs nd1 nF]
    have "mem h1 node = n" "mem h1 (node + n) = n2" "n + n2 < 2 ^ 32"
      using heap_as_headers [OF h1(2), of node] node e1 hd(15) by simp_all
    note m = this
    show ?thesis
    proof (rule that [of "joinchunks node (node + n + n2) (n + n2) h1"])
      show "free_next node (node + n) h = Some (node + n', joinchunks node (node + n + n2) (n + n2) h1)"
        using al False h1(1) hd(3) m ab' by (simp add: free_next_def nd_size_def add32_small joinchunks_def Let_def add.assoc)
      show "heap_as (joinchunks node (node + n + n2) (n + n2) h1) (xs @ (n', False) # ys')
          (frees (mm_heapstart h) xs \<union> frees (node + n') ys')"
        using j(1) unfolding F(3) ab' r .
      show "kept (live (mm_heapstart h) (xs @ (n, False) # ys)) h (joinchunks node (node + n + n2) (n + n2) h1)"
        using kept_trans [OF k1 j(2) [unfolded e1]] unfolding ys r using False by (simp only:)
      show "ys' \<noteq> []" "snd (last ys')" using ab' g ys r by auto
    qed
  qed
qed

text \<open>The second half merges it with the one before it.\<close>

definition join_prev :: "chunks \<Rightarrow> nat \<Rightarrow> chunks \<times> nat" where
  "join_prev xs n = (if snd (last xs) then (xs, n) else (butlast xs, fst (last xs) + n))"

lemma released_alt: "xs \<noteq> [] \<Longrightarrow>
    released xs n ys = fst (join_prev xs (fst (absorb n ys))) @ (snd (join_prev xs (fst (absorb n ys))), False) # snd (absorb n ys)"
  by (simp add: released_def join_prev_def split_def Let_def)

lemma free_prev_post:
  assumes H: "heap_as h (xs @ (n, False) # ys) (frees (mm_heapstart h) xs \<union> frees (node + n) ys)"
    and xs: "xs \<noteq> []" and node: "node = mm_heapstart h + bytes xs" and ys: "ys \<noteq> []"
    and jp: "join_prev xs n = (xs', n')"
  obtains h' where "free_prev node (node + n) h = Some (mm_heapstart h + bytes xs', h')"
    "heap_as h' (xs' @ (n', False) # ys) (frees (mm_heapstart h) xs' \<union> frees (node + n) ys)"
    "kept (live (mm_heapstart h) (xs @ (n, False) # ys)) h h'" "xs' \<noteq> []"
    "mm_heapstart h + bytes xs' + n' = node + n"
proof -
  let ?lo = "mm_heapstart h" and ?F = "frees (mm_heapstart h) xs \<union> frees (node + n) ys"
  obtain zs m b where zs: "xs = zs @ [(m, b)]" using xs by (metis rev_exhaust surj_pair)
  obtain n3 b3 r where r: "ys = (n3, b3) # r" using ys by (cases ys) auto
  define prev where prev: "prev = node - preceding h node"
  define q where "q = ?lo + bytes zs"
  have ndq: "node = q + m" by (simp add: node q_def zs)
  have H': "heap_as h (zs @ (m, b) # (n, False) # ys) ?F" using H zs by simp
  have H1: "heap_as h (zs @ (m, b) # (n, False) # (n3, b3) # r) ?F" using H zs r by simp
  have "prev = q" using heap_as_headers(4) [OF H1 q_def] prev by (simp add: preceding_def ndq)
  then have nd: "node = prev + m" and prev_def: "prev = ?lo + bytes zs" using ndq q_def by simp_all
  note hd = heap_as_headers [OF H1 prev_def]
  have al: "allocated h prev = b" by (rule heap_as_allocated [OF H' prev_def])
  show ?thesis
  proof (cases b)
    case True
    then have "xs' = xs" "n' = n" using jp zs by (auto simp: join_prev_def)
    moreover have "free_prev node (node + n) h = Some (node, h)"
      using al True unfolding free_prev_def prev [symmetric] by (simp add: Let_def)
    ultimately show ?thesis using that [of h] H xs node by (simp add: kept_def)
  next
    case False
    have zn: "zs \<noteq> []" using H1 False by (auto simp: heap_as_def guarded_def)
    have jp': "xs' = zs" "n' = m + n" using jp zs False by (auto simp: join_prev_def)
    have H2: "heap_as h (zs @ [(m, False), (n, False)] @ ys) ?F" using H1 r False by simp
    note fr = heap_as_frees [OF H2]
    have F: "prev \<in> ?F" "node \<notin> ?F" "?F - {prev} = frees ?lo zs \<union> frees (node + n) ys"
    proof -
      have "frees ?lo xs = insert prev (frees ?lo zs)" using zs False by (simp add: prev_def)
      moreover have "prev \<notin> frees ?lo zs" "node \<notin> frees ?lo zs" using fr(1) by (auto simp: nd prev_def)
      moreover have "prev \<notin> frees (node + n) ys" "node \<notin> frees (node + n) ys"
        using frees_le [of _ "node + n" ys] hd(6,7) by (fastforce simp: nd)+
      ultimately show "prev \<in> ?F" "node \<notin> ?F" "?F - {prev} = frees ?lo zs \<union> frees (node + n) ys"
        using hd(6) by (auto simp: nd)
    qed
    have H3: "heap_as h (zs @ (m, False) # (n, False) # (n3, b3) # r) ?F" using H1 False by simp
    obtain h1 where h1: "mm_unlink prev h = Some h1"
      "heap_as h1 (zs @ (m, False) # (n, False) # (n3, b3) # r) (?F - {prev})" "relinked ?F h h1"
      using heap_as_unlink [OF H3 F(1)] by blast
    have k1: "kept (live ?lo (zs @ (m, False) # (n, False) # (n3, b3) # r)) h h1"
      by (rule kept_relinked [OF H3 h1(3)]) (use H3 in \<open>simp only: heap_as_def\<close>)
    have e1: "mm_heapstart h1 = ?lo" by (rule kept_start [OF k1])
    have nd1: "prev = mm_heapstart h1 + bytes zs" using e1 by (simp add: prev_def)
    have nF: "prev \<notin> ?F - {prev}" "prev + m \<notin> ?F - {prev}" using F(2) nd by blast+
    note j = heap_as_join [OF h1(2) zn nd1 nF]
    have m: "mem h1 prev = m" "mem h1 node = n" "mem h1 (node + 4) = m" "m + n < 2 ^ 32"
      using heap_as_headers [OF h1(2) nd1] hd(15) by (simp_all add: nd)
    let ?h = "joinchunks prev (prev + m + n) (m + n) h1"
    show ?thesis
    proof (rule that [of ?h])
      show "free_prev node (node + n) h = Some (?lo + bytes xs', ?h)"
        using al False h1(1) m unfolding free_prev_def prev [symmetric]
        by (simp add: nd_size_def add32_small joinchunks_def Let_def jp' prev_def nd)
      show "heap_as ?h (xs' @ (n', False) # ys) (frees ?lo xs' \<union> frees (node + n) ys)"
        using j(1) [unfolded F(3)] unfolding jp' r .
      show "kept (live ?lo (xs @ (n, False) # ys)) h ?h"
        using kept_trans [OF k1 j(2) [unfolded e1]] unfolding zs r using False by simp
      show "xs' \<noteq> []" using jp' zn by simp
      show "?lo + bytes xs' + n' = node + n" using jp' by (simp add: nd prev_def)
    qed
  qed
qed

lemma live_absorb: "absorb n ys = (n', ys') \<Longrightarrow> live a (xs @ (n', False) # ys') = live a (xs @ (n, False) # ys)"
  by (auto simp: absorb_def add.assoc split: list.splits bool.splits)

lemma live_join_prev:
  "xs \<noteq> [] \<Longrightarrow> join_prev xs n = (xs', n') \<Longrightarrow> live a (xs' @ (n', False) # ys) = live a (xs @ (n, False) # ys)"
  by (cases xs rule: rev_cases) (auto simp: join_prev_def add.assoc split: if_splits)

lemma merged_released:
  assumes "merged (xs @ (n, True) # ys)" "xs \<noteq> []" "snd (hd xs)" "absorb n ys = (n', ys')" "join_prev xs n' = (xs', n'')"
  shows "merged (xs' @ (n'', False) # ys')"
proof -
  have ys: "merged ys'" "ys' \<noteq> [] \<Longrightarrow> snd (hd ys')"
    using assms(1,4) by (auto simp: absorb_def split: list.splits bool.splits)
  have xs: "merged xs'" "xs' \<noteq> [] \<Longrightarrow> snd (last xs')"
    using assms(1,2,5) by (cases xs rule: rev_cases; auto simp: join_prev_def split: if_splits)+
  show ?thesis using xs ys by auto
qed

lemma mm_free_locked_post:
  assumes ok: "heap_ok h (xs @ (n, True) # ys)" and g: "xs \<noteq> []" "ys \<noteq> []"
    and p: "p = mm_heapstart h + bytes xs + 16"
  obtains h' where "mm_free_locked c p h = Some h'" "heap_ok h' (released xs n ys)"
    "\<forall>a \<in> live (mm_heapstart h) (xs @ (n, False) # ys). mem h' a = mem h a"
    "mm_heapstart h' = mm_heapstart h" "total_alloc_size h' = total_alloc_size h - int n"
proof -
  let ?lo = "mm_heapstart h"
  define node where "node = ?lo + bytes xs"
  have H: "heap_as h (xs @ (n, True) # ys) (frees ?lo (xs @ (n, True) # ys))"
    and mg: "merged (xs @ (n, True) # ys)" using ok by (auto simp: heap_ok_def)
  have gd: "snd (hd xs)" "snd (last ys)" using H g by (auto simp: heap_as_def guarded_def)
  obtain n2 b r where ys: "ys = (n2, b) # r" using g by (cases ys) auto
  let ?F = "frees ?lo xs \<union> frees (node + n) ys" and ?L = "live ?lo (xs @ (n, False) # ys)"
  have F: "frees ?lo (xs @ (n, True) # ys) = ?F" by (simp add: node_def)
  define h0 where "h0 = heapinfo_update_total_size (- int (nd_size h node)) (heapinfo_subtract_size c (nd_pid h node) (nd_size h node) h)"
  have c0: "core h0 = core h" by (simp add: h0_def)
  note f0 = core_fields [OF c0]
  have H0: "heap_as h0 (xs @ (n, True) # (n2, b) # r) ?F" using H heap_as_cong [OF c0] F ys by simp
  have nd0: "node = mm_heapstart h0 + bytes xs" using f0 by (simp add: node_def)
  note hd = heap_as_headers [OF H0 nd0]
  have H0': "heap_as h0 (xs @ [(n, True)] @ ys) ?F" using H0 ys by simp
  have nF: "node \<notin> ?F" using heap_as_frees [OF H0'] f0 hd(6) by (auto simp: node_def)
  define h1 where "h1 = set_preceding node (preceding h0 node AND not32 MM_ALLOC_BIT) h0"
  have "preceding h0 node AND not32 MM_ALLOC_BIT = flagged False (lastsz 0 xs)"
    using hd(2) flag_clear [OF heap_as_lastsz [OF H0]] by (simp add: preceding_def)
  note fl = heap_as_flag [OF H0 g(1) nd0 nF this, folded h1_def ys]
  have e1: "mm_heapstart h1 = ?lo" using kept_start [OF fl(2)] f0 by simp
  have k1: "kept ?L h0 h1" using fl(2) f0 by simp
  have H1: "heap_as h1 (xs @ (n, False) # ys) (frees (mm_heapstart h1) xs \<union> frees (node + n) ys)" using fl(1) e1 by simp
  have nd1: "node = mm_heapstart h1 + bytes xs" using e1 by (simp add: node_def)
  obtain n' ys' where ab: "absorb n ys = (n', ys')" by fastforce
  obtain h2 where h2: "free_next node (node + n) h1 = Some (node + n', h2)"
    "heap_as h2 (xs @ (n', False) # ys') (frees ?lo xs \<union> frees (node + n') ys')"
    "kept ?L h1 h2" "ys' \<noteq> []"
    using free_next_post [OF H1 g(1) nd1 g(2) gd(2) ab] e1 by metis
  have e2: "mm_heapstart h2 = ?lo" using kept_start [OF h2(3)] e1 by simp
  have H2: "heap_as h2 (xs @ (n', False) # ys') (frees (mm_heapstart h2) xs \<union> frees (node + n') ys')" using h2(2) e2 by simp
  have nd2: "node = mm_heapstart h2 + bytes xs" using e2 by (simp add: node_def)
  obtain xs' n'' where jp: "join_prev xs n' = (xs', n'')" by fastforce
  obtain h3 where h3: "free_prev node (node + n') h2 = Some (?lo + bytes xs', h3)"
    "heap_as h3 (xs' @ (n'', False) # ys') (frees ?lo xs' \<union> frees (node + n') ys')"
    "kept ?L h2 h3" "xs' \<noteq> []" "?lo + bytes xs' + n'' = node + n'"
    using free_prev_post [OF H2 g(1) nd2 h2(4) jp] e2 live_absorb [OF ab] by metis
  have e3: "mm_heapstart h3 = ?lo" using kept_start [OF h3(3)] e2 by simp
  have rel: "released xs n ys = xs' @ (n'', False) # ys'" using released_alt [OF g(1)] ab jp by simp
  let ?node = "?lo + bytes xs'" and ?F3 = "frees ?lo xs' \<union> frees (node + n') ys'"
  have H3: "heap_as h3 (xs' @ (n'', False) # ys') ?F3" by (rule h3(2))
  have "?F3 = frees ?lo xs' \<union> frees (?node + n'') ys'" using h3(5) by simp
  moreover have "heap_as h3 (xs' @ [(n'', False)] @ ys') ?F3" using H3 by simp
  note heap_as_frees [OF this]
  moreover have "16 \<le> n''" using H3 by (simp add: heap_as_def)
  ultimately have nF3: "?node \<notin> ?F3" using e3 by auto
  have in3: "?node \<in> set (addrs (mm_heapstart h3) (xs' @ (n'', False) # ys'))" using e3 by simp
  obtain h4 where h4: "mm_addfreechunk ?node h3 = Some h4"
    "heap_as h4 (xs' @ (n'', False) # ys') (insert ?node ?F3)" "relinked (insert ?node ?F3) h3 h4"
    using heap_as_add [OF H3 in3 nF3] by blast
  have "insert ?node ?F3 \<subseteq> set (addrs (mm_heapstart h3) (xs' @ (n'', False) # ys'))"
    using in3 H3 unfolding heap_as_def by blast
  then have k4: "kept ?L h3 h4"
    using kept_relinked [OF H3 h4(3)] e3 live_absorb [OF ab] live_join_prev [OF g(1) jp] by metis
  have e4: "mm_heapstart h4 = ?lo" using kept_start [OF k4] e3 by simp
  have "insert ?node ?F3 = frees ?lo (xs' @ (n'', False) # ys')" using h3(5) by auto
  then have "heap_ok h4 (released xs n ys)"
    unfolding heap_ok_def rel using h4(2) e4 merged_released [OF mg g(1) gd(1) ab jp] by simp
  moreover have "kept ?L h0 h4" using k1 h2(3) h3(3) k4 kept_trans by blast
  moreover have "mm_free_locked c p h = Some h4"
  proof -
    have "allocated h node" using heap_as_allocated [OF H node_def] by simp
    moreover have "nd_size h1 node = n" using heap_as_headers(1) [OF H1 [unfolded ys] nd1] by (simp add: nd_size_def)
    moreover have "p - SIZEOF_MM_ALLOCNODE = node" by (simp add: p node_def SIZEOF_MM_ALLOCNODE_def)
    ultimately show ?thesis
      unfolding mm_free_locked_def Let_def h0_def [symmetric] using h2(1) h3(1) h4(1)
      by (simp add: h0_def [symmetric] h1_def [symmetric])
  qed
  moreover have "total_alloc_size h0 = total_alloc_size h - int n"
    using hd(1) f0(1) by (simp add: h0_def nd_size_def)
  ultimately show ?thesis using that [of h4] e4 f0 by (auto simp: kept_def)
qed

end
