(* ===== verification/Mm_Resize.thy ===== *)
theory Mm_Resize
  imports Mm_Spec
begin

text \<open>
  Operations of the memory manager that change the size or the place of an allocation: shrinking a chunk
  and \<open>mm_realloc\<close>.
\<close>

lemma node_not_free: "gran (xs @ (k, True) # ys) \<Longrightarrow> a + bytes xs \<notin> frees a (xs @ (k, True) # ys)"
  using frees_lt [of xs _ a] frees_le [of _ "a + bytes xs + k" ys] by fastforce

section \<open>Shrinking\<close>

lemma merged_shrunk:
  assumes "merged (xs @ (k, True) # ys)" "absorb r ys = (r', ys')"
  shows "merged (xs @ (n, True) # (r', False) # ys')"
  using assms by (auto simp: absorb_def split: list.splits bool.splits)

lemma mm_shrinkchunk_post:
  assumes H: "heap_as h (xs @ (k, True) # ys) (frees (mm_heapstart h) (xs @ (k, True) # ys))"
    and g: "xs \<noteq> []" "ys \<noteq> []" "snd (last ys)" and node: "node = mm_heapstart h + bytes xs"
    and n: "16 dvd n" "16 \<le> n" "n < k" and ab: "absorb (k - n) ys = (r, ys')"
  obtains h' where "mm_shrinkchunk node n h = Some h'"
    "heap_as h' (xs @ (n, True) # (r, False) # ys') (frees (mm_heapstart h) (xs @ (n, True) # (r, False) # ys'))"
    "kept (live (mm_heapstart h) (xs @ (n, True) # (r, False) # ys')) h h'"
proof -
  let ?lo = "mm_heapstart h" and ?F = "frees (mm_heapstart h) (xs @ (k, True) # ys)"
  obtain n2 b zs where ys: "ys = (n2, b) # zs" using g(2) by (cases ys) auto
  have H1: "heap_as h (xs @ (k, True) # (n2, b) # zs) ?F" using H ys by simp
  note hd = heap_as_headers [OF H1 node]
  have H2: "heap_as h (xs @ [(k, True)] @ ys) ?F" using H by simp
  note fr = heap_as_frees [OF H2]
  have nx: "node \<notin> frees ?lo xs" "node + k \<notin> frees ?lo xs" using fr(1) by (auto simp: node)
  have ny: "node \<notin> frees (node + k) ys" using fr(2) hd(6) by (auto simp: node)
  have F: "?F = frees ?lo xs \<union> frees (node + k) ys" by (simp add: node)
  have H3: "heap_as h ((xs @ [(k, True)]) @ (n2, b) # zs) ?F" using H1 by simp
  have al: "allocated h (node + k) = b" by (rule heap_as_allocated [OF H3]) (simp add: node)
  have nk: "n + 16 \<le> k" using dvd_gap [OF n(1) hd(5) n(3)] .
  show ?thesis
  proof (cases b)
    case True
    have ab': "r = k - n" "ys' = ys" using ab ys True by (auto simp: absorb_def)
    have nF: "node \<notin> ?F" using nx ny F by blast
    obtain h' where h': "mm_addfreechunk (node + n) (cutchunk node k n h) = Some h'"
      "heap_as h' (xs @ (n, True) # (k - n, False) # (n2, b) # zs) (insert (node + n) ?F)"
      "kept (live ?lo (xs @ (n, True) # (k - n, False) # (n2, b) # zs)) h h'"
      using heap_as_cut [OF H1 g(1) node nF n] by blast
    have "mm_shrinkchunk node n h = mm_addfreechunk (node + n) (cutchunk node k n h)"
    proof -
      have "mem (set_size node n (set_preceding (node + n) n (set_size (node + n) (k - n) h))) (node + k + 4) = flagged True k"
        using hd(4) True n nk by (simp add: nd_defs)
      then have "preceding (set_size node n (set_preceding (node + n) n (set_size (node + n) (k - n) h))) (node + k) AND MM_ALLOC_BIT = MM_ALLOC_BIT"
        using flag_and [OF hd(11), of True] by (simp add: preceding_def)
      moreover have "nd_size (set_size node n (set_preceding (node + n) n (set_size (node + n) (k - n) h))) (node + n) = k - n"
        using n by (simp add: nd_defs)
      ultimately show ?thesis
        using al True hd(1,11) nk
        by (simp add: mm_shrinkchunk_def nd_size_def [of h] add32_small sub32_le cutchunk_def Let_def mm_consts)
    qed
    moreover have "insert (node + n) ?F = frees ?lo (xs @ (n, True) # (r, False) # ys')"
      unfolding F using ab' n by (auto simp: node add.assoc)
    ultimately show ?thesis using that [of h'] h' ab' ys by simp
  next
    case False
    then obtain n3 b3 ws where zs: "zs = (n3, b3) # ws" using g(3) ys by (cases zs) auto
    have ab': "r = k - n + n2" "ys' = zs" using ab ys False by (auto simp: absorb_def)
    have H4: "heap_as h (xs @ (k, True) # (n2, False) # zs) ?F" using H1 False by simp
    have nz: "node \<notin> frees (node + k + n2) zs" "node + k \<notin> frees (node + k + n2) zs"
      using frees_le [of _ "node + k + n2" zs] hd(7) by fastforce+
    have F': "?F = insert (node + k) (frees ?lo xs \<union> frees (node + k + n2) zs)" unfolding F using ys False by simp
    have G: "?F - {node + k} = frees ?lo xs \<union> frees (node + k + n2) zs" unfolding F' using nx nz by auto
    obtain h1 where h1: "mm_unlink (node + k) h = Some h1"
      "heap_as h1 (xs @ (k, True) # (n2, False) # zs) (?F - {node + k})" "relinked ?F h h1"
      using heap_as_unlink [OF H4, of "node + k"] F' by blast
    have k1: "kept (live ?lo (xs @ (k, True) # (n2, False) # zs)) h h1"
      by (rule kept_relinked [OF H4 h1(3)]) (use H4 in \<open>simp only: heap_as_def\<close>)
    have e1: "mm_heapstart h1 = ?lo" by (rule kept_start [OF k1])
    have H5: "heap_as h1 (xs @ (k, True) # [(n2, False)] @ (n3, b3) # ws) (?F - {node + k})" using h1(2) zs by simp
    have nd1: "node = mm_heapstart h1 + bytes xs" using e1 node by simp
    note hd1 = heap_as_headers [OF h1(2) nd1]
    have nF: "(?F - {node + k}) \<inter> set (addrs node ((k, True) # [(n2, False)])) = {}"
      unfolding G using nx nz by auto
    have kn: "n < k + n2" using n by simp
    obtain h' where h': "mm_addfreechunk (node + n) (cutchunk node (k + n2) n h1) = Some h'"
      "heap_as h' (xs @ (n, True) # (k + n2 - n, False) # (n3, b3) # ws) (insert (node + n) (?F - {node + k}))"
      "kept (live (mm_heapstart h1) (xs @ (n, True) # (k + n2 - n, False) # (n3, b3) # ws)) h1 h'"
      using heap_as_cut_run [OF H5 g(1) _ nd1 nF n(1,2) kn] by auto
    have r: "k + n2 - n = r" using ab' n by simp
    have "mm_shrinkchunk node n h = mm_addfreechunk (node + n) (cutchunk node (k + n2) n h1)"
    proof -
      have "nd_size (set_size node n (set_preceding (node + n) n (set_size (node + n) r h1))) (node + n) = r"
        using n by (simp add: nd_defs)
      moreover have "sub32 (add32 n2 k) n = r" using hd(15) n r by (simp add: add32_small sub32_le)
      ultimately show ?thesis
        using al False hd(1,3) hd1(1,3) h1(1) r
        by (simp add: mm_shrinkchunk_def nd_size_def [of h] nd_size_def [of h1] cutchunk_def Let_def add.assoc)
    qed
    moreover have "insert (node + n) (?F - {node + k}) = frees ?lo (xs @ (n, True) # (r, False) # ys')"
      unfolding G using ab' n r by (auto simp: node add.assoc)
    moreover have "kept (live ?lo (xs @ (n, True) # (r, False) # ys')) h h'"
    proof (rule kept_trans [of _ _ h1])
      show "kept (live ?lo (xs @ (n, True) # (r, False) # ys')) h h1"
        by (rule kept_mono [OF k1]) (use ab' n in \<open>auto simp: add.assoc\<close>)
      show "kept (live ?lo (xs @ (n, True) # (r, False) # ys')) h1 h'" using h'(3) e1 r ab' zs by simp
    qed
    ultimately show ?thesis using that [of h'] h' ab' zs r by simp
  qed
qed

section \<open>Copying\<close>

lemma memcpy_words_mem:
  assumes "dst + 4 \<le> src \<or> src + 4 * n \<le> dst"
  shows "mem (memcpy_words dst src n h) a = (if \<exists>j < n. a = dst + 4 * j then mem h (src + (a - dst)) else mem h a)"
  using assms
proof (induction n arbitrary: dst src h)
  case (Suc n)
  let ?h = "store dst (mem h src) h"
  have IH: "mem (memcpy_words (dst + 4) (src + 4) n ?h) a =
      (if \<exists>j < n. a = dst + 4 + 4 * j then mem ?h (src + 4 + (a - (dst + 4))) else mem ?h a)"
    using Suc by (intro Suc.IH) auto
  have ex: "(\<exists>j < Suc n. a = dst + 4 * j) \<longleftrightarrow> a = dst \<or> (\<exists>j < n. a = dst + 4 + 4 * j)"
    by (auto simp: less_Suc_eq_0_disj)
  show ?case
  proof (cases "\<exists>j < n. a = dst + 4 + 4 * j")
    case True
    then obtain j where j: "j < n" "a = dst + 4 + 4 * j" by blast
    then have "src + (4 + 4 * j) \<noteq> dst" using Suc.prems by auto
    then show ?thesis using IH True j ex by (simp add: store_def add.assoc)
  next
    case False
    then show ?thesis using IH ex by (auto simp: store_def)
  qed
qed simp

lemma memcpy_words_fields: "memcpy_words dst src n h = h\<lparr>mem := mem (memcpy_words dst src n h)\<rparr>"
proof (induction n arbitrary: dst src h)
  case (Suc n)
  show ?case using Suc.IH [of "dst + 4" "src + 4" "store dst (mem h src) h"]
    by (simp add: store_def)
qed simp

text \<open>Writing into the payload of an allocated chunk keeps the heap.\<close>

lemma heap_as_payload:
  assumes H: "heap_as h (xs @ (k, True) # (n, b) # ys) F" and xs: "xs \<noteq> []"
    and node: "node = mm_heapstart h + bytes xs" "node \<notin> F"
    and h': "h' = h\<lparr>mem := mem h'\<rparr>" and same: "\<And>a. a \<notin> {node + 16 ..< node + k} \<Longrightarrow> mem h' a = mem h a"
  shows "heap_as h' (xs @ (k, True) # (n, b) # ys) F"
    "kept (live (mm_heapstart h) xs \<union> live (node + k) ((n, b) # ys)) h h'"
proof -
  have H': "heap_as h (xs @ [(k, True)] @ (n, b) # ys) F" using H by simp
  note hd = heap_as_headers [OF H node(1)]
  have "heap_as h' (xs @ [(k, True)] @ (n, b) # ys) F"
    by (rule heap_as_rewrite [OF H' xs node(1) refl]) (use hd same h' node(2) in \<open>auto simp: add.assoc\<close>)
  then show "heap_as h' (xs @ (k, True) # (n, b) # ys) F" by simp
  obtain m' where m': "h' = h\<lparr>mem := m'\<rparr>" using h' by blast
  have "a \<notin> {node + 16 ..< node + k}" if "a \<in> live (mm_heapstart h) xs \<union> live (node + k) ((n, b) # ys)" for a
    using that live_bounds [of a "mm_heapstart h" xs] live_bounds [of a "node + k" "(n, b) # ys"] node by auto
  then show "kept (live (mm_heapstart h) xs \<union> live (node + k) ((n, b) # ys)) h h'"
    using same m' by (simp add: kept_def)
qed

section \<open>Extending an allocation\<close>

text \<open>What is left of a free chunk of size \<open>p\<close> when \<open>t\<close> bytes of it are taken.\<close>

definition left_over :: "nat \<Rightarrow> nat \<Rightarrow> chunks" where
  "left_over p t = (if t = p then [] else [(p - t, False)])"

lemma bytes_left_over [simp]: "t \<le> p \<Longrightarrow> bytes (left_over p t) = p - t"
  by (simp add: left_over_def)

lemma takeprev_node_post:
  assumes H: "heap_as h (zs @ (p, False) # (k, True) # ys) (frees (mm_heapstart h) (zs @ (p, False) # (k, True) # ys))"
    and g: "zs \<noteq> []" "ys \<noteq> []"
    and prev: "prev = mm_heapstart h + bytes zs" and old: "oldnode = prev + p" and nxt: "nxt = oldnode + k"
    and t: "16 dvd t" "0 < t" "t \<le> p"
  obtains h' where "takeprev_node oldnode k prev p nxt t h = Some (oldnode - t, h')"
    "heap_as h' (zs @ left_over p t @ (k + t, True) # ys) (frees (mm_heapstart h) (zs @ left_over p t @ (k + t, True) # ys))"
    "kept (live (mm_heapstart h) (zs @ (p, False) # (k, True) # ys)) h h'"
proof -
  let ?lo = "mm_heapstart h" and ?F = "frees (mm_heapstart h) (zs @ (p, False) # (k, True) # ys)"
  obtain n b r where ys: "ys = (n, b) # r" using g(2) by (cases ys) auto
  note hd = heap_as_headers [OF H prev]
  have H2: "heap_as h (zs @ [(p, False), (k, True)] @ ys) ?F" using H by simp
  have H3: "heap_as h ((zs @ [(p, False)]) @ (k, True) # (n, b) # r) ?F" using H ys by simp
  have oldn: "oldnode = ?lo + bytes (zs @ [(p, False)])" by (simp add: old prev)
  note hd2 = heap_as_headers [OF H3 oldn]
  note fr = heap_as_frees [OF H2]
  have F: "?F = insert prev (frees ?lo zs \<union> frees nxt ys)" by (simp add: prev old nxt)
  have nz: "prev \<notin> frees ?lo zs" "oldnode \<notin> frees ?lo zs" using fr(1) by (auto simp: prev old)
  have ny: "prev \<notin> frees nxt ys" "oldnode \<notin> frees nxt ys"
    using frees_le [of _ nxt ys] hd(6,7) by (fastforce simp: nxt old)+
  have G: "?F - {prev} = frees ?lo zs \<union> frees nxt ys" unfolding F using nz ny by auto
  obtain h1 where h1: "mm_unlink prev h = Some h1"
    "heap_as h1 (zs @ (p, False) # (k, True) # ys) (?F - {prev})" "relinked ?F h h1"
    using heap_as_unlink [OF H, of prev] F by blast
  have k1: "kept (live ?lo (zs @ (p, False) # (k, True) # ys)) h h1"
    by (rule kept_relinked [OF H h1(3)]) (use H in \<open>simp only: heap_as_def\<close>)
  have e1: "mm_heapstart h1 = ?lo" by (rule kept_start [OF k1])
  have prev1: "prev = mm_heapstart h1 + bytes zs" using e1 prev by simp
  have H4: "heap_as h1 (zs @ [(p, False), (k, True)] @ (n, b) # r) (?F - {prev})" using h1(2) ys by simp
  have m: "mem h1 prev = p" "mem h1 (prev + 4) = lastsz 0 zs" using heap_as_headers [OF h1(2) prev1] by simp_all
  have m2: "mem h1 (nxt + 4) = flagged b k" using H4 e1 by (simp add: heap_as_def nxt old prev add.assoc)
  have nF: "(?F - {prev}) \<inter> set (addrs prev [(p, False), (k, True)]) = {}" unfolding G using nz ny by (simp add: old)
  have nx: "nxt = prev + bytes [(p, False), (k, True)]" by (simp add: nxt old)
  have pt: "16 dvd p - t" "t \<noteq> p \<Longrightarrow> t + 16 \<le> p" using t hd(5) dvd_gap [OF t(1) hd(5)] by auto
  have lv: "a < prev \<or> oldnode + 16 \<le> a \<and> a < nxt \<or> nxt + 16 \<le> a"
    if "a \<in> live ?lo (zs @ (p, False) # (k, True) # ys)" for a
  proof -
    have "a \<in> live ?lo zs \<or> a \<in> {oldnode + 16 ..< nxt} \<or> a \<in> live nxt ys"
      using that by (simp add: old prev nxt)
    then show ?thesis using live_bounds [of a ?lo zs] live_bounds [of a nxt ys] by (auto simp: prev)
  qed
  have keep: "kept (live ?lo (zs @ (p, False) # (k, True) # ys)) h h2"
    if f: "h2 = h1\<lparr>mem := mem h2\<rparr>" and sm: "\<And>a. a < prev \<or> oldnode + 16 \<le> a \<Longrightarrow> a \<noteq> nxt + 4 \<Longrightarrow> mem h2 a = mem h1 a" for h2
  proof -
    obtain m' where m': "h2 = h1\<lparr>mem := m'\<rparr>" using f by blast
    have "mem h2 a = mem h1 a" if "a \<in> live ?lo (zs @ (p, False) # (k, True) # ys)" for a
      by (rule sm) (use lv [OF that] in \<open>auto simp: nxt old\<close>)
    then have "kept (live ?lo (zs @ (p, False) # (k, True) # ys)) h1 h2" using m' by (simp add: kept_def)
    then show ?thesis using k1 kept_trans by blast
  qed
  show ?thesis
  proof (cases "t = p")
    case True
    define h2 where "h2 = (let g1 = set_size prev (k + p) h1; g2 = set_preceding prev (preceding g1 prev OR MM_ALLOC_BIT) g1
        in set_preceding nxt (nd_size g2 prev OR (preceding g2 nxt AND MM_ALLOC_BIT)) g2)"
    have ne: "prev \<noteq> nxt + 4" "prev + 4 \<noteq> nxt + 4" "nxt + 4 \<noteq> prev" using hd(6) by (auto simp: nxt old)
    have m': "mem h2 = (mem h1)(prev := k + p, prev + 4 := flagged True (lastsz 0 zs), nxt + 4 := flagged b (k + p))"
      using m m2 ne hd2(11) by (auto simp: h2_def nd_defs Let_def flag_keep flagged_def [of True])
    have f: "h2 = h1\<lparr>mem := mem h2\<rparr>" by (simp add: h2_def nd_defs Let_def)
    have "heap_as h2 (zs @ [(k + t, True)] @ (n, b) # r) (?F - {prev})"
      by (rule heap_as_rewrite [OF H4 g(1) prev1 nx _ _ _ _ _ nF f])
        (use True hd hd2 in \<open>auto simp: m' nx\<close>)
    moreover have "?F - {prev} = frees ?lo (zs @ left_over p t @ (k + t, True) # ys)"
      unfolding G using True by (simp add: left_over_def nxt old prev add.assoc add.commute)
    moreover have "kept (live ?lo (zs @ (p, False) # (k, True) # ys)) h h2"
      by (rule keep [OF f]) (use hd hd2 in \<open>auto simp: m' old\<close>)
    moreover have "add32 p k = k + p" using hd(15) by (simp add: add32_small add.commute)
    then have "takeprev_node oldnode k prev p nxt t h = Some (oldnode - t, h2)"
      unfolding takeprev_node_def using h1(1) True m hd(11)
      by (simp add: sub32_le mm_consts h2_def Let_def nd_size_def [of h1] old)
    ultimately show ?thesis using that [of h2] True ys by (simp add: left_over_def)
  next
    case False
    let ?new = "oldnode - t"
    have q: "t + 16 \<le> p" "?new = prev + (p - t)" using pt(2) False t by (auto simp: old)
    define h2 where "h2 = (let g1 = set_size prev (p - t) h1; g2 = set_size ?new (k + t) g1;
         g3 = set_preceding ?new (nd_size g2 prev OR MM_ALLOC_BIT) g2
        in set_preceding nxt (nd_size g3 ?new OR (preceding g3 nxt AND MM_ALLOC_BIT)) g3)"
    have ne: "prev \<noteq> ?new" "prev \<noteq> ?new + 4" "prev \<noteq> nxt + 4" "?new \<noteq> nxt + 4" "?new + 4 \<noteq> nxt + 4"
      "nxt + 4 \<noteq> prev" "nxt + 4 \<noteq> ?new" "prev + 4 \<noteq> ?new" "prev + 4 \<noteq> nxt + 4"
      using q t hd(6,7) by (auto simp: nxt old)
    have m': "mem h2 = (mem h1)(prev := p - t, ?new := k + t, ?new + 4 := flagged True (p - t), nxt + 4 := flagged b (k + t))"
      using m m2 ne hd2(11) unfolding h2_def Let_def nd_defs by (simp add: flag_keep flagged_def [of True])
    have f: "h2 = h1\<lparr>mem := mem h2\<rparr>" by (simp add: h2_def nd_defs Let_def)
    let ?cs = "zs @ [(p - t, False), (k + t, True)] @ (n, b) # r"
    have A: "heap_as h2 ?cs (?F - {prev})"
    proof (rule heap_as_rewrite [OF H4 g(1) prev1 nx _ _ _ _ _ nF f])
      show "region (mem h2) (lastsz 0 zs) prev [(p - t, False), (k + t, True)]"
        using ne m unfolding q(2) [symmetric] m' by (simp add: q(2) [symmetric])
      show "mem h2 (nxt + 4) = flagged b (lastsz (lastsz 0 zs) [(p - t, False), (k + t, True)])" unfolding m' by simp
      show "gran [(p - t, False), (k + t, True)]" using pt q t hd2 by auto
      show "mem h2 a = mem h1 a" if "a < prev \<or> nxt \<le> a" "a \<noteq> nxt + 4" for a
        using that q t hd(6,7) unfolding m' by (auto simp: nxt old)
    qed (use t in simp)
    have K: "kept (live ?lo (zs @ (p, False) # (k, True) # ys)) h h2"
      by (rule keep [OF f]) (use q t in \<open>auto simp: m' old\<close>)
    have e2: "mm_heapstart h2 = ?lo" by (rule kept_start [OF K])
    have in2: "prev \<in> set (addrs (mm_heapstart h2) ?cs)" unfolding e2 by (simp add: prev)
    obtain h3 where h3: "mm_addfreechunk prev h2 = Some h3" "heap_as h3 ?cs (insert prev (?F - {prev}))"
      "relinked (insert prev (?F - {prev})) h2 h3"
      using heap_as_add [OF A in2] by blast
    have "insert prev (?F - {prev}) \<subseteq> set (addrs (mm_heapstart h2) ?cs)" using in2 A unfolding heap_as_def by blast
    then have "kept (live ?lo ?cs) h2 h3" using kept_relinked [OF A h3(3)] e2 by simp
    moreover have "live ?lo (zs @ (p, False) # (k, True) # ys) \<subseteq> live ?lo ?cs"
    proof -
      have "prev + (p - t) + (k + t) = nxt" using t by (simp add: nxt old)
      then have "live ?lo ?cs = live ?lo zs \<union> ({?new + 16 ..< nxt} \<union> live nxt ys)"
        unfolding live_append prev [symmetric] ys by (simp del: live.simps(2) add: q(2)) (simp add: add.assoc)
      moreover have "live ?lo (zs @ (p, False) # (k, True) # ys) = live ?lo zs \<union> ({oldnode + 16 ..< nxt} \<union> live nxt ys)"
        by (simp add: old prev nxt)
      ultimately show ?thesis by auto
    qed
    ultimately have "kept (live ?lo (zs @ (p, False) # (k, True) # ys)) h2 h3" by (rule kept_mono)
    note kept_trans [OF K this]
    moreover have "insert prev (?F - {prev}) = frees ?lo (zs @ left_over p t @ (k + t, True) # ys)"
      unfolding G using False t by (auto simp: left_over_def nxt old prev add.assoc)
    moreover have "16 \<le> p - t" using q(1) by simp
    then have "takeprev_node oldnode k prev p nxt t h = Some (?new, h3)"
      unfolding takeprev_node_def using h1(1) h3(1) m(1) hd(11) hd2(15) t
      by (simp add: sub32_le mm_consts h2_def Let_def nd_size_def [of h1] add32_small old)
    ultimately show ?thesis using that [of h3] h3(2) False ys by (simp add: left_over_def)
  qed
qed

lemma realloc_takeprev_post:
  assumes H: "heap_as h (zs @ (p, False) # (k, True) # ys) (frees (mm_heapstart h) (zs @ (p, False) # (k, True) # ys))"
    and g: "zs \<noteq> []" "ys \<noteq> []"
    and prev: "prev = mm_heapstart h + bytes zs" and old: "oldnode = prev + p" and nxt: "nxt = oldnode + k"
    and t: "16 dvd t" "0 < t" "t \<le> p" and new: "newnode = oldnode - t"
  obtains h' where
    "realloc_takeprev oldnode k prev p nxt t (oldnode + 16) h = Some (newnode, k + t, newnode + 16, h')"
    "heap_as h' (zs @ left_over p t @ (k + t, True) # ys) (frees (mm_heapstart h) (zs @ left_over p t @ (k + t, True) # ys))"
    "\<forall>j. 4 * j < k - 16 \<longrightarrow> mem h' (newnode + 16 + 4 * j) = mem h (oldnode + 16 + 4 * j)"
    "kept (live (mm_heapstart h) zs \<union> live nxt ys) h h'"
proof -
  let ?lo = "mm_heapstart h" and ?cs = "zs @ left_over p t @ (k + t, True) # ys"
  obtain h1 where h1: "takeprev_node oldnode k prev p nxt t h = Some (newnode, h1)"
    "heap_as h1 ?cs (frees ?lo ?cs)" "kept (live ?lo (zs @ (p, False) # (k, True) # ys)) h h1"
    using takeprev_node_post [OF H g prev old nxt t] new by metis
  obtain n b r where ys: "ys = (n, b) # r" using g(2) by (cases ys) auto
  have e1: "mm_heapstart h1 = ?lo" by (rule kept_start [OF h1(3)])
  let ?xs = "zs @ left_over p t"
  have H1: "heap_as h1 (?xs @ (k + t, True) # (n, b) # r) (frees ?lo ?cs)" using h1(2) ys by simp
  have nd: "newnode = mm_heapstart h1 + bytes ?xs" using t by (simp add: e1 new old prev)
  note hd = heap_as_headers [OF H1 nd]
  have "gran (?xs @ (k + t, True) # ys)" using h1(2) by (simp add: heap_as_def)
  then have nF: "newnode \<notin> frees ?lo ?cs" using node_not_free [of ?xs "k + t" ys ?lo] nd e1 by simp
  let ?c = "(k + t - 16) div 4"
  define h2 where "h2 = memcpy_words (newnode + 16) (oldnode + 16) ?c h1"
  have far: "newnode + 16 + 4 \<le> oldnode + 16" using t new old dvd_imp_le [OF t(1,2)] by auto
  note cp = memcpy_words_mem [of "newnode + 16" "oldnode + 16" ?c h1, folded h2_def]
  have f: "h2 = h1\<lparr>mem := mem h2\<rparr>" unfolding h2_def by (rule memcpy_words_fields)
  have sm: "mem h2 a = mem h1 a" if "a \<notin> {newnode + 16 ..< newnode + (k + t)}" for a
    using cp [of a] far that by (auto split: if_splits)
  note pl = heap_as_payload [OF H1 _ nd nF f sm]
  have nx: "newnode + (k + t) = nxt" using t by (simp add: new nxt old)
  have "mem h2 (newnode + 16 + 4 * j) = mem h (oldnode + 16 + 4 * j)" if j: "4 * j < k - 16" for j
  proof -
    have "4 * ?c = k + t - 16" using hd(5,6) by (auto elim!: dvdE)
    then have "j < ?c" using j by linarith
    then have "mem h2 (newnode + 16 + 4 * j) = mem h1 (oldnode + 16 + 4 * j)" using cp [of "newnode + 16 + 4 * j"] far by auto
    moreover have "16 + 4 * j < k" using j by linarith
    then have "oldnode + 16 + 4 * j \<in> live ?lo (zs @ (p, False) # (k, True) # ys)" by (simp add: old prev)
    ultimately show ?thesis using keptD [OF h1(3)] by simp
  qed
  moreover have "kept (live ?lo zs \<union> live nxt ys) h h2"
  proof (rule kept_trans)
    show "kept (live ?lo zs \<union> live nxt ys) h h1"
      by (rule kept_mono [OF h1(3)]) (auto simp: nxt old prev)
    show "kept (live ?lo zs \<union> live nxt ys) h1 h2"
      by (rule kept_mono [OF pl(2)]) (use g nx e1 ys in auto)
  qed
  moreover have "realloc_takeprev oldnode k prev p nxt t (oldnode + 16) h = Some (newnode, k + t, newnode + 16, h2)"
    using h1(1) hd(1,6,11) by (simp add: realloc_takeprev_def Let_def mm_memcpy_def h2_def nd_size_def mm_consts sub32_le)
  moreover have "heap_as h2 ?cs (frees ?lo ?cs)" using pl(1) g ys by simp
  ultimately show ?thesis using that by blast
qed

lemma realloc_takenext_post:
  assumes H: "heap_as h (xs @ (k, True) # (m, False) # r) (frees (mm_heapstart h) (xs @ (k, True) # (m, False) # r))"
    and g: "xs \<noteq> []" "r \<noteq> []" and node: "node = mm_heapstart h + bytes xs" and nxt: "nxt = node + k"
    and t: "16 dvd t" "0 < t" "t \<le> m"
  obtains h' where "realloc_takenext node k nxt m t h = Some h'"
    "heap_as h' (xs @ (k + t, True) # left_over m t @ r) (frees (mm_heapstart h) (xs @ (k + t, True) # left_over m t @ r))"
    "kept (live (mm_heapstart h) (xs @ (k, True) # (m, False) # r)) h h'"
proof -
  let ?lo = "mm_heapstart h" and ?F = "frees (mm_heapstart h) (xs @ (k, True) # (m, False) # r)"
  obtain n b zs where r: "r = (n, b) # zs" using g(2) by (cases r) auto
  note hd = heap_as_headers [OF H node]
  have H2: "heap_as h (xs @ [(k, True), (m, False)] @ r) ?F" using H by simp
  note fr = heap_as_frees [OF H2]
  have F: "?F = insert nxt (frees ?lo xs \<union> frees (nxt + m) r)" by (simp add: nxt node)
  have nz: "node \<notin> frees ?lo xs" "nxt \<notin> frees ?lo xs" using fr(1) by (auto simp: node nxt)
  have ny: "node \<notin> frees (nxt + m) r" "nxt \<notin> frees (nxt + m) r"
    using frees_le [of _ "nxt + m" r] hd(6,7) by (fastforce simp: nxt)+
  have G: "?F - {nxt} = frees ?lo xs \<union> frees (nxt + m) r" unfolding F using nz ny by auto
  obtain h1 where h1: "mm_unlink nxt h = Some h1"
    "heap_as h1 (xs @ (k, True) # (m, False) # r) (?F - {nxt})" "relinked ?F h h1"
    using heap_as_unlink [OF H, of nxt] F by blast
  have k1: "kept (live ?lo (xs @ (k, True) # (m, False) # r)) h h1"
    by (rule kept_relinked [OF H h1(3)]) (use H in \<open>simp only: heap_as_def\<close>)
  have e1: "mm_heapstart h1 = ?lo" by (rule kept_start [OF k1])
  have node1: "node = mm_heapstart h1 + bytes xs" using e1 node by simp
  have nF: "node \<notin> ?F - {nxt}" "nxt \<notin> ?F - {nxt}" using G nz ny by blast+
  have m: "mem h1 node = k" using heap_as_headers [OF h1(2) node1] by simp
  show ?thesis
  proof (cases "t = m")
    case True
    have H3: "heap_as h1 (xs @ (k, True) # (m, False) # (n, b) # zs) (?F - {nxt})" using h1(2) r by simp
    have "node + k \<notin> ?F - {nxt}" using nF(2) nxt by simp
    note j = heap_as_join [OF H3 g(1) node1 nF(1) this]
    have "realloc_takenext node k nxt m t h = Some (joinchunks node (node + k + m) (k + m) h1)"
      using h1(1) True hd(15,12) by (simp add: realloc_takenext_def Let_def mm_consts sub32_le joinchunks_def nxt add32_small)
    moreover have "?F - {nxt} = frees ?lo (xs @ (k + t, True) # left_over m t @ r)"
      unfolding G using True by (simp add: left_over_def nxt node add.assoc)
    moreover have "kept (live ?lo (xs @ (k, True) # (m, False) # r)) h1 (joinchunks node (node + k + m) (k + m) h1)"
      using j(2) e1 r by simp
    note kept_trans [OF k1 this]
    ultimately show ?thesis using that j(1) True r by (simp add: left_over_def nxt)
  next
    case False
    have H3: "heap_as h1 (xs @ (k, True) # [(m, False)] @ (n, b) # zs) (?F - {nxt})" using h1(2) r by simp
    have nF': "(?F - {nxt}) \<inter> set (addrs node ((k, True) # [(m, False)])) = {}" using nF nxt by simp
    have tm: "t + 16 \<le> m" using dvd_gap [OF t(1) hd(8)] t False by auto
    obtain h' where h': "mm_addfreechunk (node + (k + t)) (cutchunk node (k + m) (k + t) h1) = Some h'"
      "heap_as h' (xs @ (k + t, True) # (k + m - (k + t), False) # (n, b) # zs) (insert (node + (k + t)) (?F - {nxt}))"
      "kept (live (mm_heapstart h1) (xs @ (k + t, True) # (k + m - (k + t), False) # (n, b) # zs)) h1 h'"
      using heap_as_cut_run [OF H3 g(1) _ node1 nF', of "k + m" "k + t"] hd(5,6) t tm by auto
    have cut: "cutchunk node (k + m) (k + t) h1 =
        (let g1 = set_size node (k + t) h1; g2 = set_size (node + (k + t)) (m - t) g1;
             g3 = set_preceding (node + (k + t)) (k + t) g2
         in set_preceding (nxt + m) ((m - t) OR (preceding g3 (nxt + m) AND MM_ALLOC_BIT)) g3)"
    proof -
      have "set_size node (k + t) (set_preceding (node + (k + t)) (k + t) (set_size (node + (k + t)) (m - t) h1)) =
          set_preceding (node + (k + t)) (k + t) (set_size (node + (k + t)) (m - t) (set_size node (k + t) h1))"
        using t by (simp add: nd_defs fun_upd_twist)
      then show ?thesis by (simp add: cutchunk_def Let_def nxt add.assoc)
    qed
    have "16 \<le> m - t" using tm by simp
    then have "realloc_takenext node k nxt m t h = Some h'"
      using h1(1) h'(1) hd(12,15) t unfolding cut
      by (simp add: realloc_takenext_def Let_def mm_consts sub32_le add32_small nd_size_def) (simp add: nd_defs)
    moreover have "insert (node + (k + t)) (?F - {nxt}) = frees ?lo (xs @ (k + t, True) # left_over m t @ r)"
      unfolding G using False t by (auto simp: left_over_def nxt node add.assoc)
    moreover have "kept (live ?lo (xs @ (k, True) # (m, False) # r)) h1 h'"
      by (rule kept_mono [OF h'(3)]) (use t r e1 in \<open>auto simp: add.assoc\<close>)
    note kept_trans [OF k1 this]
    ultimately show ?thesis using that [of h'] h'(2) False r by (simp add: left_over_def)
  qed
qed

text \<open>The neighbours of an allocation, and what is left of them.\<close>

definition free_before :: "chunks \<Rightarrow> nat" where
  "free_before xs = (if snd (last xs) then 0 else fst (last xs))"

definition free_behind :: "chunks \<Rightarrow> nat" where
  "free_behind ys = (if snd (hd ys) then 0 else fst (hd ys))"

definition take_before :: "chunks \<Rightarrow> nat \<Rightarrow> chunks" where
  "take_before xs t = (if t = 0 then xs else butlast xs @ left_over (fst (last xs)) t)"

definition take_behind :: "chunks \<Rightarrow> nat \<Rightarrow> chunks" where
  "take_behind ys t = (if t = 0 then ys else left_over (fst (hd ys)) t @ tl ys)"

lemma realloc_take_post:
  assumes "0 < n" "n \<le> p + q" "p + q < 2 ^ 32" "realloc_take n p q = (tp, tq)"
  shows "tp \<le> p" "tq \<le> q" "tp + tq = n"
  using assms by (auto simp: realloc_take_def sub32_le split: if_splits)

lemma realloc_take_dvd:
  assumes "16 dvd n" "16 dvd p" "16 dvd q" "p < 2 ^ 32" "q < 2 ^ 32" "n < 2 ^ 32" "realloc_take n p q = (tp, tq)"
  shows "16 dvd tp \<and> 16 dvd tq"
  using assms by (auto simp: realloc_take_def sub32_le dvd_diff_nat split: if_splits)

lemma live_take_before: "xs \<noteq> [] \<Longrightarrow> t \<le> free_before xs \<Longrightarrow> live a (take_before xs t) = live a xs"
  by (cases xs rule: rev_cases) (auto simp: take_before_def free_before_def left_over_def split: if_splits)

lemma live_take_behind: "ys \<noteq> [] \<Longrightarrow> t \<le> free_behind ys \<Longrightarrow> live (a + t) (take_behind ys t) = live a ys"
  by (cases ys) (auto simp: take_behind_def free_behind_def left_over_def add.assoc split: if_splits)

lemma realloc_extend_post:
  assumes H: "heap_as h (xs @ (k, True) # ys) (frees (mm_heapstart h) (xs @ (k, True) # ys))"
    and g: "xs \<noteq> []" "ys \<noteq> []" "snd (hd xs)" "snd (last ys)"
    and node: "node = mm_heapstart h + bytes xs" "nxt = node + k"
    and t: "tp \<le> free_before xs" "tn \<le> free_behind ys" "16 dvd tp" "16 dvd tn"
    and prev: "prev = node - fst (last xs)"
  obtains h' where
    "realloc_extend node k prev (free_before xs) nxt (free_behind ys) tp tn (node + 16) h = Some (node - tp, node - tp + 16, h')"
    "heap_as h' (take_before xs tp @ (k + tp + tn, True) # take_behind ys tn)
       (frees (mm_heapstart h) (take_before xs tp @ (k + tp + tn, True) # take_behind ys tn))"
    "\<forall>j. 4 * j < k - 16 \<longrightarrow> mem h' (node - tp + 16 + 4 * j) = mem h (node + 16 + 4 * j)"
    "kept (live (mm_heapstart h) xs \<union> live nxt ys) h h'"
proof -
  let ?lo = "mm_heapstart h" and ?xs = "take_before xs tp"
  have "\<exists>h1. (if tp \<noteq> 0 then realloc_takeprev node k prev (free_before xs) nxt tp (node + 16) h
       else Some (node, k, node + 16, h)) = Some (node - tp, k + tp, node - tp + 16, h1)
     \<and> heap_as h1 (?xs @ (k + tp, True) # ys) (frees ?lo (?xs @ (k + tp, True) # ys))
     \<and> (\<forall>j. 4 * j < k - 16 \<longrightarrow> mem h1 (node - tp + 16 + 4 * j) = mem h (node + 16 + 4 * j))
     \<and> kept (live ?lo xs \<union> live nxt ys) h h1 \<and> ?xs \<noteq> [] \<and> ?lo + bytes ?xs = node - tp"
  proof (cases "tp = 0")
    case True
    then show ?thesis using H g node by (simp add: take_before_def kept_def)
  next
    case False
    then obtain zs p where zs: "xs = zs @ [(p, False)]" "zs \<noteq> []" "tp \<le> p" "free_before xs = p"
      using t(1) g(1,3) by (cases xs rule: rev_cases) (auto simp: free_before_def hd_append split: if_splits)
    have H': "heap_as h (zs @ (p, False) # (k, True) # ys) (frees ?lo (zs @ (p, False) # (k, True) # ys))"
      using H zs by simp
    have pr: "prev = ?lo + bytes zs" "node = prev + p" using prev node zs by simp_all
    obtain h' where h': "realloc_takeprev node k prev p nxt tp (node + 16) h = Some (node - tp, k + tp, node - tp + 16, h')"
      "heap_as h' (zs @ left_over p tp @ (k + tp, True) # ys) (frees ?lo (zs @ left_over p tp @ (k + tp, True) # ys))"
      "\<forall>j. 4 * j < k - 16 \<longrightarrow> mem h' (node - tp + 16 + 4 * j) = mem h (node + 16 + 4 * j)"
      "kept (live ?lo zs \<union> live nxt ys) h h'"
      using realloc_takeprev_post [OF H' zs(2) g(2) pr node(2) t(3) _ zs(3) refl] False by auto
    have "?lo + bytes (zs @ left_over p tp) = node - tp" using pr zs by simp
    with h' show ?thesis using False zs by (auto simp: take_before_def)
  qed
  then obtain h1 where r1: "(if tp \<noteq> 0 then realloc_takeprev node k prev (free_before xs) nxt tp (node + 16) h
       else Some (node, k, node + 16, h)) = Some (node - tp, k + tp, node - tp + 16, h1)"
    and h1: "heap_as h1 (?xs @ (k + tp, True) # ys) (frees ?lo (?xs @ (k + tp, True) # ys))"
      "\<forall>j. 4 * j < k - 16 \<longrightarrow> mem h1 (node - tp + 16 + 4 * j) = mem h (node + 16 + 4 * j)"
      "kept (live ?lo xs \<union> live nxt ys) h h1" "?xs \<noteq> []" "?lo + bytes ?xs = node - tp" by blast
  have e1: "mm_heapstart h1 = ?lo" by (rule kept_start [OF h1(3)])
  show ?thesis
  proof (cases "tn = 0")
    case True
    then show ?thesis using that [of h1] h1 r1 by (simp add: realloc_extend_def take_behind_def)
  next
    case False
    then obtain m r where r: "ys = (m, False) # r" "r \<noteq> []" "tn \<le> m" "free_behind ys = m"
      using t(2) g(2,4) by (cases ys) (auto simp: free_behind_def split: if_splits)
    have H1: "heap_as h1 (?xs @ (k + tp, True) # (m, False) # r) (frees (mm_heapstart h1) (?xs @ (k + tp, True) # (m, False) # r))"
      using h1(1) r e1 by simp
    have nd: "node - tp = mm_heapstart h1 + bytes ?xs" using h1(5) e1 by simp
    have "tp \<le> node"
      using t(1) g(1) node(1) by (cases xs rule: rev_cases) (auto simp: free_before_def split: if_splits)
    then have nx: "nxt = node - tp + (k + tp)" using node(2) by simp
    obtain h' where h': "realloc_takenext (node - tp) (k + tp) nxt m tn h1 = Some h'"
      "heap_as h' (?xs @ (k + tp + tn, True) # left_over m tn @ r) (frees ?lo (?xs @ (k + tp + tn, True) # left_over m tn @ r))"
      "kept (live ?lo (?xs @ (k + tp, True) # (m, False) # r)) h1 h'"
      using realloc_takenext_post [OF H1 h1(4) r(2) nd nx t(4) _ r(3)] False e1 by auto
    have "\<forall>j. 4 * j < k - 16 \<longrightarrow> mem h' (node - tp + 16 + 4 * j) = mem h (node + 16 + 4 * j)"
    proof (intro allI impI)
      fix j assume j: "4 * j < k - 16"
      then have "16 + 4 * j < k + tp" by linarith
      then have "node - tp + 16 + 4 * j \<in> live ?lo (?xs @ (k + tp, True) # (m, False) # r)" using h1(5) by simp
      then show "mem h' (node - tp + 16 + 4 * j) = mem h (node + 16 + 4 * j)"
        using keptD [OF h'(3)] h1(2) j by simp
    qed
    moreover have "kept (live ?lo xs \<union> live nxt ys) h1 h'"
      by (rule kept_mono [OF h'(3)]) (use live_take_before [OF g(1) t(1)] h1(5) nx r(1) in \<open>auto simp: add.assoc\<close>)
    note kept_trans [OF h1(3) this]
    ultimately show ?thesis using that [of h'] h'(1,2) r1 r False by (simp add: realloc_extend_def take_behind_def)
  qed
qed

section \<open>Reallocation\<close>

lemma allocs_absorb: "absorb r ys = (r', ys') \<Longrightarrow> allocs (a + r') ys' = allocs (a + r) ys"
  by (auto simp: absorb_def add.assoc split: list.splits bool.splits)

lemma allocs_take_before: "xs \<noteq> [] \<Longrightarrow> t \<le> free_before xs \<Longrightarrow> allocs a (take_before xs t) = allocs a xs"
  by (cases xs rule: rev_cases) (auto simp: take_before_def free_before_def left_over_def split: if_splits)

lemma allocs_take_behind:
  "ys \<noteq> [] \<Longrightarrow> t \<le> free_behind ys \<Longrightarrow> allocs (a + t) (take_behind ys t) = allocs a ys"
  by (cases ys) (auto simp: take_behind_def free_behind_def left_over_def add.assoc split: if_splits)

lemma bytes_take_before: "xs \<noteq> [] \<Longrightarrow> t \<le> free_before xs \<Longrightarrow> bytes (take_before xs t) + t = bytes xs"
  by (cases xs rule: rev_cases) (auto simp: take_before_def free_before_def left_over_def split: if_splits)

lemma merged_taken:
  assumes "merged (xs @ (k, True) # ys)" "xs \<noteq> []" "ys \<noteq> []" "tp \<le> free_before xs" "tn \<le> free_behind ys"
  shows "merged (take_before xs tp @ (n, True) # take_behind ys tn)"
proof -
  have "merged (take_before xs tp)"
    using assms(1,2,4) by (cases xs rule: rev_cases) (auto simp: take_before_def free_before_def left_over_def split: if_splits)
  moreover have "merged (take_behind ys tn)"
    using assms(1,3,5) by (cases ys) (auto simp: take_behind_def free_behind_def left_over_def split: if_splits)
  ultimately show ?thesis by simp
qed

lemma take_behind_neq_Nil: "ys \<noteq> [] \<Longrightarrow> snd (last ys) \<Longrightarrow> t \<le> free_behind ys \<Longrightarrow> take_behind ys t \<noteq> []"
  by (cases ys) (auto simp: take_behind_def free_behind_def left_over_def split: if_splits)

lemma take_before_neq_Nil: "xs \<noteq> [] \<Longrightarrow> snd (hd xs) \<Longrightarrow> t \<le> free_before xs \<Longrightarrow> take_before xs t \<noteq> []"
  by (cases xs rule: rev_cases) (auto simp: take_before_def free_before_def left_over_def hd_append split: if_splits)

text \<open>What the code reads off the headers of the neighbours.\<close>

lemma heap_as_neighbours:
  assumes H: "heap_as h (xs @ (k, True) # ys) F" and g: "xs \<noteq> []" "ys \<noteq> []" and node: "node = mm_heapstart h + bytes xs"
  shows "nd_size h node = k"
    "(if allocated h (node + k) then 0 else nd_size h (node + k)) = free_behind ys"
    "node - (preceding h node AND not32 MM_ALLOC_BIT) = node - fst (last xs)"
    "(if allocated h (node - fst (last xs)) then 0 else nd_size h (node - fst (last xs))) = free_before xs"
    "16 dvd free_before xs" "16 dvd free_behind ys" "k + free_before xs + free_behind ys < 2 ^ 31" "16 dvd k" "16 \<le> k"
proof -
  obtain n2 b r where ys: "ys = (n2, b) # r" using g(2) by (cases ys) auto
  obtain zs m f where xs: "xs = zs @ [(m, f)]" using g(1) by (metis rev_exhaust surj_pair)
  have H1: "heap_as h (xs @ (k, True) # (n2, b) # r) F" using H ys by simp
  have H2: "heap_as h ((xs @ [(k, True)]) @ (n2, b) # r) F" using H ys by simp
  have H3: "heap_as h (zs @ (m, f) # (k, True) # ys) F" using H xs by simp
  note hd = heap_as_headers [OF H1 node]
  have pr: "node - m = mm_heapstart h + bytes zs" using node xs by simp
  note hd3 = heap_as_headers [OF H3 pr]
  have l: "lastsz 0 xs = m" by (simp add: xs)
  show "nd_size h node = k" using hd(1) by (simp add: nd_size_def)
  have "allocated h (node + k) = b" by (rule heap_as_allocated [OF H2]) (simp add: node)
  then show "(if allocated h (node + k) then 0 else nd_size h (node + k)) = free_behind ys"
    using hd(3) by (simp add: free_behind_def ys nd_size_def)
  show "node - (preceding h node AND not32 MM_ALLOC_BIT) = node - fst (last xs)"
    using hd(2) flag_clear [of m True] hd3(11) l by (simp add: preceding_def xs)
  have "allocated h (node - m) = f" by (rule heap_as_allocated [OF H3 pr])
  then show "(if allocated h (node - fst (last xs)) then 0 else nd_size h (node - fst (last xs))) = free_before xs"
    using hd3(1) by (simp add: free_before_def xs nd_size_def)
  show "16 dvd free_before xs" "16 dvd free_behind ys" "16 dvd k" "16 \<le> k"
    using hd hd3 by (simp_all add: free_before_def free_behind_def xs ys)
  show "k + free_before xs + free_behind ys < 2 ^ 31"
    using H by (auto simp: heap_as_def free_before_def free_behind_def xs ys)
qed

text \<open>
  What a successful \<open>mm_realloc\<close> of the chunk between \<open>xs\<close> and \<open>ys\<close> to the size \<open>n\<close> guarantees: the heap is
  intact, the other allocations and what is stored in them are as before, and the contents have moved along.
\<close>

definition resized :: "mm_heap_s \<Rightarrow> chunks \<Rightarrow> nat \<Rightarrow> chunks \<Rightarrow> nat \<Rightarrow> addr \<Rightarrow> mm_heap_s \<Rightarrow> bool" where
  "resized h xs k ys n p h' =
     (\<exists>xs' ys'. heap_ok h' (xs' @ (n, True) # ys') \<and> xs' \<noteq> [] \<and> ys' \<noteq> []
        \<and> p = mm_heapstart h + bytes xs' + 16
        \<and> allocs (mm_heapstart h) xs' = allocs (mm_heapstart h) xs
        \<and> allocs (mm_heapstart h + bytes xs' + n) ys' = allocs (mm_heapstart h + bytes xs + k) ys
        \<and> (\<forall>j. 4 * j < min k n - 16 \<longrightarrow> mem h' (p + 4 * j) = mem h (mm_heapstart h + bytes xs + 16 + 4 * j))
        \<and> (\<forall>a \<in> live (mm_heapstart h) xs \<union> live (mm_heapstart h + bytes xs + k) ys. mem h' a = mem h a)
        \<and> mm_heapstart h' = mm_heapstart h \<and> total_alloc_size h' = total_alloc_size h + int n - int k)"

text \<open>The end of both ways through \<open>mm_realloc\<close>: the record of the allocation is renewed.\<close>

lemma resized_claim:
  assumes H: "heap_as h1 (xs' @ (n, True) # ys') (frees (mm_heapstart h) (xs' @ (n, True) # ys'))"
    and mg: "merged (xs' @ (n, True) # ys')" and g: "xs' \<noteq> []" "ys' \<noteq> []"
    and node: "node = mm_heapstart h + bytes xs'"
    and al: "allocs (mm_heapstart h) xs' = allocs (mm_heapstart h) xs"
      "allocs (node + n) ys' = allocs (mm_heapstart h + bytes xs + k) ys"
    and mv: "\<forall>j. 4 * j < min k n - 16 \<longrightarrow> mem h1 (node + 16 + 4 * j) = mem h (mm_heapstart h + bytes xs + 16 + 4 * j)"
    and kp: "\<forall>a \<in> live (mm_heapstart h) xs \<union> live (mm_heapstart h + bytes xs + k) ys. mem h1 a = mem h a"
    and lv: "live (mm_heapstart h) xs \<union> live (mm_heapstart h + bytes xs + k) ys \<subseteq> live (mm_heapstart h) (xs' @ (n, True) # ys')"
    and st: "mm_heapstart h1 = mm_heapstart h" "total_alloc_size h1 = total_alloc_size h - int k"
  shows "resized h xs k ys n (node + 16) (heapinfo_claim c node ra h1)"
proof -
  let ?lo = "mm_heapstart h" and ?h = "heapinfo_claim c node ra h1"
  obtain n3 b r where ys': "ys' = (n3, b) # r" using g(2) by (cases ys') auto
  have H': "heap_as h1 (xs' @ (n, True) # (n3, b) # r) (frees ?lo (xs' @ (n, True) # ys'))" using H ys' by simp
  have "gran (xs' @ (n, True) # ys')" using H by (simp add: heap_as_def)
  then have nF: "node \<notin> frees ?lo (xs' @ (n, True) # ys')" using node_not_free node by metis
  have nd1: "node = mm_heapstart h1 + bytes xs'" using node st by simp
  note C = heap_as_claim [OF H' g(1) nd1 nF, of c ra, folded ys']
  have same: "mem ?h a = mem h1 a" if "a \<in> live ?lo (xs' @ (n, True) # ys')" for a
    using C(2) that st(1) by simp
  have "heap_ok ?h (xs' @ (n, True) # ys')" using C(1,3) mg st by (simp add: heap_ok_def)
  moreover have "\<forall>j. 4 * j < min k n - 16 \<longrightarrow> mem ?h (node + 16 + 4 * j) = mem h (?lo + bytes xs + 16 + 4 * j)"
  proof (intro allI impI)
    fix j assume j: "4 * j < min k n - 16"
    then have "16 + 4 * j < n" by linarith
    then have "node + 16 + 4 * j \<in> live ?lo (xs' @ (n, True) # ys')" by (simp add: node)
    then show "mem ?h (node + 16 + 4 * j) = mem h (?lo + bytes xs + 16 + 4 * j)" using same mv j by simp
  qed
  moreover have "\<forall>a \<in> live ?lo xs \<union> live (?lo + bytes xs + k) ys. mem ?h a = mem h a"
    using same kp lv by (metis subsetD)
  moreover have "mm_heapstart ?h = ?lo" "total_alloc_size ?h = total_alloc_size h + int n - int k"
    using C(3,4) st by simp_all
  ultimately show ?thesis unfolding resized_def using g al node by blast
qed

text \<open>The three ways through the critical section of \<open>mm_realloc\<close>.\<close>

lemma realloc_shrink_post:
  assumes ok: "heap_ok h (xs @ (k, True) # ys)" and g: "xs \<noteq> []" "ys \<noteq> []"
    and p: "p = mm_heapstart h + bytes xs + 16" and n: "16 dvd n" "16 \<le> n" "n < k"
  obtains h' where "mm_realloc_locked c p n ra h = Some (Some p, h')" "resized h xs k ys n p h'"
proof -
  let ?lo = "mm_heapstart h"
  define node where "node = ?lo + bytes xs"
  have H: "heap_as h (xs @ (k, True) # ys) (frees ?lo (xs @ (k, True) # ys))" and mg: "merged (xs @ (k, True) # ys)"
    using ok by (auto simp: heap_ok_def)
  have gd: "snd (last ys)" using H g by (auto simp: heap_as_def guarded_def)
  have sz: "nd_size h node = k" using heap_as_neighbours(1) [OF H g node_def] .
  define h0 where "h0 = heapinfo_update_total_size (- int k) (heapinfo_subtract_size c (nd_pid h node) k h)"
  have c0: "core h0 = core h" "total_alloc_size h0 = total_alloc_size h - int k" by (simp_all add: h0_def)
  note f0 = core_fields [OF c0(1)]
  have H0: "heap_as h0 (xs @ (k, True) # ys) (frees (mm_heapstart h0) (xs @ (k, True) # ys))"
    using H heap_as_cong [OF c0(1)] f0 by simp
  have nd0: "node = mm_heapstart h0 + bytes xs" using f0 by (simp add: node_def)
  obtain r ys' where ab: "absorb (k - n) ys = (r, ys')" by fastforce
  let ?cs = "xs @ (n, True) # (r, False) # ys'"
  obtain h1 where h1: "mm_shrinkchunk node n h0 = Some h1" "heap_as h1 ?cs (frees ?lo ?cs)" "kept (live ?lo ?cs) h0 h1"
    using mm_shrinkchunk_post [OF H0 g gd nd0 n ab] f0 by auto
  have al: "allocs (node + n) ((r, False) # ys') = allocs (?lo + bytes xs + k) ys"
    using allocs_absorb [OF ab, of "node + n"] n by (simp add: node_def add.assoc)
  have lv: "live ?lo ?cs = live ?lo xs \<union> {node + 16 ..< node + n} \<union> live (node + k) ys"
    using live_absorb [OF ab, of "node + n" "[]"] n by (simp add: node_def Un_assoc add.assoc)
  have mem1: "mem h1 a = mem h a" if "a \<in> live ?lo ?cs" for a using keptD [OF h1(3) that] f0 by simp
  have "resized h xs k ys n (node + 16) (heapinfo_claim c node ra h1)"
  proof (rule resized_claim [OF h1(2) merged_shrunk [OF mg ab] g(1) _ node_def refl al])
    show "\<forall>j. 4 * j < min k n - 16 \<longrightarrow> mem h1 (node + 16 + 4 * j) = mem h (?lo + bytes xs + 16 + 4 * j)"
    proof (intro allI impI)
      fix j assume "4 * j < min k n - 16"
      then have "node + 16 + 4 * j \<in> live ?lo ?cs" unfolding lv by auto
      from mem1 [OF this] show "mem h1 (node + 16 + 4 * j) = mem h (?lo + bytes xs + 16 + 4 * j)" by (simp add: node_def)
    qed
    show "live ?lo xs \<union> live (?lo + bytes xs + k) ys \<subseteq> live ?lo ?cs" unfolding lv by (auto simp: node_def)
    then show "\<forall>a \<in> live ?lo xs \<union> live (?lo + bytes xs + k) ys. mem h1 a = mem h a" using mem1 by blast
    show "mm_heapstart h1 = ?lo" using kept_start [OF h1(3)] f0 by simp
    show "total_alloc_size h1 = total_alloc_size h - int k" using kept_total [OF h1(3)] c0 by simp
  qed simp
  moreover have "p - SIZEOF_MM_ALLOCNODE = node" "p = node + 16" by (simp_all add: p node_def mm_consts)
  ultimately show ?thesis
    using that [of "heapinfo_claim c node ra h1"] sz n h1(1) by (simp add: mm_realloc_locked_def Let_def h0_def)
qed

lemma realloc_grow_post:
  assumes ok: "heap_ok h (xs @ (k, True) # ys)" and g: "xs \<noteq> []" "ys \<noteq> []"
    and p: "p = mm_heapstart h + bytes xs + 16" and n: "16 dvd n" "k < n"
    and room: "n \<le> k + free_before xs + free_behind ys"
  obtains q h' where "mm_realloc_locked c p n ra h = Some (Some q, h')" "resized h xs k ys n q h'"
proof -
  let ?lo = "mm_heapstart h"
  define node where "node = ?lo + bytes xs"
  have H: "heap_as h (xs @ (k, True) # ys) (frees ?lo (xs @ (k, True) # ys))" and mg: "merged (xs @ (k, True) # ys)"
    using ok by (auto simp: heap_ok_def)
  have gd: "snd (hd xs)" "snd (last ys)" using H g by (auto simp: heap_as_def guarded_def)
  note nb = heap_as_neighbours [OF H g node_def]
  define h0 where "h0 = heapinfo_update_total_size (- int k) (heapinfo_subtract_size c (nd_pid h node) k h)"
  have c0: "core h0 = core h" "total_alloc_size h0 = total_alloc_size h - int k" by (simp_all add: h0_def)
  note f0 = core_fields [OF c0(1)]
  have H0: "heap_as h0 (xs @ (k, True) # ys) (frees (mm_heapstart h0) (xs @ (k, True) # ys))"
    using H heap_as_cong [OF c0(1)] f0 by simp
  have nd0: "node = mm_heapstart h0 + bytes xs" using f0 by (simp add: node_def)
  obtain tp tn where tk: "realloc_take (n - k) (free_before xs) (free_behind ys) = (tp, tn)" by fastforce
  have "0 < n - k" "n - k \<le> free_before xs + free_behind ys" "free_before xs + free_behind ys < 2 ^ 32"
    using n(2) room nb(7) by auto
  from realloc_take_post [OF this tk] n(2)
  have t: "tp \<le> free_before xs" "tn \<le> free_behind ys" "k + tp + tn = n" by auto
  have d: "16 dvd tp" "16 dvd tn"
    using realloc_take_dvd [OF _ nb(5,6) _ _ _ tk] n nb(7,8) room by auto
  let ?xs = "take_before xs tp" and ?ys = "take_behind ys tn"
  let ?cs = "?xs @ (n, True) # ?ys"
  obtain h1 where h1: "realloc_extend node k (node - fst (last xs)) (free_before xs) (node + k) (free_behind ys) tp tn (node + 16) h0
        = Some (node - tp, node - tp + 16, h1)"
    "heap_as h1 ?cs (frees ?lo ?cs)"
    "\<forall>j. 4 * j < k - 16 \<longrightarrow> mem h1 (node - tp + 16 + 4 * j) = mem h0 (node + 16 + 4 * j)"
    "kept (live ?lo xs \<union> live (node + k) ys) h0 h1"
    using realloc_extend_post [OF H0 g gd nd0 refl t(1,2) d refl] f0 t(3) by metis
  have e1: "mm_heapstart h1 = ?lo" using kept_start [OF h1(4)] f0 by simp
  have b: "bytes ?xs + tp = bytes xs" by (rule bytes_take_before [OF g(1) t(1)])
  then have nd: "node - tp = ?lo + bytes ?xs" "node - tp + n = node + k + tn" using t(3) by (auto simp: node_def)
  have lv: "live ?lo xs = live ?lo ?xs" "live (node + k) ys = live (node + k + tn) ?ys"
    using live_take_before [OF g(1) t(1)] live_take_behind [OF g(2) t(2)] by simp_all
  have "resized h xs k ys n (node - tp + 16) (heapinfo_claim c (node - tp) ra h1)"
  proof (rule resized_claim [OF h1(2) merged_taken [OF mg g t(1,2)] _ _ nd(1)])
    show "?xs \<noteq> []" "?ys \<noteq> []" using take_before_neq_Nil [OF g(1) gd(1) t(1)] take_behind_neq_Nil [OF g(2) gd(2) t(2)] by simp_all
    show "allocs ?lo ?xs = allocs ?lo xs" by (rule allocs_take_before [OF g(1) t(1)])
    show "allocs (node - tp + n) ?ys = allocs (?lo + bytes xs + k) ys"
      unfolding nd(2) using allocs_take_behind [OF g(2) t(2)] by (simp add: node_def)
    show "\<forall>j. 4 * j < min k n - 16 \<longrightarrow> mem h1 (node - tp + 16 + 4 * j) = mem h (?lo + bytes xs + 16 + 4 * j)"
      using h1(3) f0 by (simp add: node_def)
    show "\<forall>a \<in> live ?lo xs \<union> live (?lo + bytes xs + k) ys. mem h1 a = mem h a"
      using keptD [OF h1(4)] f0 by (simp add: node_def)
    show "live ?lo xs \<union> live (?lo + bytes xs + k) ys \<subseteq> live ?lo ?cs"
    proof -
      have "?lo + bytes ?xs + n = node + k + tn" using nd by simp
      then have "live ?lo ?cs = live ?lo xs \<union> {?lo + bytes ?xs + 16 ..< ?lo + bytes ?xs + n} \<union> live (node + k) ys"
        using lv by (simp add: Un_assoc)
      then show ?thesis by (auto simp: node_def)
    qed
    show "mm_heapstart h1 = ?lo" by (rule e1)
    show "total_alloc_size h1 = total_alloc_size h - int k" using kept_total [OF h1(4)] c0 by simp
  qed
  moreover have "mm_realloc_locked c p n ra h = Some (Some (node - tp + 16), heapinfo_claim c (node - tp) ra h1)"
  proof -
    have "p - SIZEOF_MM_ALLOCNODE = node" "p = node + 16" by (simp_all add: p node_def mm_consts)
    moreover have "sub32 n k = n - k" "add32 (add32 (free_behind ys) (free_before xs)) k \<ge> n"
      using room nb(7) n(2) by (simp_all add: sub32_le add32_small)
    ultimately show ?thesis
      unfolding mm_realloc_locked_def Let_def
      using n(2) h1(1) tk by (simp add: nb(1-4) h0_def [symmetric] cong: if_cong)
  qed
  ultimately show ?thesis using that by blast
qed

end
