(* ===== verification/Mm_Init.thy ===== *)
theory Mm_Init
  imports Mm_Spec
begin

text \<open>
  Initialization of a heap establishes its invariant.
\<close>

section \<open>Initialization\<close>

lemma memset0_mem: "mem (mm_memset0 a n h) x = (if \<exists>j < n. x = a + 4 * j then 0 else mem h x)"
proof (induction n arbitrary: a h)
  case (Suc n)
  have "(\<exists>j < Suc n. x = a + 4 * j) \<longleftrightarrow> x = a \<or> (\<exists>j < n. x = a + 4 + 4 * j)"
    by (auto simp: less_Suc_eq_0_disj)
  then show ?case using Suc [of "a + 4" "store a 0 h"] by (auto simp: store_def)
qed simp

lemma memset0_fields: "mm_memset0 a n h = h\<lparr>mem := mem (mm_memset0 a n h)\<rparr>"
proof (induction n arbitrary: a h)
  case (Suc n)
  show ?case using Suc.IH [of "a + 4" "store a 0 h"] by (simp add: store_def)
qed simp

lemma init_nodelist_fields: "init_nodelist i h = h\<lparr>mem := mem (init_nodelist i h)\<rparr>"
proof (induction i)
  case (Suc i)
  then obtain m where "init_nodelist i h = h\<lparr>mem := m\<rparr>" by blast
  then show ?case by (simp add: nd_defs Let_def fun_upd_def)
qed simp

lemma init_nodelist_mem:
  "mem (init_nodelist i h) x =
     (if \<exists>j < i. x = nodelist h j + 8 then x - 8 + 16
      else if \<exists>j < i. x = nodelist h j + 28 then x - 28 else mem h x)"
proof (induction i)
  case (Suc i)
  obtain m where m: "init_nodelist i h = h\<lparr>mem := m\<rparr>" using init_nodelist_fields by blast
  have nl: "nodelist (init_nodelist i h) = nodelist h" by (simp add: m nodelist_def fun_eq_iff)
  have "mem (init_nodelist (Suc i) h) =
      (mem (init_nodelist i h))(nodelist h i + 8 := nodelist h (Suc i), nodelist h (Suc i) + 12 := nodelist h i)"
    using m by (simp add: Let_def nd_defs nodelist_def)
  then show ?case
    using Suc by (auto simp: nodelist_def less_Suc_eq)
qed simp

text \<open>The list of the heads alone.\<close>

lemma heads_seg:
  assumes nl: "0 < nl" and m: "\<And>i. i < 18 \<Longrightarrow> m (nl + 16 * i + 8) = nl + 16 * (i + 1)" "m (nl + 16 * 18 + 8) = 0"
    "m (nl + 12) = 0" "\<And>i. 0 < i \<Longrightarrow> i < 19 \<Longrightarrow> m (nl + 16 * i + 12) = nl + 16 * (i - 1)"
  shows "fseg m 0 (map (\<lambda>i. nl + 16 * i) [0..<19]) 0"
proof -
  have "fseg m (if j = 0 then 0 else nl + 16 * (j - 1)) (map (\<lambda>i. nl + 16 * i) [j..<19]) 0" if "j \<le> 19" for j
    using that
  proof (induction rule: inc_induct)
    case (step j)
    have "fst0 0 (map (\<lambda>i. nl + 16 * i) [Suc j..<19]) = (if j = 18 then 0 else nl + 16 * (j + 1))"
      using step by (cases "j = 18") (simp_all add: upt_conv_Cons)
    moreover have "m (nl + 16 * j + 8) = (if j = 18 then 0 else nl + 16 * (j + 1))" using m(1) [of j] m(2) step by auto
    moreover have "m (nl + 16 * j + 12) = (if j = 0 then 0 else nl + 16 * (j - 1))" using m(3) m(4) [of j] step by auto
    ultimately show ?case using step by (simp add: upt_conv_Cons)
  qed simp
  from this [of 0] show ?thesis by simp
qed


lemma init_heads:
  assumes "0 < mm_nodelist h"
  obtains m where "init_nodelist 18 (mm_memset0 (mm_nodelist h) 76 h) = h\<lparr>mem := m\<rparr>"
    "\<And>x. x \<in> heads (mm_nodelist h) \<Longrightarrow> m x = 0"
    "fseg m 0 (map (\<lambda>i. mm_nodelist h + 16 * i) [0..<19]) 0"
proof -
  define nl m0 m where "nl = mm_nodelist h" and "m0 = mem (mm_memset0 nl 76 h)"
    and "m = mem (init_nodelist 18 (mm_memset0 nl 76 h))"
  have eq: "mm_memset0 nl 76 h = h\<lparr>mem := m0\<rparr>" unfolding m0_def by (rule memset0_fields)
  have zero: "m0 (nl + 4 * j) = 0" if "j < 76" for j
    using that unfolding m0_def memset0_mem by auto
  have m: "m x = (if \<exists>j < 18. x = nl + 16 * j + 8 then x - 8 + 16
      else if \<exists>j < 18. x = nl + 16 * j + 28 then x - 28 else m0 x)" for x
    unfolding m_def init_nodelist_mem unfolding eq by (auto simp: nodelist_def simp flip: nl_def)
  have h1: "init_nodelist 18 (mm_memset0 nl 76 h) = h\<lparr>mem := m\<rparr>"
    using init_nodelist_fields [of 18 "mm_memset0 nl 76 h"] unfolding m_def eq by simp
  have hd: "m (nl + 16 * i) = 0" if "i < 19" for i
  proof -
    have "nl + 16 * i \<noteq> nl + 16 * j + 8 \<and> nl + 16 * i \<noteq> nl + 16 * j + 28" for j by presburger
    then show ?thesis using zero [of "4 * i"] that by (simp add: m)
  qed
  have fl: "m (nl + 16 * i + 8) = nl + 16 * (i + 1)" if "i < 18" for i using that by (auto simp: m)
  have bl: "m (nl + 16 * i + 12) = nl + 16 * (i - 1)" if i: "0 < i" "i < 19" for i
  proof -
    obtain k where k: "i = Suc k" using i(1) by (metis gr0_conv_Suc)
    have "nl + 16 * i + 12 \<noteq> nl + 16 * j + 8" for j by presburger
    moreover have "nl + 16 * i + 12 = nl + 16 * k + 28" "k < 18" using k i by simp_all
    ultimately show ?thesis using k by (auto simp: m)
  qed
  have ends: "m (nl + 16 * 18 + 8) = 0" "m (nl + 12) = 0"
    using zero [of 74] zero [of 3] by (auto simp: m add.commute [of nl]) (presburger+)?
  show thesis
  proof (rule that)
    show "init_nodelist 18 (mm_memset0 (mm_nodelist h) 76 h) = h\<lparr>mem := m\<rparr>" using h1 nl_def by simp
    show "fseg m 0 (map (\<lambda>i. mm_nodelist h + 16 * i) [0..<19]) 0"
      using heads_seg [of nl m] fl ends bl assms by (simp add: nl_def)
  qed (use hd in \<open>auto simp: heads_def nl_def\<close>)
qed

lemma flist_heads:
  assumes "0 < mm_nodelist h" "0 < lo" "mm_nodelist h + 304 \<le> lo \<or> hi \<le> mm_nodelist h"
    "\<And>x. x \<in> heads (mm_nodelist h) \<Longrightarrow> mem h x = 0"
    "fseg (mem h) 0 (map (\<lambda>i. mm_nodelist h + 16 * i) [0..<19]) 0"
  shows "flist lo hi h {}"
proof -
  let ?L = "map (\<lambda>i. mm_nodelist h + 16 * i) [0..<19]"
  have "by_key (mm_nodelist h) (mem h) ?L"
    unfolding by_key_def sorted_wrt_map
    by (rule sorted_wrt_mono_rel [OF _ sorted_wrt_upt]) (auto simp: nkey_def heads_def power_increasing)
  moreover have "set ?L = heads (mm_nodelist h)" by (auto simp: heads_def)
  moreover have "distinct ?L" by (simp add: distinct_map inj_on_def)
  ultimately show ?thesis using assms by (auto simp: flist_def flist_as_def)
qed

lemma init_region:
  assumes lo: "0 < lo" "16 dvd lo" "16 dvd n" "16 \<le> n" "n + 32 < 2 ^ 31" "lo + n + 32 < 2 ^ 32"
    and nl: "0 < mm_nodelist h" "mm_nodelist h + 304 \<le> lo \<or> lo + n + 32 \<le> mm_nodelist h"
    and hd: "\<And>x. x \<in> heads (mm_nodelist h) \<Longrightarrow> mem h x = 0"
      "fseg (mem h) 0 (map (\<lambda>i. mm_nodelist h + 16 * i) [0..<19]) 0"
    and h': "mm_nodelist h' = mm_nodelist h" "mm_heapstart h' = lo" "mm_heapend h' = lo + n + 16"
      "mm_heapsize h' = n + 32"
      "mem h' = (mem h)(lo := 16, lo + 4 := MM_ALLOC_BIT, lo + 8 := a, lo + 12 := b, lo + 16 := n, lo + 20 := 16,
         lo + n + 16 := 16, lo + n + 20 := flagged True n, lo + n + 24 := d, lo + n + 28 := e)"
  shows "heap_as h' [(16, True), (n, False), (16, True)] {}"
proof -
  let ?r = "{lo..<lo + n + 32}"
  have out: "mem h' x = mem h x" if "x \<notin> ?r" for x using that assms(4) by (auto simp: h'(5))
  have hr: "x + i \<notin> ?r" if "x \<in> heads (mm_nodelist h)" "i < 16" for x i
    using heads_bounds [OF that(1)] that(2) nl(2) by auto
  have "fseg (mem h') 0 (map (\<lambda>i. mm_nodelist h + 16 * i) [0..<19]) 0"
    by (subst fseg_frame [where m = "mem h"]) (use hd(2) hr out in \<open>auto simp: heads_def\<close>)
  moreover have "mem h' x = 0" if "x \<in> heads (mm_nodelist h)" for x
    using out [of x] hr [OF that, of 0] hd(1) [OF that] by simp
  ultimately have "flist lo (lo + n + 32) h' {}"
    using flist_heads [of h' lo "lo + n + 32"] lo nl h'(1) by simp
  moreover have "region (mem h') 0 lo [(16, True), (n, False), (16, True)]"
    using lo by (simp add: h'(5) flagged_def)
  ultimately show ?thesis
    using assms(1-6) h'(2-4) by (simp add: heap_as_def guarded_def add.assoc add.commute [of n 32])
qed


lemma mm_addregion_post:
  assumes z: "z + 15 < 2 ^ 32" "z + sz < 2 ^ 32" "0 < z"
    and lo: "lo = (z + 15) div 16 * 16" "lo + n + 32 = (z + sz) div 16 * 16" "16 \<le> n" "n + 32 < 2 ^ 31"
    and nl: "0 < mm_nodelist h" "mm_nodelist h + 304 \<le> lo \<or> lo + n + 32 \<le> mm_nodelist h"
    and hd: "\<And>x. x \<in> heads (mm_nodelist h) \<Longrightarrow> mem h x = 0"
      "fseg (mem h) 0 (map (\<lambda>i. mm_nodelist h + 16 * i) [0..<19]) 0" and zero: "mm_heapsize h = 0"
  obtains h' where "mm_addregion c z sz h = Some h'" "heap_ok h' [(16, True), (n, False), (16, True)]"
    "mm_heapstart h' = lo" "mm_nodelist h' = mm_nodelist h" "total_alloc_size h' = total_alloc_size h"
proof -
  define p where "p = nat (take_bit 16 (ctx_pid c))"
  define h1 where "h1 = h\<lparr>mm_heapsize := n + 32, mm_heapstart := lo, mm_heapend := lo + n + 16,
    mem := (mem h)(lo := 16, lo + 4 := MM_ALLOC_BIT, lo + 8 := 0xDEAD, lo + 12 := p, lo + 16 := n, lo + 20 := 16,
         lo + n + 16 := 16, lo + n + 20 := flagged True n, lo + n + 24 := 0xDEADDEAD, lo + n + 28 := p)\<rparr>"
  have hi: "lo + n + 32 \<le> z + sz" "(z + sz) div 16 * 16 < 2 ^ 32" using lo(2) z(2) by simp_all
  have dv: "16 dvd lo" "16 dvd n"
  proof -
    show l: "16 dvd lo" by (simp add: lo(1))
    have "16 dvd lo + n + 32" by (simp add: lo(2))
    with l show "16 dvd n" by presburger
  qed
  have eq: "mm_addregion c z sz h = mm_addfreechunk (lo + 16) h1"
    using lo(3,4) hi z zero
    by (simp add: mm_addregion_def Let_def align_up align_down add32_small sub32_le flip: lo(1,2))
       (simp add: h1_def nd_defs heapinfo_update_node_def p_def flagged_def fun_upd_def sub32_le add.assoc add.commute mm_consts)
  have as: "heap_as h1 [(16, True), (n, False), (16, True)] {}"
    by (rule init_region [where h = h and lo = lo and n = n]) (use lo z hi dv nl hd in \<open>simp_all add: h1_def\<close>)
  have st: "mm_heapstart h1 = lo" by (simp add: h1_def)
  obtain h' where h': "mm_addfreechunk (lo + 16) h1 = Some h'"
    "heap_as h' [(16, True), (n, False), (16, True)] {lo + 16}" "relinked {lo + 16} h1 h'"
    by (rule heap_as_add [OF as, of "lo + 16"]) (auto simp: st)
  obtain m where "h' = h1\<lparr>mem := m\<rparr>" using h'(3) unfolding relinked_def by blast
  then have f: "mm_heapstart h' = lo" "mm_nodelist h' = mm_nodelist h" "total_alloc_size h' = total_alloc_size h"
    by (simp_all add: h1_def)
  then have "heap_ok h' [(16, True), (n, False), (16, True)]" using h'(2) by (simp add: heap_ok_def)
  with h'(1) eq f that show thesis by simp
qed


lemma mm_initialize_heap_post:
  assumes "z + 15 < 2 ^ 32" "z + sz < 2 ^ 32" "0 < z"
    "lo = (z + 15) div 16 * 16" "lo + n + 32 = (z + sz) div 16 * 16" "16 \<le> n" "n + 32 < 2 ^ 31"
    "0 < mm_nodelist h" "mm_nodelist h + 304 \<le> lo \<or> lo + n + 32 \<le> mm_nodelist h"
  obtains h' where "mm_initialize_heap c z sz h = Some h'" "heap_ok h' [(16, True), (n, False), (16, True)]"
    "mm_heapstart h' = lo" "mm_nodelist h' = mm_nodelist h" "total_alloc_size h' = total_alloc_size h"
proof -
  obtain m where m: "init_nodelist 18 (mm_memset0 (mm_nodelist h) 76 (h\<lparr>mm_heapsize := 0\<rparr>)) = h\<lparr>mm_heapsize := 0, mem := m\<rparr>"
    "\<And>x. x \<in> heads (mm_nodelist h) \<Longrightarrow> m x = 0" "fseg m 0 (map (\<lambda>i. mm_nodelist h + 16 * i) [0..<19]) 0"
    using init_heads [of "h\<lparr>mm_heapsize := 0\<rparr>"] assms(8) by auto
  have eq: "mm_initialize_heap c z sz h = mm_addregion c z sz (h\<lparr>mm_heapsize := 0, mem := m\<rparr>)"
    using m(1) by (simp add: mm_initialize_heap_def mm_consts)
  define h1 where "h1 = h\<lparr>mm_heapsize := 0, mem := m\<rparr>"
  have h1: "mm_nodelist h1 = mm_nodelist h" "mem h1 = m" "mm_heapsize h1 = 0" "total_alloc_size h1 = total_alloc_size h"
    by (simp_all add: h1_def)
  obtain h' where "mm_addregion c z sz h1 = Some h'" "heap_ok h' [(16, True), (n, False), (16, True)]"
    "mm_heapstart h' = lo" "mm_nodelist h' = mm_nodelist h1" "total_alloc_size h' = total_alloc_size h1"
    using mm_addregion_post [OF assms(1-7), of h1 c] assms(8,9) m(2,3) unfolding h1 by blast
  then show thesis using that eq h1 by (simp flip: h1_def)
qed

end
