(* ===== verification/Mm_Lock.thy ===== *)
theory Mm_Lock
  imports Sem_Timed Mm_Resize Mm_Init
begin

text \<open>
  The memory manager with its semaphore (mm_sem.c of src/os/mm/mm_heap): the recursive lock of the heap and the
  functions of the heap as callers see them, which take the lock, run a critical section of theory \<open>Mm_Heap\<close> and
  give the lock back. A task that has to wait for the lock gives \<open>Switched\<close>; its continuation is
  \<open>mm_takesemaphore_resume\<close>.
\<close>

section \<open>The lock of the heap\<close>

text \<open>The kernel with one heap; \<open>mm_semaphore\<close> is the address of the semaphore of the heap.\<close>

record mmstate = semstate +
  mm_semaphore :: addr
  mm_holder :: int
  mm_counts_held :: int
  g_mmheap :: mm_heap_s

definition mm_seminitialize :: "'z mmstate_scheme \<Rightarrow> 'z mmstate_scheme" where
  "mm_seminitialize s = (snd (sem_init (Some (mm_semaphore s)) 1 s))\<lparr>mm_holder := -1, mm_counts_held := 0\<rparr>"

definition mm_claim :: "int \<Rightarrow> 'z mmstate_scheme \<Rightarrow> 'z mmstate_scheme" where
  "mm_claim my_pid s = s\<lparr>mm_holder := my_pid, mm_counts_held := 1\<rparr>"

definition mm_trysemaphore :: "'z mmstate_scheme \<Rightarrow> (int \<times> 'z mmstate_scheme) option" where
  "mm_trysemaphore s =
     (let my_pid = getpid s
      in if mm_holder s = my_pid then Some (OK, s\<lparr>mm_counts_held := mm_counts_held s + 1\<rparr>)
         else do {
           (r, s) \<leftarrow> sem_trywait (Some (mm_semaphore s)) s;
           Some (if r \<noteq> 0 then (ERROR, s) else (OK, mm_claim my_pid s))
         })"

text \<open>The loop around \<open>sem_wait\<close>.\<close>

partial_function (option) take_loop :: "int \<Rightarrow> 'z mmstate_scheme \<Rightarrow> (unit outcome \<times> 'z mmstate_scheme) option" where
  "take_loop my_pid s = do {
     (r, s) \<leftarrow> sem_wait (Some (mm_semaphore s)) s;
     case r of
       Switched \<Rightarrow> Some (Switched, s)
     | Done e \<Rightarrow> if e \<noteq> 0 then do { ASSERT (get_errno s = EINTR); take_loop my_pid s }
                 else Some (Done (), mm_claim my_pid s)
   }"

definition mm_takesemaphore :: "'z mmstate_scheme \<Rightarrow> (unit outcome \<times> 'z mmstate_scheme) option" where
  "mm_takesemaphore s =
     (let my_pid = getpid s
      in if mm_holder s = my_pid then Some (Done (), s\<lparr>mm_counts_held := mm_counts_held s + 1\<rparr>)
         else take_loop my_pid s)"

definition mm_takesemaphore_resume :: "int \<Rightarrow> 'z mmstate_scheme \<Rightarrow> (unit outcome \<times> 'z mmstate_scheme) option" where
  "mm_takesemaphore_resume my_pid s = do {
     (r, s) \<leftarrow> sem_wait_resume s;
     case r of
       Switched \<Rightarrow> Some (Switched, s)
     | Done e \<Rightarrow> if e \<noteq> 0 then do { ASSERT (get_errno s = EINTR); take_loop my_pid s }
                 else Some (Done (), mm_claim my_pid s)
   }"

definition mm_givesemaphore :: "'z mmstate_scheme \<Rightarrow> (unit outcome \<times> 'z mmstate_scheme) option" where
  "mm_givesemaphore s = do {
     ASSERT (mm_holder s = getpid s);
     if mm_counts_held s > 1 then Some (Done (), s\<lparr>mm_counts_held := mm_counts_held s - 1\<rparr>)
     else do {
       let s = s\<lparr>mm_holder := -1, mm_counts_held := 0\<rparr>;
       (r, s) \<leftarrow> sem_post (Some (mm_semaphore s)) s;
       case r of
         Switched \<Rightarrow> Some (Switched, s)
       | Done e \<Rightarrow> do { ASSERT (e = 0); Some (Done (), s) }
     }
   }"

section \<open>The functions of the heap\<close>

text \<open>\<open>mm_andthen\<close> continues a function that was not switched away from.\<close>

definition mm_andthen :: "('a outcome \<times> 's) option \<Rightarrow> ('a \<Rightarrow> 's \<Rightarrow> ('b outcome \<times> 's) option) \<Rightarrow> ('b outcome \<times> 's) option" where
  "mm_andthen m f = do { (r, s) \<leftarrow> m; case r of Switched \<Rightarrow> Some (Switched, s) | Done v \<Rightarrow> f v s }"

definition mm_context :: "'z mmstate_scheme \<Rightarrow> mm_ctx" where
  "mm_context s = \<lparr>ctx_pid = (if current_regs s then -1 else getpid s), ctx_gettcb = (\<lambda>p. sched_gettcb p s)\<rparr>"

text \<open>A critical section: take the lock, change the heap, give the lock.\<close>

definition mm_locked :: "(mm_ctx \<Rightarrow> mm_heap_s \<Rightarrow> ('r \<times> mm_heap_s) option) \<Rightarrow> 'z mmstate_scheme
    \<Rightarrow> ('r outcome \<times> 'z mmstate_scheme) option" where
  "mm_locked f s =
     mm_andthen (mm_takesemaphore s) (\<lambda>_ s. do {
       (v, h) \<leftarrow> f (mm_context s) (g_mmheap s);
       mm_andthen (mm_givesemaphore (s\<lparr>g_mmheap := h\<rparr>)) (\<lambda>_ s. Some (Done v, s))
     })"

definition mm_malloc :: "nat \<Rightarrow> nat \<Rightarrow> 'z mmstate_scheme \<Rightarrow> (addr outcome \<times> 'z mmstate_scheme) option" where
  "mm_malloc sz caller_retaddr s =
     (if sz < 1 then Some (Done 0, s)
      else mm_locked (\<lambda>c. mm_malloc_locked c (MM_ALIGN_UP (add32 sz SIZEOF_MM_ALLOCNODE)) caller_retaddr) s)"

definition mm_free :: "addr \<Rightarrow> 'z mmstate_scheme \<Rightarrow> (unit outcome \<times> 'z mmstate_scheme) option" where
  "mm_free p s =
     (if p = 0 then Some (Done (), s)
      else mm_locked (\<lambda>c h. do { h \<leftarrow> mm_free_locked c p h; Some ((), h) }) s)"

text \<open>\<open>memset(p, 0, n)\<close>: whole words, then the lower bytes of the last word.\<close>

definition mm_memset_bytes :: "addr \<Rightarrow> nat \<Rightarrow> mm_heap_s \<Rightarrow> mm_heap_s" where
  "mm_memset_bytes p n h =
     (let h = mm_memset0 p (n div 4) h; a = p + 4 * (n div 4); r = 2 ^ (8 * (n mod 4))
      in if n mod 4 = 0 then h else store a (mem h a div r * r) h)"

definition mm_zalloc :: "nat \<Rightarrow> nat \<Rightarrow> 'z mmstate_scheme \<Rightarrow> (addr outcome \<times> 'z mmstate_scheme) option" where
  "mm_zalloc sz caller_retaddr s =
     mm_andthen (mm_malloc sz caller_retaddr s) (\<lambda>p s.
       Some (Done p, if p \<noteq> 0 then s\<lparr>g_mmheap := mm_memset_bytes p sz (g_mmheap s)\<rparr> else s))"

definition mm_calloc :: "nat \<Rightarrow> nat \<Rightarrow> nat \<Rightarrow> 'z mmstate_scheme \<Rightarrow> (addr outcome \<times> 'z mmstate_scheme) option" where
  "mm_calloc n elem_size caller_retaddr s =
     (if n > 0 \<and> elem_size > 0 then mm_zalloc (mul32 n elem_size) caller_retaddr s else Some (Done 0, s))"

text \<open>The end of \<open>mm_realloc\<close> when the chunk cannot be extended: a new chunk, a copy, the release of the old one.\<close>

definition realloc_move :: "addr \<Rightarrow> nat \<Rightarrow> nat \<Rightarrow> nat \<Rightarrow> 'z mmstate_scheme \<Rightarrow> (addr outcome \<times> 'z mmstate_scheme) option" where
  "realloc_move oldmem oldsize sz caller_retaddr s =
     mm_andthen (mm_malloc sz caller_retaddr s) (\<lambda>newmem s.
       if newmem \<noteq> 0
       then mm_andthen (mm_free oldmem (s\<lparr>g_mmheap := mm_memcpy newmem oldmem oldsize (g_mmheap s)\<rparr>))
              (\<lambda>_ s. Some (Done newmem, s))
       else Some (Done 0, s))"

definition mm_realloc :: "addr \<Rightarrow> nat \<Rightarrow> nat \<Rightarrow> 'z mmstate_scheme \<Rightarrow> (addr outcome \<times> 'z mmstate_scheme) option" where
  "mm_realloc oldmem sz caller_retaddr s =
     (if oldmem = 0 then mm_malloc sz caller_retaddr s
      else if sz < 1 then mm_andthen (mm_free oldmem s) (\<lambda>_ s. Some (Done 0, s))
      else mm_andthen
             (mm_locked (\<lambda>c h. do {
                let oldsize = nd_size h (oldmem - SIZEOF_MM_ALLOCNODE);
                (r, h) \<leftarrow> mm_realloc_locked c oldmem (MM_ALIGN_UP (add32 sz SIZEOF_MM_ALLOCNODE)) caller_retaddr h;
                Some ((r, oldsize), h)
              }) s)
             (\<lambda>(r, oldsize) s. case r of
                Some newmem \<Rightarrow> Some (Done newmem, s)
              | None \<Rightarrow> realloc_move oldmem oldsize sz caller_retaddr s))"

definition mm_memalign :: "nat \<Rightarrow> nat \<Rightarrow> nat \<Rightarrow> 'z mmstate_scheme \<Rightarrow> (addr outcome \<times> 'z mmstate_scheme) option" where
  "mm_memalign alignment sz caller_retaddr s =
     (if alignment \<le> MM_MIN_CHUNK then mm_malloc sz caller_retaddr s
      else let sz = MM_ALIGN_UP sz; allocsize = add32 sz (mul32 2 alignment)
           in mm_andthen (mm_malloc allocsize caller_retaddr s) (\<lambda>rawchunk s.
                if rawchunk = 0 then Some (Done 0, s)
                else mm_locked (\<lambda>c. mm_memalign_locked c alignment sz allocsize rawchunk caller_retaddr) s))"

definition mm_initialize :: "addr \<Rightarrow> nat \<Rightarrow> 'z mmstate_scheme \<Rightarrow> 'z mmstate_scheme option" where
  "mm_initialize heapstart heapsize s = do {
     let s = mm_seminitialize s;
     h \<leftarrow> mm_initialize_heap (mm_context s) heapstart heapsize (g_mmheap s);
     Some (s\<lparr>g_mmheap := h\<rparr>)
   }"

definition MIN_EXTEND :: nat where "MIN_EXTEND = 2 * SIZEOF_MM_ALLOCNODE"

definition mm_extend :: "addr \<Rightarrow> nat \<Rightarrow> int \<Rightarrow> 'z mmstate_scheme \<Rightarrow> (unit outcome \<times> 'z mmstate_scheme) option" where
  "mm_extend p sz reg s = do {
     ASSERT (p \<noteq> 0);
     ASSERT (sz \<ge> MIN_EXTEND \<and> reg = 0);
     ASSERT (MM_ALIGN_UP p = p);
     ASSERT (MM_ALIGN_DOWN (add32 p sz) = add32 p sz);
     mm_andthen (mm_locked (\<lambda>c h. do { h \<leftarrow> mm_extend_locked p sz h; Some ((), h) }) s) (\<lambda>_ s. mm_free p s)
   }"

definition mm_mallinfo :: "'z mmstate_scheme \<Rightarrow> (mallinfo outcome \<times> 'z mmstate_scheme) option" where
  "mm_mallinfo s =
     mm_andthen
       (mm_locked (\<lambda>c h. do {
          v \<leftarrow> mallinfo_loop h (mm_heapstart h) \<lparr>arena = 0, ordblks = 0, mxordblk = 0, uordblks = 0, fordblks = 0\<rparr>;
          Some (v, h)
        }) s)
       (\<lambda>(node, i) s. do { i \<leftarrow> mallinfo_finish node i (g_mmheap s); Some (Done i, s) })"

definition mm_brkaddr :: "int \<Rightarrow> 'z mmstate_scheme \<Rightarrow> addr option" where
  "mm_brkaddr reg s = do {
     ASSERT (reg = 0);
     let brkaddr = mm_heapend (g_mmheap s);
     Some (if brkaddr \<noteq> 0 then brkaddr + SIZEOF_MM_ALLOCNODE else 0)
   }"


section \<open>The lock is free again after each critical section\<close>

text \<open>A post to a semaphore nobody waits for returns at once and moves no task.\<close>

lemma dropholder_obs [simp]:
  "tcbs (sem_dropholder t sem s) = tcbs s" "lists (sem_dropholder t sem s) = lists s"
  "current_regs (sem_dropholder t sem s) = current_regs s" "g_pidhash (sem_dropholder t sem s) = g_pidhash s"
  "g_pidhash (sem_releaseholder sem s) = g_pidhash s"
  by (auto simp: sem_dropholder_def sem_freeholder_def sem_releaseholder_def Let_def split: option.split)

lemma upd_tcb_twice:
  "upd_tcb t f (upd_tcb t g s) = upd_tcb t (\<lambda>b. f (g b)) s"
  "upd_tcb t f (sem_dropholder r sem (upd_tcb t g s)) = (sem_dropholder r sem (upd_tcb t g s))
     \<lparr>tcbs := (tcbs s)(t := f (g (tcbs s t)))\<rparr>"
  "upd_tcb t f (s\<lparr>tcbs := m\<rparr>) = s\<lparr>tcbs := m(t := f (m t))\<rparr>"
  by (simp_all add: upd_tcb_def)

lemma sem_post_free:
  assumes inv: "sem_inv idle s" and irq: "\<not> current_regs s" and lock: "lockcount (tcbs s (hd (g_readytorun s))) < MAX_LOCK_COUNT"
    and c: "0 \<le> semcount (sems s sem)" "semcount (sems s sem) < SEM_VALUE_MAX"
  obtains s' where "sem_post (Some sem) s = Some (Done OK, s')" "sem_inv idle s'" "semcount (sems s' sem) = semcount (sems s sem) + 1"
    "semstate.more s' = semstate.more s" "lists s' = lists s" "current_regs s' = current_regs s" "g_pidhash s' = g_pidhash s"
    "\<forall>t. pid (tcbs s' t) = pid (tcbs s t) \<and> lockcount (tcbs s' t) = lockcount (tcbs s t)"
proof -
  have sc: "sched_inv idle s" using inv by (simp add: sem_inv_def sem_core_def)
  obtain rt ts where r: "g_readytorun s = rt # ts"
    using sc core_ready(1) by (cases "g_readytorun s") (auto simp: sched_inv_def)
  have n: "0 \<le> lockcount (tcbs s t)" for t using sc by (simp add: sched_inv_def core_defs)
  define s2 where "s2 = add_count sem 1 (sem_releaseholder sem s)"
  define s3 where "s3 = upd_tcb rt (\<lambda>b. b\<lparr>lockcount := lockcount (tcbs s rt) + 1\<rparr>) s2"
  define s4 where "s4 = upd_tcb rt (\<lambda>b. b\<lparr>lockcount := lockcount (tcbs s rt)\<rparr>) (sem_dropholder rt sem s3)"
  have rng: "-32768 \<le> semcount (sems s sem)" using inv waits_ok_range by (auto simp: sem_inv_def)
  have l3: "sched_lock s2 = Some s3"
    using sched_lock_eq [of s2] irq r lock by (simp add: s2_def s3_def)
  have cnt: "semcount (sems s3 sem) = semcount (sems s sem) + 1" using rng c by (simp add: s3_def s2_def SEM_VALUE_MAX_def)
  have w: "sem_wakeup sem s3 = Some ((None, False), s3)" using c cnt by (simp add: sem_wakeup_def)
  have rb: "sem_restorebaseprio None sem s3 = Some (Done 0, sem_dropholder rt sem s3)"
    using c cnt irq r by (simp add: sem_restorebaseprio_def sem_restorebaseprio_task_def this_task_def s3_def s2_def)
  have pend: "g_pendingtasks s = []" if "lockcount (tcbs s rt) = 0" using sc that r by (auto simp: sched_inv_def pend_ok_def)
  have u: "sched_unlock (sem_dropholder rt sem s3) = Some (Done OK, s4)"
    using irq r n [of rt] pend
    by (cases "lockcount (tcbs s rt) = 0") (auto simp: sched_unlock_def s4_def s3_def s2_def Let_def sched_unlock_rr_def this_task_def upd_tcb_twice)
  have post: "sem_post (Some sem) s = Some (Done OK, s4)"
    using c l3 w rb u by (simp add: sem_post_def s2_def [symmetric] sem_post_unlock_def)
  obtain s' r where "sem_post (Some sem) s = Some (r, s')" "sem_inv idle s'" "semcount (sems s' sem) = semcount (sems s sem) + 1"
    "semstate.more s' = semstate.more s"
    using sem_post_post [OF inv _ c(2)] lock by blast
  with post show thesis
    by (intro that [of s4]) (auto simp: s4_def s3_def s2_def)
qed


text \<open>The running task is not the idle task and may take the lock, which nobody holds.\<close>

definition mm_unlocked :: "addr \<Rightarrow> 'z mmstate_scheme \<Rightarrow> bool" where
  "mm_unlocked idle s =
     (sem_inv idle s \<and> \<not> current_regs s \<and> hd (g_readytorun s) \<noteq> idle
      \<and> lockcount (tcbs s (hd (g_readytorun s))) < MAX_LOCK_COUNT \<and> getpid s \<noteq> -1
      \<and> semcount (sems s (mm_semaphore s)) = 1 \<and> mm_holder s = -1 \<and> mm_counts_held s = 0)"

lemma sem_taken_obs [simp]:
  "lists (sem_taken rt sem s) = lists s" "current_regs (sem_taken rt sem s) = current_regs s"
  "g_pidhash (sem_taken rt sem s) = g_pidhash s" "semstate.more (sem_taken rt sem s) = semstate.more s"
  "lockcount (tcbs (sem_taken rt sem s) t) = lockcount (tcbs s t)" "pid (tcbs (sem_taken rt sem s) t) = pid (tcbs s t)"
  by (simp_all add: sem_taken_def set_waitsem_def)

lemma getpid_cong: "lists s' = lists s \<Longrightarrow> (\<And>t. pid (tcbs s' t) = pid (tcbs s t)) \<Longrightarrow> getpid s' = getpid s"
  by (simp add: getpid_def this_task_def split: option.split)

lemma more_mm:
  "semstate.more s' = semstate.more s \<Longrightarrow> mm_semaphore s' = mm_semaphore s \<and> mm_holder s' = mm_holder s
     \<and> mm_counts_held s' = mm_counts_held s \<and> g_mmheap s' = g_mmheap s" for s s' :: "'z mmstate_scheme"
  by (cases s; cases s') simp

lemma sem_inv_mm [simp]:
  "sem_inv idle (s\<lparr>g_mmheap := h\<rparr>) = sem_inv idle s" "sem_inv idle (s\<lparr>mm_holder := i\<rparr>) = sem_inv idle s"
  "sem_inv idle (s\<lparr>mm_counts_held := i\<rparr>) = sem_inv idle s"
  by (rule sem_inv_cong; simp)+

lemma mm_unlocked_heap [simp]: "mm_unlocked idle (s\<lparr>g_mmheap := h\<rparr>) = mm_unlocked idle s"
  using getpid_cong [of "s\<lparr>g_mmheap := h\<rparr>" s] by (simp add: mm_unlocked_def)

text \<open>A critical section that succeeds is run with the lock held, and the lock is free again after it.\<close>

lemma mm_locked_post:
  assumes u: "mm_unlocked idle s" and f: "\<forall>c. \<exists>v h. f c (g_mmheap s) = Some (v, h) \<and> P v h"
  obtains v s' where "mm_locked f s = Some (Done v, s')" "P v (g_mmheap s')" "mm_unlocked idle s'"
    "getpid s' = getpid s" "lists s' = lists s"
proof -
  let ?sem = "mm_semaphore s" and ?rt = "hd (g_readytorun s)"
  note U = u [unfolded mm_unlocked_def]
  have inv: "sem_inv idle s" and rt: "?rt \<noteq> idle" and irq: "\<not> current_regs s" and c: "semcount (sems s ?sem) = 1" using U by auto
  define s1 where "s1 = sem_taken ?rt ?sem s"
  note t = sem_taken_post [OF inv refl rt, of ?sem]
  have t1: "sem_inv idle s1" "semcount (sems s1 ?sem) = 0" "sem_wait (Some ?sem) s = Some (Done OK, s1)"
    using t c irq by (simp_all add: s1_def)
  have m1: "mm_semaphore s1 = ?sem" "g_mmheap s1 = g_mmheap s" using more_mm [of s1 s] by (simp_all add: s1_def)
  have p1: "getpid s1 = getpid s" by (rule getpid_cong) (simp_all add: s1_def)
  define s2 where "s2 = mm_claim (getpid s) s1"
  have take: "mm_takesemaphore s = Some (Done (), s2)"
    using U t1(3) by (simp add: mm_takesemaphore_def Let_def take_loop.simps [of _ s] s2_def OK_def)
  have m2: "g_mmheap s2 = g_mmheap s" "mm_semaphore s2 = ?sem" using m1 by (simp_all add: s2_def mm_claim_def)
  obtain v h where v: "f (mm_context s2) (g_mmheap s2) = Some (v, h)" "P v h" using f m2(1) by metis
  define s3 where "s3 = s2\<lparr>g_mmheap := h, mm_holder := -1, mm_counts_held := 0\<rparr>"
  have i3: "sem_inv idle s3" using t1(1) unfolding s3_def s2_def mm_claim_def by simp
  have o3: "\<not> current_regs s3" "lockcount (tcbs s3 (hd (g_readytorun s3))) < MAX_LOCK_COUNT" "semcount (sems s3 ?sem) = 0"
    "lists s3 = lists s" "pid (tcbs s3 a) = pid (tcbs s a)" for a
    using U t1(2) by (simp_all add: s3_def s2_def mm_claim_def s1_def)
  obtain s' where s': "sem_post (Some ?sem) s3 = Some (Done OK, s')" "sem_inv idle s'" "semcount (sems s' ?sem) = semcount (sems s3 ?sem) + 1"
    "semstate.more s' = semstate.more s3" "lists s' = lists s3" "current_regs s' = current_regs s3" "g_pidhash s' = g_pidhash s3"
    "\<forall>t. pid (tcbs s' t) = pid (tcbs s3 t) \<and> lockcount (tcbs s' t) = lockcount (tcbs s3 t)"
    by (rule sem_post_free [OF i3 o3(1,2), of ?sem]) (simp_all add: o3(3) SEM_VALUE_MAX_def)
  have m': "mm_semaphore s' = ?sem" "mm_holder s' = -1" "mm_counts_held s' = 0" "g_mmheap s' = h"
    using more_mm [OF s'(4)] m2 by (simp_all add: s3_def)
  have p2: "getpid (s2\<lparr>g_mmheap := h\<rparr>) = getpid s"
    unfolding p1 [symmetric] by (rule getpid_cong) (simp_all add: s2_def mm_claim_def)
  have give: "mm_givesemaphore (s2\<lparr>g_mmheap := h\<rparr>) = Some (Done (), s')"
    using s'(1) p2 m2(2) by (simp add: mm_givesemaphore_def s3_def s2_def mm_claim_def OK_def)
  have run: "mm_locked f s = Some (Done v, s')" using take v(1) give by (simp add: mm_locked_def mm_andthen_def)
  have gp: "getpid s' = getpid s" by (rule getpid_cong) (use s'(5,8) o3 in simp_all)
  have "mm_unlocked idle s'"
    using U s' o3 m' gp by (simp add: mm_unlocked_def)
  with run v(2) m' gp s'(5) o3(4) show thesis by (intro that [of v s']) simp_all
qed

end
