(* ===== verification/Mm_Alloc.thy ===== *)
theory Mm_Alloc
  imports Mm_Lock
begin

text \<open>
  The memory manager as its callers see it. A heap is described by the blocks it has given out, pairs of an
  address and a size; \<open>mm_malloc\<close>, \<open>mm_free\<close> and \<open>mm_realloc\<close> change this set as the C standard says,
  keep the contents of all blocks and leave the lock free.
\<close>

section \<open>The blocks of a heap\<close>

definition blocks :: "addr \<Rightarrow> chunks \<Rightarrow> (addr \<times> nat) set" where
  "blocks lo cs = {(p, k). 16 \<le> p \<and> (p - 16, k + 16) \<in> allocs lo cs \<and> p \<noteq> lo + 16 \<and> p \<noteq> lo + bytes cs}"

lemma allocs_mem: "(a, n) \<in> allocs lo cs \<longleftrightarrow> (\<exists>xs ys. cs = xs @ (n, True) # ys \<and> a = lo + bytes xs)"
proof (induction lo cs rule: allocs.induct)
  case (2 lo m b cs)
  have "(\<exists>xs ys. (m, b) # cs = xs @ (n, True) # ys \<and> a = lo + bytes xs) \<longleftrightarrow>
      (m, b) = (n, True) \<and> a = lo \<or> (\<exists>xs ys. cs = xs @ (n, True) # ys \<and> a = lo + m + bytes xs)"
    by (auto simp: Cons_eq_append_conv add.assoc) (metis append_Cons bytes_simps(2) add.assoc)
  with 2 show ?case by auto
qed simp

lemma allocs_bounds: "gran cs \<Longrightarrow> (a, n) \<in> allocs lo cs \<Longrightarrow> lo \<le> a \<and> a + n \<le> lo + bytes cs \<and> 16 \<le> n \<and> 16 dvd n"
  by (auto simp: allocs_mem)

lemma allocs_disjoint:
  assumes "gran cs" "(a, n) \<in> allocs lo cs" "(b, m) \<in> allocs lo cs"
  shows "(a, n) = (b, m) \<or> a + n \<le> b \<or> b + m \<le> a"
  using assms
proof (induction lo cs rule: allocs.induct)
  case (2 lo k f cs)
  have "lo + k \<le> x \<and> x + y \<le> lo + k + bytes cs" if "(x, y) \<in> allocs (lo + k) cs" for x y
    using allocs_bounds [of cs x y "lo + k"] "2.prems"(1) that by auto
  with 2 show ?case by (auto split: if_splits)
qed simp

lemma live_mem: "x \<in> live lo cs \<longleftrightarrow> (\<exists>(a, n) \<in> allocs lo cs. a + 16 \<le> x \<and> x < a + n)"
  by (induction lo cs rule: live.induct) auto

lemma blocks_mem:
  assumes "gran cs"
  shows "(p, k) \<in> blocks lo cs \<longleftrightarrow> (\<exists>xs ys. cs = xs @ (k + 16, True) # ys \<and> xs \<noteq> [] \<and> (ys \<noteq> [] \<or> k \<noteq> 0) \<and> p = lo + bytes xs + 16)"
proof -
  have pos: "bytes zs = 0 \<longleftrightarrow> zs = []" if "gran zs" for zs using that by (cases zs) auto
  show ?thesis
    using assms pos by (fastforce simp: blocks_def allocs_mem)
qed


text \<open>What the representation says of the blocks.\<close>

lemma heap_ok_gran:
  assumes "heap_ok h cs"
  shows "gran cs" "guarded cs" "16 dvd mm_heapstart h" "0 < mm_heapstart h" "mm_heapstart h + bytes cs < 2 ^ 32"
  using assms by (auto simp: heap_ok_def heap_as_def flist_def flist_as_def)

lemma blocks_disjoint:
  assumes "gran cs" "(p, k) \<in> blocks lo cs" "(q, l) \<in> blocks lo cs" "(p, k) \<noteq> (q, l)"
  shows "p + k + 16 \<le> q \<or> q + l + 16 \<le> p"
proof -
  have "16 \<le> p" "16 \<le> q" "(p - 16, k + 16) \<in> allocs lo cs" "(q - 16, l + 16) \<in> allocs lo cs"
    using assms(2,3) by (simp_all add: blocks_def)
  moreover from allocs_disjoint [OF assms(1) this(3,4)] have "p - 16 = q - 16 \<and> k = l \<or> p - 16 + (k + 16) \<le> q - 16 \<or> q - 16 + (l + 16) \<le> p - 16"
    by simp
  ultimately show ?thesis using assms(4) by auto
qed

lemma blocks_live:
  assumes "guarded cs" "gran cs"
  shows "x \<in> live lo cs \<longleftrightarrow> (\<exists>p k. (p, k) \<in> blocks lo cs \<and> p \<le> x \<and> x < p + k)"
proof -
  obtain zs where cs: "cs = (16, True) # zs @ [(16, True)]"
    using assms(1) by (cases cs; cases "tl cs" rule: rev_cases) (auto simp: guarded_def)
  show ?thesis
  proof
    assume "x \<in> live lo cs"
    then obtain a n where a: "(a, n) \<in> allocs lo cs" "a + 16 \<le> x" "x < a + n" unfolding live_mem by blast
    have b: "16 \<le> n" "lo \<le> a" "a + n \<le> lo + bytes cs" using allocs_bounds [OF assms(2) a(1)] by auto
    have "(lo, 16) \<in> allocs lo cs" unfolding cs by simp
    with a b allocs_disjoint [OF assms(2) a(1), of lo 16] have "a \<noteq> lo" by auto
    moreover have "a + 16 \<noteq> lo + bytes cs" "n - 16 + 16 = n" using a b by linarith+
    ultimately have "(a + 16, n - 16) \<in> blocks lo cs" using a(1) by (simp add: blocks_def)
    moreover have "x < a + 16 + (n - 16)" using a(3) b(1) by simp
    ultimately show "\<exists>p k. (p, k) \<in> blocks lo cs \<and> p \<le> x \<and> x < p + k" using a(2) by blast
  next
    assume "\<exists>p k. (p, k) \<in> blocks lo cs \<and> p \<le> x \<and> x < p + k"
    then obtain p k where "16 \<le> p" "(p - 16, k + 16) \<in> allocs lo cs" "p \<le> x" "x < p + k" by (auto simp: blocks_def)
    moreover from this have "p - 16 + 16 \<le> x" "x < p - 16 + (k + 16)" by linarith+
    ultimately show "x \<in> live lo cs" unfolding live_mem by blast
  qed
qed

lemma blocks_insert:
  assumes "allocs lo cs' = insert (a, n) (allocs lo cs)" "bytes cs' = bytes cs" "16 \<le> n" "a \<noteq> lo" "a + 16 \<noteq> lo + bytes cs"
  shows "blocks lo cs' = insert (a + 16, n - 16) (blocks lo cs)"
proof (rule set_eqI, clarify)
  fix p k
  have "16 \<le> p \<and> p - 16 = a \<and> k + 16 = n \<longleftrightarrow> p = a + 16 \<and> k = n - 16" using assms(3) by arith
  then show "(p, k) \<in> blocks lo cs' \<longleftrightarrow> (p, k) \<in> insert (a + 16, n - 16) (blocks lo cs)"
    using assms unfolding blocks_def by (simp only: mem_Collect_eq prod.case insert_iff prod.inject) (metis add_right_cancel)
qed

lemma block_chunk:
  assumes ok: "heap_ok h cs" and p: "(p, k) \<in> blocks (mm_heapstart h) cs"
  obtains xs ys where "cs = xs @ (k + 16, True) # ys" "xs \<noteq> []" "ys \<noteq> []" "p = mm_heapstart h + bytes xs + 16" "16 dvd p" "16 dvd k"
proof -
  note g = heap_ok_gran [OF ok]
  obtain xs ys where x: "cs = xs @ (k + 16, True) # ys" "xs \<noteq> []" "ys \<noteq> [] \<or> k \<noteq> 0" "p = mm_heapstart h + bytes xs + 16"
    using p blocks_mem [OF g(1)] by blast
  have "last cs = (16, True)" using g(2) by (simp add: guarded_def)
  then have "ys \<noteq> []" using x(1,3) by auto
  moreover have "16 dvd bytes xs" using g(1) x(1) by (intro gran_bytes) simp
  moreover have "16 dvd k" using g(1) x(1) by (simp add: dvd_add_left_iff)
  ultimately show thesis using that x g(3) by simp
qed

text \<open>The chunk at an address is determined.\<close>

lemma bytes_split_unique:
  assumes "xs @ c # ys = us @ d # vs" "bytes xs = bytes us" "gran (xs @ c # ys)"
  shows "c = d"
  using assms
proof (induction xs arbitrary: us)
  case Nil
  then show ?case by (cases us; cases c) auto
next
  case (Cons x xs)
  then show ?case by (cases us; cases x) auto
qed

section \<open>Allocating and releasing\<close>

text \<open>The size of the chunk for a request.\<close>

lemma chunk_size:
  assumes "sz + 31 < 2 ^ 32"
  shows "MM_ALIGN_UP (add32 sz SIZEOF_MM_ALLOCNODE) = (sz + 31) div 16 * 16"
  using assms align_up [of "sz + 16"] by (simp add: add32_small mm_consts)

lemma chunk_payload: "(sz + 31) div 16 * 16 - 16 = (sz + 15) div 16 * 16" for sz :: nat
  using div_add_self2 [of 16 "sz + 15"] by (simp add: add.assoc)

lemma chunk_fits: "16 dvd k \<Longrightarrow> (sz + 31) div 16 * 16 \<le> k \<longleftrightarrow> sz + 16 \<le> k" for k sz :: nat
  by auto

definition same_blocks :: "(addr \<times> nat) set \<Rightarrow> mm_heap_s \<Rightarrow> mm_heap_s \<Rightarrow> bool" where
  "same_blocks B h h' = (\<forall>p k a. (p, k) \<in> B \<longrightarrow> p \<le> a \<longrightarrow> a < p + k \<longrightarrow> mem h' a = mem h a)"

lemma malloc_blocks:
  fixes sz :: nat
  assumes ok: "heap_ok h cs"
  defines "n \<equiv> (sz + 31) div 16 * 16"
  obtains
    (none) "mm_malloc_locked c n ra h = Some (0, h)" "\<forall>(k, b) \<in> set cs. b \<or> k < sz + 16"
  | (some) xs k ys h' where "cs = xs @ (k, False) # ys" "sz + 16 \<le> k" "\<forall>(k', b) \<in> set cs. b \<or> k' < sz + 16 \<or> k \<le> k'"
      "mm_malloc_locked c n ra h = Some (mm_heapstart h + bytes xs + 16, h')" "xs \<noteq> []" "ys \<noteq> []"
      "heap_ok h' (xs @ taken n k @ ys)" "mm_heapstart h' = mm_heapstart h" "n \<le> k"
      "blocks (mm_heapstart h) (xs @ taken n k @ ys) = insert (mm_heapstart h + bytes xs + 16, n - 16) (blocks (mm_heapstart h) cs)"
      "same_blocks (blocks (mm_heapstart h) cs) h h'" "total_alloc_size h' = total_alloc_size h + int n"
proof -
  note g = heap_ok_gran [OF ok]
  have n: "16 dvd n" "16 \<le> n" by (auto simp: n_def)
  have lt: "k < n \<longleftrightarrow> k < sz + 16" if "(k, b) \<in> set cs" for k b
    using chunk_fits [of k sz] g(1) that by (fastforce simp: gran_def n_def)
  show thesis
  proof (cases rule: mm_malloc_locked_post [OF ok n, of c ra])
    case 1
    show thesis by (rule that(1)) (use 1 lt in fastforce)+
  next
    case some: (2 xs k ys h')
    have xy: "xs \<noteq> []" "ys \<noteq> []" using guarded_middle g(2) some(1) by blast+
    have gr: "gran xs" "gran ys" "16 \<le> k" using g(1) some(1) by auto
    then have pos: "0 < bytes xs" "0 < bytes ys" using xy by (cases xs; cases ys; force)+
    have "allocs (mm_heapstart h) (xs @ taken n k @ ys) = insert (mm_heapstart h + bytes xs, n) (allocs (mm_heapstart h) cs)"
      using some(2) by (auto simp: some(1) taken_def add.assoc)
    then have "blocks (mm_heapstart h) (xs @ taken n k @ ys) = insert (mm_heapstart h + bytes xs + 16, n - 16) (blocks (mm_heapstart h) cs)"
      by (rule blocks_insert) (use n pos gr some(1,2) in auto)
    moreover have "same_blocks (blocks (mm_heapstart h) cs) h h'"
      using some(6) blocks_live [OF g(2,1)] unfolding same_blocks_def by blast
    moreover have "fst (hd (taken n k)) = n" by (simp add: taken_def)
    moreover have "sz + 16 \<le> k" using some(1,2) lt [of k False] by auto
    moreover have "\<forall>(k', b) \<in> set cs. b \<or> k' < sz + 16 \<or> k \<le> k'" using some(3) lt by fastforce
    ultimately show thesis by (intro that(2) [of xs k ys h']) (use some xy in simp_all)
  qed
qed


lemma allocs_released:
  assumes "xs \<noteq> []"
  shows "allocs lo (released xs n ys) = allocs lo (xs @ (n, False) # ys)" "bytes (released xs n ys) = bytes (xs @ (n, False) # ys)"
proof -
  obtain n' ys' where a: "absorb n ys = (n', ys')" by fastforce
  have b: "n' + bytes ys' = n + bytes ys" using a by (auto simp: absorb_def split: list.splits bool.splits)
  obtain zs m f where xs: "xs = zs @ [(m, f)]" using assms by (metis rev_exhaust surj_pair)
  show "allocs lo (released xs n ys) = allocs lo (xs @ (n, False) # ys)"
    using allocs_absorb [OF a, of "lo + bytes zs + m"] by (auto simp: released_def a xs add.assoc)
  show "bytes (released xs n ys) = bytes (xs @ (n, False) # ys)" using b by (simp add: released_def a xs)
qed

lemma free_blocks:
  assumes ok: "heap_ok h cs" and p: "(p, k) \<in> blocks (mm_heapstart h) cs"
  obtains h' cs' where "mm_free_locked c p h = Some h'" "heap_ok h' cs'" "mm_heapstart h' = mm_heapstart h"
    "blocks (mm_heapstart h) cs' = blocks (mm_heapstart h) cs - {(p, k)}"
    "same_blocks (blocks (mm_heapstart h) cs - {(p, k)}) h h'" "total_alloc_size h' = total_alloc_size h - int (k + 16)"
proof -
  let ?lo = "mm_heapstart h"
  obtain xs ys where cs: "cs = xs @ (k + 16, True) # ys" "xs \<noteq> []" "ys \<noteq> []" "p = ?lo + bytes xs + 16" "16 dvd p" "16 dvd k"
    by (rule block_chunk [OF ok p])
  have g: "gran cs" "guarded cs" using heap_ok_gran [OF ok] by auto
  define cs0 where "cs0 = xs @ (k + 16, False) # ys"
  obtain h' where h': "mm_free_locked c p h = Some h'" "heap_ok h' (released xs (k + 16) ys)"
    "\<forall>a \<in> live ?lo cs0. mem h' a = mem h a" "mm_heapstart h' = ?lo" "total_alloc_size h' = total_alloc_size h - int (k + 16)"
    using mm_free_locked_post [OF ok [unfolded cs(1)] cs(2-4)] cs0_def by metis
  have al: "allocs ?lo (released xs (k + 16) ys) = allocs ?lo cs0" "bytes (released xs (k + 16) ys) = bytes cs"
    using allocs_released [OF cs(2)] by (simp_all add: cs0_def cs(1))
  have b0: "bytes cs0 = bytes cs" "gran cs0" "guarded cs0"
    using g cs by (simp_all add: cs0_def guarded_def hd_append)
  have gx: "gran xs" "gran ys" using g(1) cs(1) by simp_all
  have pos: "0 < bytes xs" "0 < bytes ys" using gx cs(2,3) by (cases xs; cases ys; force)+
  have ins: "blocks ?lo cs = insert (p, k) (blocks ?lo cs0)"
    using blocks_insert [of ?lo cs "?lo + bytes xs" "k + 16" cs0] b0(1) pos cs(1,4) by (simp add: cs0_def)
  have "(p, k) \<notin> blocks ?lo cs0"
  proof
    assume "(p, k) \<in> blocks ?lo cs0"
    then have "(?lo + bytes xs, k + 16) \<in> allocs ?lo xs \<union> allocs (?lo + bytes xs + (k + 16)) ys"
      by (simp add: blocks_def cs0_def cs(4) add.assoc)
    then show False using allocs_bounds [OF gx(1)] allocs_bounds [OF gx(2)] by fastforce
  qed
  with ins have B: "blocks ?lo cs0 = blocks ?lo cs - {(p, k)}" by auto
  have "blocks ?lo (released xs (k + 16) ys) = blocks ?lo cs0" by (simp add: blocks_def al b0(1))
  moreover have "same_blocks (blocks ?lo cs0) h h'"
    using h'(3) blocks_live [OF b0(3,2)] unfolding same_blocks_def by blast
  ultimately show thesis using that [of h' "released xs (k + 16) ys"] h' B by simp
qed


section \<open>A heap of 4 KiB\<close>

definition ex_heap0 :: mm_heap_s where
  "ex_heap0 = \<lparr>mm_heapsize = 0, peak_alloc_size = 0, total_alloc_size = 0, mm_heapstart = 0, mm_heapend = 0,
     mm_nodelist = 1024, mem = (\<lambda>_. 0), tcb_curr_alloc_size = (\<lambda>_. 0), tcb_peak_alloc_size = (\<lambda>_. 0),
     tcb_num_alloc_free = (\<lambda>_. 0)\<rparr>"

definition ex_heap :: mm_heap_s where
  "ex_heap = the (mm_initialize_heap \<lparr>ctx_pid = 1, ctx_gettcb = (\<lambda>_. None)\<rparr> 4096 4096 ex_heap0)"

definition ex_mm :: mmstate where
  "ex_mm = semstate.extend (add_count 9 (-1) ex_sem)
     \<lparr>mm_semaphore = 9, mm_holder = -1, mm_counts_held = 0, g_mmheap = ex_heap\<rparr>"

lemma ex_heap_ok: "heap_ok ex_heap [(16, True), (4064, False), (16, True)]" "mm_heapstart ex_heap = 4096"
  "mm_initialize_heap \<lparr>ctx_pid = 1, ctx_gettcb = (\<lambda>_. None)\<rparr> 4096 4096 ex_heap0 = Some ex_heap"
proof -
  have nl: "mm_nodelist ex_heap0 = 1024" by (simp add: ex_heap0_def)
  obtain h where "mm_initialize_heap \<lparr>ctx_pid = 1, ctx_gettcb = (\<lambda>_. None)\<rparr> 4096 4096 ex_heap0 = Some h"
    "heap_ok h [(16, True), (4064, False), (16, True)]" "mm_heapstart h = 4096"
    by (rule mm_initialize_heap_post [of 4096 4096 4096 4064 ex_heap0]) (simp_all add: nl)
  then show "heap_ok ex_heap [(16, True), (4064, False), (16, True)]" "mm_heapstart ex_heap = 4096"
    "mm_initialize_heap \<lparr>ctx_pid = 1, ctx_gettcb = (\<lambda>_. None)\<rparr> 4096 4096 ex_heap0 = Some ex_heap"
    by (simp_all add: ex_heap_def)
qed

lemma ex_mm_fields [simp]:
  "tcbs ex_mm = tcbs ex_sem" "lists ex_mm = lists ex_sem" "sems ex_mm = sems (add_count 9 (-1) ex_sem)" "holders ex_mm = holders ex_sem"
  "g_freeholders ex_mm = g_freeholders ex_sem" "g_pidhash ex_mm = g_pidhash ex_sem" "\<not> current_regs ex_mm"
  "mm_semaphore ex_mm = 9" "mm_holder ex_mm = -1" "mm_counts_held ex_mm = 0" "g_mmheap ex_mm = ex_heap"
  by (simp_all add: ex_mm_def semstate.defs add_count_def upd_sem_def) (simp add: ex_sem_def)

lemma ex_mm_unlocked: "mm_unlocked 0 ex_mm"
proof -
  let ?s = "add_count 9 (-1) ex_sem"
  have c: "semcount (sems ?s 9) = 1" by (simp add: ex_sem_def int16_id)
  have "sem_core 0 ?s" using ex_sem_inv by (simp add: sem_inv_def sem_core_add_count)
  moreover have "waits_ok ?s"
    by (rule waits_ok_recount [of ex_sem 9 1]) (use ex_sem_inv c in \<open>simp_all add: sem_inv_def SEM_VALUE_MAX_def\<close>, simp_all add: ex_sem_def)
  moreover have "sem_inv 0 ex_mm = sem_inv 0 ?s" by (rule sem_inv_cong) (simp_all add: add_count_def upd_sem_def)
  ultimately show ?thesis using c
    by (simp add: mm_unlocked_def sem_inv_def getpid_def this_task_def) (simp add: ex_sem_def zero_tcb_def MAX_LOCK_COUNT_def)
qed


section \<open>Properties of allocation and release\<close>

abbreviation heapbase :: "'z mmstate_scheme \<Rightarrow> addr" where
  "heapbase s \<equiv> mm_heapstart (g_mmheap s)"

lemma malloc_eq:
  "1 \<le> sz \<Longrightarrow> sz + 31 < 2 ^ 32 \<Longrightarrow> mm_malloc sz ra s = mm_locked (\<lambda>c. mm_malloc_locked c ((sz + 31) div 16 * 16) ra) s"
  by (simp add: mm_malloc_def chunk_size)

lemma malloc_run:
  assumes u: "mm_unlocked idle s" and ok: "heap_ok (g_mmheap s) cs"
  defines "run \<equiv> \<lambda>sz ra. mm_locked (\<lambda>c. mm_malloc_locked c ((sz + 31) div 16 * 16) ra) s"
  obtains
    (none) s' where "run sz ra = Some (Done 0, s')" "mm_unlocked idle s'" "g_mmheap s' = g_mmheap s"
      "\<forall>(k, b) \<in> set cs. b \<or> k < sz + 16"
  | (some) xs k ys q s' cs' where "run sz ra = Some (Done q, s')" "mm_unlocked idle s'" "heapbase s' = heapbase s"
      "heap_ok (g_mmheap s') cs'" "blocks (heapbase s) cs' = insert (q, (sz + 15) div 16 * 16) (blocks (heapbase s) cs)"
      "same_blocks (blocks (heapbase s) cs) (g_mmheap s) (g_mmheap s')" "\<forall>l. (q, l) \<notin> blocks (heapbase s) cs"
      "cs = xs @ (k, False) # ys" "sz + 16 \<le> k" "\<forall>(k', b) \<in> set cs. b \<or> k' < sz + 16 \<or> k \<le> k'" "q = heapbase s + bytes xs + 16"
proof -
  let ?n = "(sz + 31) div 16 * 16" and ?f = "\<lambda>c. mm_malloc_locked c ((sz + 31) div 16 * 16) ra"
  define Q where "Q q h' xs k ys cs' \<longleftrightarrow> mm_heapstart h' = heapbase s \<and> (\<forall>l. (q, l) \<notin> blocks (heapbase s) cs)
     \<and> heap_ok h' cs' \<and> blocks (heapbase s) cs' = insert (q, ?n - 16) (blocks (heapbase s) cs)
     \<and> same_blocks (blocks (heapbase s) cs) (g_mmheap s) h'
     \<and> cs = xs @ (k, False) # ys \<and> sz + 16 \<le> k \<and> (\<forall>(k', b) \<in> set cs. b \<or> k' < sz + 16 \<or> k \<le> k') \<and> q = heapbase s + bytes xs + 16"
    for q h' xs k ys cs'
  define P where "P q h' = (q = 0 \<and> h' = g_mmheap s \<and> (\<forall>(k, b) \<in> set cs. b \<or> k < sz + 16) \<or> (\<exists>xs k ys cs'. Q q h' xs k ys cs'))" for q h'
  have f: "\<exists>q h'. ?f c (g_mmheap s) = Some (q, h') \<and> P q h'" for c
  proof (cases rule: malloc_blocks [OF ok, of c sz ra])
    case 1
    then show ?thesis unfolding P_def by blast
  next
    case (2 xs k ys h')
    let ?q = "heapbase s + bytes xs + 16"
    have "(?q, l) \<notin> blocks (heapbase s) cs" for l
    proof
      assume "(?q, l) \<in> blocks (heapbase s) cs"
      then obtain us vs where "cs = us @ (l + 16, True) # vs" "bytes us = bytes xs"
        using blocks_mem [OF heap_ok_gran(1) [OF ok]] by auto
      then show False
        using bytes_split_unique [of xs "(k, False)" ys us "(l + 16, True)" vs] 2(1) heap_ok_gran(1) [OF ok] by simp
    qed
    then have "Q ?q h' xs k ys (xs @ taken ?n k @ ys)" unfolding Q_def using 2(1,2,3,7,8,10,11) by blast
    with 2(4) show ?thesis unfolding P_def by blast
  qed
  obtain q s' where r: "mm_locked ?f s = Some (Done q, s')" "P q (g_mmheap s')" "mm_unlocked idle s'"
    by (rule mm_locked_post [where f = ?f and P = P, OF u]) (use f in blast)+
  have run: "run sz ra = Some (Done q, s')" using r(1) by (simp add: run_def)
  from r(2) consider "q = 0" "g_mmheap s' = g_mmheap s" "\<forall>(k, b) \<in> set cs. b \<or> k < sz + 16" | xs k ys cs' where "Q q (g_mmheap s') xs k ys cs'"
    unfolding P_def by blast
  then show thesis
  proof cases
    case 1
    then show thesis using none [of s'] run r(3) by simp
  next
    case (2 xs k ys cs')
    then show thesis unfolding Q_def chunk_payload using some [of q s' cs' xs k ys] run r(3) by blast
  qed
qed

text \<open>
  C2. \<open>mm_malloc\<close> on a well-formed heap whose lock is free returns with the lock free and the heap well-formed, for
  every size that does not overflow. If some free chunk is large enough, the new block is cut from the smallest such
  chunk, is aligned to 16 bytes, has the requested size rounded up to 16 bytes and is disjoint from all blocks in use,
  which are unchanged together with their contents. Otherwise the result is \<open>NULL\<close> and the heap is unchanged.
\<close>

theorem mm_malloc_correct:
  assumes "mm_unlocked idle s" "heap_ok (g_mmheap s) cs" "1 \<le> sz" "sz + 31 < 2 ^ 32"
  shows "\<exists>p s' cs'. mm_malloc sz ra s = Some (Done p, s') \<and> mm_unlocked idle s' \<and> heap_ok (g_mmheap s') cs'
     \<and> heapbase s' = heapbase s
     \<and> (if \<exists>k. (k, False) \<in> set cs \<and> sz + 16 \<le> k
        then \<exists>xs k ys. cs = xs @ (k, False) # ys \<and> sz + 16 \<le> k
               \<and> (\<forall>k'. (k', False) \<in> set cs \<longrightarrow> sz + 16 \<le> k' \<longrightarrow> k \<le> k')
               \<and> p = heapbase s + bytes xs + 16 \<and> 16 dvd p
               \<and> blocks (heapbase s) cs' = insert (p, (sz + 15) div 16 * 16) (blocks (heapbase s) cs)
               \<and> (\<forall>q l. (q, l) \<in> blocks (heapbase s) cs \<longrightarrow> p + (sz + 15) div 16 * 16 \<le> q \<or> q + l \<le> p)
               \<and> same_blocks (blocks (heapbase s) cs) (g_mmheap s) (g_mmheap s')
        else p = 0 \<and> g_mmheap s' = g_mmheap s)"
proof (cases rule: malloc_run [OF assms(1,2), of sz ra])
  case (1 s')
  have no: "(\<exists>k. (k, False) \<in> set cs \<and> sz + 16 \<le> k) = False" using 1(4) by fastforce
  have "heapbase s' = heapbase s" "heap_ok (g_mmheap s') cs" using 1(3) assms(2) by simp_all
  with 1(1-3) show ?thesis unfolding no if_False malloc_eq [OF assms(3,4)] by blast
next
  case (2 xs k ys p s' cs')
  let ?lo = "heapbase s" and ?m = "(sz + 15) div 16 * 16"
  have ex: "(\<exists>k. (k, False) \<in> set cs \<and> sz + 16 \<le> k) = True" using 2(8,9) by auto
  have min: "\<forall>k'. (k', False) \<in> set cs \<longrightarrow> sz + 16 \<le> k' \<longrightarrow> k \<le> k'" using 2(10) by fastforce
  have gr: "gran cs'" by (rule heap_ok_gran(1) [OF 2(4)])
  have p: "(p, ?m) \<in> blocks ?lo cs'" by (simp add: 2(5))
  have dv: "16 dvd p" using block_chunk [OF 2(4), of p ?m] p 2(3) by metis
  have "p + ?m \<le> q \<or> q + l \<le> p" if q: "(q, l) \<in> blocks ?lo cs" for q l
    using blocks_disjoint [OF gr p, of q l] q 2(7) unfolding 2(5) by fastforce
  with 2 min dv show ?thesis unfolding ex if_True malloc_eq [OF assms(3,4)] by blast
qed

text \<open>The heap of 4 KiB gives out 100 bytes.\<close>

lemma ex_heap_split:
  assumes "[(16, True), (4064, False), (16, True)] = xs @ (k, False) # ys"
  shows "xs = [(16 :: nat, True)]"
proof (cases xs)
  case (Cons x zs)
  with assms show ?thesis by (cases zs; cases "tl zs") auto
qed (use assms in simp)

theorem mm_malloc_correct_witness:
  "\<exists>p s' cs'. mm_malloc 100 0 ex_mm = Some (Done p, s') \<and> p = 4128 \<and> heap_ok (g_mmheap s') cs' \<and> (p, 112) \<in> blocks 4096 cs'"
proof -
  let ?cs = "[(16, True), (4064, False), (16, True)] :: chunks"
  have fits: "(\<exists>k. (k, False) \<in> set ?cs \<and> 100 + 16 \<le> k) = True" by auto
  obtain p s' cs' xs k ys where "mm_malloc 100 0 ex_mm = Some (Done p, s')" "heap_ok (g_mmheap s') cs'"
    "?cs = xs @ (k, False) # ys" "p = 4096 + bytes xs + 16" "blocks 4096 cs' = insert (p, 112) (blocks 4096 ?cs)"
    using mm_malloc_correct [of 0 ex_mm ?cs 100 0, unfolded fits if_True] ex_mm_unlocked ex_heap_ok by auto
  then show ?thesis using ex_heap_split by force
qed


lemma free_run:
  assumes "mm_unlocked idle s" "heap_ok (g_mmheap s) cs" "(p, k) \<in> blocks (heapbase s) cs"
  shows "\<exists>s' cs'. mm_free p s = Some (Done (), s') \<and> mm_unlocked idle s' \<and> heap_ok (g_mmheap s') cs' \<and> heapbase s' = heapbase s
     \<and> blocks (heapbase s) cs' = blocks (heapbase s) cs - {(p, k)}
     \<and> same_blocks (blocks (heapbase s) cs - {(p, k)}) (g_mmheap s) (g_mmheap s')
     \<and> total_alloc_size (g_mmheap s') = total_alloc_size (g_mmheap s) - int (k + 16)"
proof -
  let ?h = "g_mmheap s" and ?B = "blocks (heapbase s) cs - {(p, k)}"
  let ?f = "\<lambda>c h. do { h \<leftarrow> mm_free_locked c p h; Some ((), h) }"
  define P where "P (u :: unit) h' = (\<exists>cs'. heap_ok h' cs' \<and> mm_heapstart h' = heapbase s \<and> blocks (heapbase s) cs' = ?B
     \<and> same_blocks ?B ?h h' \<and> total_alloc_size h' = total_alloc_size ?h - int (k + 16))" for u h'
  have f: "\<exists>u h'. ?f c ?h = Some (u, h') \<and> P u h'" for c
    by (rule free_blocks [OF assms(2,3), of c]) (auto simp: P_def)
  obtain s' where r: "mm_locked ?f s = Some (Done (), s')" "P () (g_mmheap s')" "mm_unlocked idle s'"
    by (rule mm_locked_post [where f = ?f and P = P, OF assms(1)]) (use f in auto)
  have "0 < p" using assms(3) by (simp add: blocks_def)
  then have "mm_free p s = Some (Done (), s')" using r(1) by (simp add: mm_free_def)
  with r(2,3) show ?thesis unfolding P_def by blast
qed

text \<open>
  C8. \<open>mm_free\<close> of a block in use returns with the lock free and a well-formed heap, in which free neighbours are
  merged. Exactly this block is no longer in use, all other blocks keep their contents, and the size accounted for is
  reduced by the size of the block and its header.
\<close>

theorem mm_free_correct:
  assumes "mm_unlocked idle s" "heap_ok (g_mmheap s) cs" "(p, k) \<in> blocks (heapbase s) cs"
  shows "\<exists>s' cs'. mm_free p s = Some (Done (), s') \<and> mm_unlocked idle s' \<and> heap_ok (g_mmheap s') cs' \<and> heapbase s' = heapbase s
     \<and> blocks (heapbase s) cs' = blocks (heapbase s) cs - {(p, k)}
     \<and> same_blocks (blocks (heapbase s) cs - {(p, k)}) (g_mmheap s) (g_mmheap s')
     \<and> total_alloc_size (g_mmheap s') = total_alloc_size (g_mmheap s) - int (k + 16)"
  by (rule free_run [OF assms])

text \<open>The heap after an allocation of 112 bytes at 4128.\<close>

definition ex_heap1 :: mm_heap_s where
  "ex_heap1 = snd (the (mm_malloc_locked (mm_context ex_mm) 128 0 ex_heap))"

lemma ex_heap1_ok: "heap_ok ex_heap1 [(16, True), (128, True), (3936, False), (16, True)]" "mm_heapstart ex_heap1 = 4096"
proof -
  obtain xs k ys where "[(16, True), (4064, False), (16, True)] = xs @ (k, False) # ys"
    "heap_ok ex_heap1 (xs @ taken 128 k @ ys)" "mm_heapstart ex_heap1 = 4096"
    by (rule mm_malloc_locked_post [OF ex_heap_ok(1), of 128 "mm_context ex_mm" 0])
       (use ex_heap_ok(2) in \<open>simp_all add: ex_heap1_def\<close>)
  moreover from ex_heap_split [OF this(1)] this(1) have "xs = [(16, True)]" "k = 4064" "ys = [(16, True)]" by simp_all
  ultimately show "heap_ok ex_heap1 [(16, True), (128, True), (3936, False), (16, True)]" "mm_heapstart ex_heap1 = 4096"
    by (simp_all add: taken_def)
qed

lemma ex_block: "(4128, 112) \<in> blocks 4096 [(16, True), (128, True), (3936, False), (16, True)]"
  by (simp add: blocks_def)

theorem mm_free_correct_witness:
  "\<exists>s' cs'. mm_free 4128 (ex_mm\<lparr>g_mmheap := ex_heap1\<rparr>) = Some (Done (), s') \<and> heap_ok (g_mmheap s') cs'
     \<and> (4128, 112) \<notin> blocks 4096 cs'"
  using mm_free_correct [of 0 "ex_mm\<lparr>g_mmheap := ex_heap1\<rparr>" "[(16, True), (128, True), (3936, False), (16, True)]" 4128 112]
    ex_mm_unlocked ex_heap1_ok ex_block by auto


section \<open>Changing the size of a block\<close>

lemma guard_alloc:
  assumes "ys \<noteq> []" "last ys = (16, True)"
  shows "(a + bytes ys - 16, 16) \<in> allocs a ys" "16 \<le> bytes ys"
proof -
  have ys: "ys = butlast ys @ (16, True) # []" using assms by (metis append_butlast_last_id)
  then have b: "bytes ys = bytes (butlast ys) + 16" by (metis bytes_simps add.right_neutral)
  with ys show "(a + bytes ys - 16, 16) \<in> allocs a ys"
    unfolding allocs_mem by (metis add_diff_cancel_right' add.assoc)
  show "16 \<le> bytes ys" using b by simp
qed

lemma tail_bytes:
  assumes "gran ys" "gran zs" "ys \<noteq> []" "zs \<noteq> []" "last ys = (16, True)" "last zs = (16, True)" "allocs b zs = allocs a ys"
  shows "b + bytes zs = a + bytes ys"
  using guard_alloc(1) [OF assms(3,5), of a] guard_alloc(1) [OF assms(4,6), of b] assms(7)
    guard_alloc(2) [OF assms(3,5)] guard_alloc(2) [OF assms(4,6)]
    allocs_bounds [OF assms(1), of "b + bytes zs - 16" 16 a] allocs_bounds [OF assms(2), of "a + bytes ys - 16" 16 b] by auto

text \<open>The contents of a block, word by word, at a new address.\<close>

definition copied :: "addr \<Rightarrow> addr \<Rightarrow> nat \<Rightarrow> mm_heap_s \<Rightarrow> mm_heap_s \<Rightarrow> bool" where
  "copied p q k h h' = (\<forall>j. 4 * j < k \<longrightarrow> mem h' (q + 4 * j) = mem h (p + 4 * j))"

definition moved_to :: "mm_heap_s \<Rightarrow> chunks \<Rightarrow> addr \<Rightarrow> nat \<Rightarrow> nat \<Rightarrow> addr \<Rightarrow> mm_heap_s \<Rightarrow> bool" where
  "moved_to h cs p k m q h' = (\<exists>cs'. heap_ok h' cs' \<and> mm_heapstart h' = mm_heapstart h
     \<and> blocks (mm_heapstart h) cs' = insert (q, m) (blocks (mm_heapstart h) cs - {(p, k)})
     \<and> same_blocks (blocks (mm_heapstart h) cs - {(p, k)}) h h' \<and> copied p q (min k m) h h')"

lemma allocs_without:
  assumes "gran (xs @ (k, True) # ys)"
  shows "allocs lo (xs @ (k, True) # ys) - {(lo + bytes xs, k)} = allocs lo xs \<union> allocs (lo + bytes xs + k) ys"
    "16 \<le> k" "(lo + bytes xs, k) \<notin> allocs lo xs \<union> allocs (lo + bytes xs + k) ys"
proof -
  have g: "gran xs" "gran ys" and k: "16 \<le> k" using assms by auto
  show 3: "(lo + bytes xs, k) \<notin> allocs lo xs \<union> allocs (lo + bytes xs + k) ys"
    using allocs_bounds [OF g(1), of "lo + bytes xs" k lo] allocs_bounds [OF g(2), of "lo + bytes xs" k "lo + bytes xs + k"] k by auto
  show "allocs lo (xs @ (k, True) # ys) - {(lo + bytes xs, k)} = allocs lo xs \<union> allocs (lo + bytes xs + k) ys" "16 \<le> k"
    using 3 k by (auto simp: add.assoc)
qed

lemma blocks_without:
  assumes g: "gran (xs @ (k + 16, True) # ys)" and ne: "xs \<noteq> []" "ys \<noteq> []" and p: "p = lo + bytes xs + 16"
  defines "cs \<equiv> xs @ (k + 16, True) # ys"
  shows "blocks lo cs - {(p, k)} = {(q, l). 16 \<le> q \<and> (q - 16, l + 16) \<in> allocs lo xs \<union> allocs (lo + bytes xs + (k + 16)) ys
           \<and> q \<noteq> lo + 16 \<and> q \<noteq> lo + bytes cs}" "(p, k) \<in> blocks lo cs"
proof -
  show mem: "(p, k) \<in> blocks lo cs" unfolding cs_def using blocks_mem [OF g] ne p by blast
  have "(q, l) \<noteq> (p, k) \<longleftrightarrow> (q - 16, l + 16) \<noteq> (lo + bytes xs, k + 16)" if "16 \<le> q" for q l using that p by auto
  then show "blocks lo cs - {(p, k)} = {(q, l). 16 \<le> q \<and> (q - 16, l + 16) \<in> allocs lo xs \<union> allocs (lo + bytes xs + (k + 16)) ys
           \<and> q \<noteq> lo + 16 \<and> q \<noteq> lo + bytes cs}"
    unfolding allocs_without(1) [OF g, symmetric] cs_def blocks_def by auto
qed


lemma resized_blocks:
  assumes ok: "heap_ok h (xs @ (k + 16, True) # ys)" and ne: "xs \<noteq> []" "ys \<noteq> []"
    and p: "p = mm_heapstart h + bytes xs + 16" and n: "16 \<le> n" and r: "resized h xs (k + 16) ys n q h'"
  shows "moved_to h (xs @ (k + 16, True) # ys) p k (n - 16) q h'"
proof -
  let ?lo = "mm_heapstart h" and ?cs = "xs @ (k + 16, True) # ys"
  obtain us vs where r': "heap_ok h' (us @ (n, True) # vs)" "us \<noteq> []" "vs \<noteq> []" "q = ?lo + bytes us + 16"
    "allocs ?lo us = allocs ?lo xs" "allocs (?lo + bytes us + n) vs = allocs (?lo + bytes xs + (k + 16)) ys"
    "\<forall>j. 4 * j < min (k + 16) n - 16 \<longrightarrow> mem h' (q + 4 * j) = mem h (?lo + bytes xs + 16 + 4 * j)"
    "\<forall>a \<in> live ?lo xs \<union> live (?lo + bytes xs + (k + 16)) ys. mem h' a = mem h a" "mm_heapstart h' = ?lo"
    using r unfolding resized_def by blast
  let ?cs' = "us @ (n - 16 + 16, True) # vs"
  have n': "n - 16 + 16 = n" using n by simp
  note g = heap_ok_gran [OF ok] and g' = heap_ok_gran [OF r'(1)]
  have "last ys = (16, True)" "last vs = (16, True)" using g(2) g'(2) ne(2) r'(3) by (simp_all add: guarded_def)
  then have "?lo + bytes us + n + bytes vs = ?lo + bytes xs + (k + 16) + bytes ys"
    by (intro tail_bytes) (use g(1) g'(1) ne(2) r'(3,6) in simp_all)
  then have tot: "bytes ?cs' = bytes ?cs" using n by simp
  note B = blocks_without [OF g(1) ne p]
  have gr': "gran ?cs'" using g'(1) n' by simp
  note B' = blocks_without [OF gr' r'(2,3,4)]
  have "blocks ?lo ?cs' - {(q, n - 16)} = blocks ?lo ?cs - {(p, k)}"
    unfolding B(1) B'(1) tot by (simp only: n' r'(5,6))
  then have "blocks ?lo (us @ (n, True) # vs) = insert (q, n - 16) (blocks ?lo ?cs - {(p, k)})"
    using B'(2) n' by auto
  moreover have "same_blocks (blocks ?lo ?cs - {(p, k)}) h h'"
    unfolding same_blocks_def
  proof (intro allI impI)
    fix q l a assume "(q, l) \<in> blocks ?lo ?cs - {(p, k)}" and a: "q \<le> a" "a < q + l"
    then have "16 \<le> q" "(q - 16, l + 16) \<in> allocs ?lo xs \<union> allocs (?lo + bytes xs + (k + 16)) ys" unfolding B(1) by auto
    moreover from this(1) a have "q - 16 + 16 \<le> a" "a < q - 16 + (l + 16)" by auto
    ultimately have "a \<in> live ?lo xs \<union> live (?lo + bytes xs + (k + 16)) ys" unfolding live_mem Un_iff by blast
    then show "mem h' a = mem h a" using r'(8) by blast
  qed
  moreover have "copied p q (min k (n - 16)) h h'" using r'(7) p by (simp add: copied_def min_def)
  ultimately show ?thesis unfolding moved_to_def using r'(1,9) by blast
qed

lemma realloc_blocks:
  assumes ok: "heap_ok h cs" and p: "(p, k) \<in> blocks (mm_heapstart h) cs" and n: "16 dvd n" "16 \<le> n" "n < 2 ^ 32"
  obtains
    (resized) q h' where "mm_realloc_locked c p n ra h = Some (Some q, h')" "moved_to h cs p k (n - 16) q h'"
  | (stuck) "mm_realloc_locked c p n ra h = Some (None, h)" "k + 16 < n" "nd_size h (p - SIZEOF_MM_ALLOCNODE) = k + 16"
proof -
  obtain xs ys where cs: "cs = xs @ (k + 16, True) # ys" "xs \<noteq> []" "ys \<noteq> []" "p = mm_heapstart h + bytes xs + 16" "16 dvd p" "16 dvd k"
    by (rule block_chunk [OF ok p])
  note ok' = ok [unfolded cs(1)]
  have H: "heap_as h (xs @ (k + 16, True) # ys) (frees (mm_heapstart h) (xs @ (k + 16, True) # ys))" using ok' by (simp add: heap_ok_def)
  define node where "node = mm_heapstart h + bytes xs"
  have pn: "p - SIZEOF_MM_ALLOCNODE = node" by (simp add: cs(4) node_def mm_consts)
  note nb = heap_as_neighbours [OF H cs(2,3) node_def]
  consider "n < k + 16" | "n = k + 16" | "k + 16 < n" "n \<le> k + 16 + free_before xs + free_behind ys"
    | "k + 16 + free_before xs + free_behind ys < n" by linarith
  then show thesis
  proof cases
    case 1
    obtain h' where "mm_realloc_locked c p n ra h = Some (Some p, h')" "resized h xs (k + 16) ys n p h'"
      by (rule realloc_shrink_post [OF ok' cs(2-4) n(1,2) 1])
    then show thesis using resized_blocks [OF ok' cs(2-4) n(2)] cs(1) resized by metis
  next
    case 2
    then have "mm_realloc_locked c p n ra h = Some (Some p, h)" using nb(1) pn by (simp add: mm_realloc_locked_def Let_def)
    moreover have "moved_to h cs p k (n - 16) p h"
      unfolding moved_to_def using ok p 2 by (intro exI [of _ cs]) (auto simp: same_blocks_def copied_def)
    ultimately show thesis by (rule resized)
  next
    case 3
    obtain q h' where "mm_realloc_locked c p n ra h = Some (Some q, h')" "resized h xs (k + 16) ys n q h'"
      by (rule realloc_grow_post [OF ok' cs(2-4) n(1) 3])
    then show thesis using resized_blocks [OF ok' cs(2-4) n(2)] cs(1) resized by metis
  next
    case 4
    have "mm_realloc_locked c p n ra h = Some (None, h)"
      using 4 nb(1-4,7) pn by (simp add: mm_realloc_locked_def Let_def add32_small)
    then show thesis using stuck 4 nb(1) pn by simp
  qed
qed


lemma same_blocksD: "same_blocks B h h' \<Longrightarrow> (p, k) \<in> B \<Longrightarrow> p \<le> a \<Longrightarrow> a < p + k \<Longrightarrow> mem h' a = mem h a"
  unfolding same_blocks_def by blast

lemma same_blocks_trans: "same_blocks A h h1 \<Longrightarrow> same_blocks B h1 h2 \<Longrightarrow> C \<subseteq> A \<Longrightarrow> C \<subseteq> B \<Longrightarrow> same_blocks C h h2"
  unfolding same_blocks_def by (metis subsetD)

text \<open>The owner of a block may write into it.\<close>

lemma payload_written:
  assumes ok: "heap_ok h cs" and q: "(q, m) \<in> blocks (mm_heapstart h) cs"
    and h': "h' = h\<lparr>mem := mem h'\<rparr>" and same: "\<And>a. a \<notin> {q ..< q + m} \<Longrightarrow> mem h' a = mem h a"
  shows "heap_ok h' cs" "mm_heapstart h' = mm_heapstart h" "same_blocks (blocks (mm_heapstart h) cs - {(q, m)}) h h'"
proof -
  obtain xs ys where cs: "cs = xs @ (m + 16, True) # ys" "xs \<noteq> []" "ys \<noteq> []" "q = mm_heapstart h + bytes xs + 16" "16 dvd q" "16 dvd m"
    by (rule block_chunk [OF ok q])
  obtain n b zs where ys: "ys = (n, b) # zs" using cs(3) by (cases ys) auto
  let ?F = "frees (mm_heapstart h) cs"
  have H: "heap_as h (xs @ (m + 16, True) # (n, b) # zs) ?F" and mg: "merged cs" using ok cs(1) ys by (auto simp: heap_ok_def)
  have node: "mm_heapstart h + bytes xs \<notin> ?F"
  proof -
    have g: "gran xs" "gran ys" using heap_ok_gran(1) [OF ok] cs(1) by auto
    have "?F = frees (mm_heapstart h) xs \<union> frees (mm_heapstart h + bytes xs + (m + 16)) ys" by (simp add: cs(1) add.assoc)
    then show ?thesis using frees_lt [OF g(1), of "mm_heapstart h + bytes xs"] frees_le [of "mm_heapstart h + bytes xs" _ ys] by fastforce
  qed
  have same': "mem h' a = mem h a" if "a \<notin> {mm_heapstart h + bytes xs + 16 ..< mm_heapstart h + bytes xs + (m + 16)}" for a
    using same that cs(4) by (simp add: add.assoc add.commute [of 16])
  note P = heap_as_payload [OF H cs(2) refl node h' same']
  have f: "mm_heapstart h' = mm_heapstart h" by (subst h') simp
  then show "mm_heapstart h' = mm_heapstart h" .
  show "heap_ok h' cs" using P(1) mg f cs(1) ys by (simp add: heap_ok_def)
  show "same_blocks (blocks (mm_heapstart h) cs - {(q, m)}) h h'"
    unfolding same_blocks_def
  proof (intro allI impI)
    fix p k a assume p: "(p, k) \<in> blocks (mm_heapstart h) cs - {(q, m)}" and a: "p \<le> a" "a < p + k"
    with blocks_disjoint [OF heap_ok_gran(1) [OF ok], of p k "mm_heapstart h" q m] q have "a \<notin> {q ..< q + m}" by auto
    then show "mem h' a = mem h a" by (rule same)
  qed
qed

lemma memcpy_block:
  assumes ok: "heap_ok h cs" and q: "(q, m) \<in> blocks (mm_heapstart h) cs" and n: "4 dvd n" "n \<le> m"
    and src: "q + 4 \<le> src \<or> src + n \<le> q"
  defines "h' \<equiv> mm_memcpy q src n h"
  shows "heap_ok h' cs" "mm_heapstart h' = mm_heapstart h" "same_blocks (blocks (mm_heapstart h) cs - {(q, m)}) h h'"
    "copied src q n h h'" "total_alloc_size h' = total_alloc_size h"
proof -
  have src': "q + 4 \<le> src \<or> src + 4 * (n div 4) \<le> q" using src n by auto
  have m: "mem h' a = (if \<exists>j < n div 4. a = q + 4 * j then mem h (src + (a - q)) else mem h a)" for a
    unfolding h'_def mm_memcpy_def by (rule memcpy_words_mem [OF src'])
  have f: "h' = h\<lparr>mem := mem h'\<rparr>" unfolding h'_def mm_memcpy_def by (rule memcpy_words_fields)
  have out: "mem h' a = mem h a" if "a \<notin> {q ..< q + m}" for a
  proof -
    have "a \<noteq> q + 4 * j" if "j < n div 4" for j using that \<open>a \<notin> {q ..< q + m}\<close> n(2) by auto
    then show ?thesis unfolding m by auto
  qed
  show "heap_ok h' cs" "mm_heapstart h' = mm_heapstart h" "same_blocks (blocks (mm_heapstart h) cs - {(q, m)}) h h'"
    using payload_written [OF ok q f] out by blast+
  show "copied src q n h h'" using n(1) by (auto simp: copied_def m)
  show "total_alloc_size h' = total_alloc_size h" by (subst f) simp
qed



text \<open>A block moved to a new chunk.\<close>

lemma realloc_move_run:
  assumes u: "mm_unlocked idle s" and ok: "heap_ok (g_mmheap s) cs" and p: "(p, k) \<in> blocks (heapbase s) cs"
    and sz: "1 \<le> sz" "sz + 31 < 2 ^ 32" and k: "k + 16 < (sz + 31) div 16 * 16"
  obtains q s' where "realloc_move p (k + 16) sz ra s = Some (Done q, s')" "mm_unlocked idle s'"
    "q = 0 \<and> g_mmheap s' = g_mmheap s \<or> moved_to (g_mmheap s) cs p k ((sz + 15) div 16 * 16) q (g_mmheap s')"
proof (cases rule: malloc_run [OF u ok, of sz ra])
  case (1 s1)
  have "realloc_move p (k + 16) sz ra s = Some (Done 0, s1)" using 1(1) by (simp add: realloc_move_def mm_andthen_def malloc_eq [OF sz])
  then show thesis using that 1(2,3) by blast
next
  case (2 xs k' ys q s1 cs1)
  let ?lo = "heapbase s" and ?m = "(sz + 15) div 16 * 16"
  obtain us vs where cs: "cs = us @ (k + 16, True) # vs" "us \<noteq> []" "vs \<noteq> []" "p = ?lo + bytes us + 16" "16 dvd p" "16 dvd k"
    by (rule block_chunk [OF ok p])
  obtain a where "k = 16 * a" using cs(6) by (auto elim: dvdE)
  moreover have "16 * a + 16 \<le> t * 16 - 16" if "16 * a + 16 < t * 16" for t
  proof -
    have "a + 2 \<le> t" using that by linarith
    then have "16 * a + 32 \<le> t * 16" by linarith
    then show ?thesis by simp
  qed
  ultimately have m: "k + 16 \<le> ?m" using k unfolding chunk_payload [symmetric] by blast
  have q: "(q, ?m) \<in> blocks (heapbase s1) cs1" "q \<noteq> p" "q \<noteq> 0" unfolding 2(3,5) using 2(7,11) p by auto
  have p1: "(p, k) \<in> blocks (heapbase s1) cs1" using 2(3,5) p by simp
  have "p + k + 16 \<le> q \<or> q + ?m + 16 \<le> p"
    by (rule blocks_disjoint [OF heap_ok_gran(1) [OF 2(4)] p1 q(1)]) (use q(2) in simp)
  then have src: "q + 4 \<le> p \<or> p + (k + 16) \<le> q" by auto
  define h2 where "h2 = mm_memcpy q p (k + 16) (g_mmheap s1)"
  have "4 dvd k + 16" using cs(6) by presburger
  note M = memcpy_block [OF 2(4) q(1) this m src, folded h2_def]
  define s2 where "s2 = s1\<lparr>g_mmheap := h2\<rparr>"
  have u2: "mm_unlocked idle s2" and h2: "g_mmheap s2 = h2" "mm_heapstart h2 = ?lo" using 2(2,3) M(2) by (simp_all add: s2_def)
  have ok2: "heap_ok (g_mmheap s2) cs1" "(p, k) \<in> blocks (heapbase s2) cs1" using M(1) p1 h2 2(3) by simp_all
  obtain s3 cs3 where s3: "mm_free p s2 = Some (Done (), s3)" "mm_unlocked idle s3" "heap_ok (g_mmheap s3) cs3" "heapbase s3 = ?lo"
    "blocks ?lo cs3 = blocks ?lo cs1 - {(p, k)}" "same_blocks (blocks ?lo cs1 - {(p, k)}) h2 (g_mmheap s3)"
    using free_run [OF u2 ok2] unfolding h2 by blast
  have run: "realloc_move p (k + 16) sz ra s = Some (Done q, s3)"
    using 2(1) q(3) s3(1) by (simp add: realloc_move_def mm_andthen_def malloc_eq [OF sz] s2_def h2_def)
  have B: "blocks ?lo cs3 = insert (q, ?m) (blocks ?lo cs - {(p, k)})" using s3(5) 2(5) q(2) by auto
  have s1: "same_blocks (blocks ?lo cs) (g_mmheap s) h2"
    by (rule same_blocks_trans [OF 2(6) M(3)]) (use 2(3,5,7) in auto)
  have same: "same_blocks (blocks ?lo cs - {(p, k)}) (g_mmheap s) (g_mmheap s3)"
    by (rule same_blocks_trans [OF s1 s3(6)]) (use 2(5) in auto)
  have "copied p q k (g_mmheap s) (g_mmheap s3)"
    unfolding copied_def
  proof (intro allI impI)
    fix j assume j: "4 * j < k"
    have "mem (g_mmheap s3) (q + 4 * j) = mem h2 (q + 4 * j)"
      by (rule same_blocksD [OF s3(6), of q ?m]) (use 2(5) j m q(2) in simp_all)
    also have "\<dots> = mem (g_mmheap s1) (p + 4 * j)" using M(4) j by (simp add: copied_def)
    also have "\<dots> = mem (g_mmheap s) (p + 4 * j)" by (rule same_blocksD [OF 2(6) p]) (use j in simp_all)
    finally show "mem (g_mmheap s3) (q + 4 * j) = mem (g_mmheap s) (p + 4 * j)" .
  qed
  moreover have "min k ?m = k" using m by simp
  ultimately have "moved_to (g_mmheap s) cs p k ?m q (g_mmheap s3)"
    unfolding moved_to_def using s3(3,4) B same by auto
  then show thesis using that run s3(2) by blast
qed


lemma realloc_run:
  assumes "mm_unlocked idle s" "heap_ok (g_mmheap s) cs" "(p, k) \<in> blocks (heapbase s) cs" "1 \<le> sz" "sz + 31 < 2 ^ 32"
  shows "\<exists>q s'. mm_realloc p sz ra s = Some (Done q, s') \<and> mm_unlocked idle s'
     \<and> (moved_to (g_mmheap s) cs p k ((sz + 15) div 16 * 16) q (g_mmheap s') \<or> q = 0 \<and> k < sz \<and> g_mmheap s' = g_mmheap s)"
proof -
  let ?n = "(sz + 31) div 16 * 16" and ?h = "g_mmheap s"
  let ?g = "\<lambda>c h. do { let oldsize = nd_size h (p - SIZEOF_MM_ALLOCNODE); (r, h) \<leftarrow> mm_realloc_locked c p ?n ra h; Some ((r, oldsize), h) }"
  define P where "P v h' = (case v of (Some q, _) \<Rightarrow> moved_to ?h cs p k (?n - 16) q h'
     | (None, n) \<Rightarrow> h' = ?h \<and> k + 16 < ?n \<and> n = k + 16)" for v :: "addr option \<times> nat" and h'
  have n: "16 dvd ?n" "16 \<le> ?n" "?n < 2 ^ 32" using assms(4,5) by auto
  have f: "\<exists>v h'. ?g c ?h = Some (v, h') \<and> P v h'" for c
    by (cases rule: realloc_blocks [OF assms(2,3) n, of c ra]) (auto simp: P_def Let_def)
  obtain v s1 where r: "mm_locked ?g s = Some (Done v, s1)" "P v (g_mmheap s1)" "mm_unlocked idle s1"
    by (rule mm_locked_post [where f = ?g and P = P, OF assms(1)]) (use f in blast)+
  have p0: "p \<noteq> 0" using assms(3) by (auto simp: blocks_def)
  have run: "mm_realloc p sz ra s = (case v of (Some q, _) \<Rightarrow> Some (Done q, s1) | (None, n) \<Rightarrow> realloc_move p n sz ra s1)"
    using r(1) p0 assms(4) by (simp add: mm_realloc_def mm_andthen_def chunk_size [OF assms(5)] split: prod.split option.split)
  obtain w n' where v: "v = (w, n')" by fastforce
  show ?thesis
  proof (cases w)
    case (Some q)
    then show ?thesis using run r(2,3) v unfolding P_def chunk_payload by auto
  next
    case None
    then have h1: "g_mmheap s1 = ?h" and k: "k + 16 < ?n" "n' = k + 16" using r(2) v unfolding P_def by auto
    obtain q s' where "realloc_move p (k + 16) sz ra s1 = Some (Done q, s')" "mm_unlocked idle s'"
      "q = 0 \<and> g_mmheap s' = g_mmheap s1 \<or> moved_to (g_mmheap s1) cs p k ((sz + 15) div 16 * 16) q (g_mmheap s')"
      by (rule realloc_move_run [OF r(3), of cs p k sz ra]) (use assms(2-5) h1 k in simp_all)
    moreover have "k < sz"
    proof (rule ccontr)
      assume "\<not> k < sz"
      moreover have "16 dvd k + 16" using block_chunk [OF assms(2,3)] by (metis dvd_add_left_iff dvd_refl)
      ultimately show False using k(1) chunk_fits [of "k + 16" sz] by simp
    qed
    ultimately show ?thesis using run v None k(2) h1 by auto
  qed
qed

text \<open>
  C4. \<open>mm_realloc\<close> of a block in use to a size that does not overflow returns with the lock free. Either the result is
  a block of the requested size rounded up to 16 bytes which takes the place of the old one and has its contents, up to
  the smaller of the two sizes, all other blocks are unchanged with their contents and the heap is well-formed; or the
  block is to grow, the result is \<open>NULL\<close> and the heap is unchanged. This covers shrinking and extending in place,
  extending into the chunk before the block and moving the block.
\<close>

theorem mm_realloc_correct:
  assumes "mm_unlocked idle s" "heap_ok (g_mmheap s) cs" "(p, k) \<in> blocks (heapbase s) cs" "1 \<le> sz" "sz + 31 < 2 ^ 32"
  shows "\<exists>q s'. mm_realloc p sz ra s = Some (Done q, s') \<and> mm_unlocked idle s'
     \<and> (moved_to (g_mmheap s) cs p k ((sz + 15) div 16 * 16) q (g_mmheap s') \<or> q = 0 \<and> k < sz \<and> g_mmheap s' = g_mmheap s)"
  by (rule realloc_run [OF assms])

text \<open>A block of 112 bytes is enlarged to 200 bytes.\<close>

theorem mm_realloc_correct_witness:
  "\<exists>q s'. mm_realloc 4128 200 0 (ex_mm\<lparr>g_mmheap := ex_heap1\<rparr>) = Some (Done q, s') \<and> mm_unlocked 0 s'"
  using mm_realloc_correct [of 0 "ex_mm\<lparr>g_mmheap := ex_heap1\<rparr>" "[(16, True), (128, True), (3936, False), (16, True)]" 4128 112 200 0]
    ex_mm_unlocked ex_heap1_ok ex_block by auto


section \<open>Requests that overflow\<close>

lemma chunk_size_wraps:
  assumes "2 ^ 32 - 15 \<le> sz" "sz < 2 ^ 32"
  shows "MM_ALIGN_UP (add32 sz SIZEOF_MM_ALLOCNODE) = (0 + 31) div 16 * 16"
proof -
  have a: "add32 sz SIZEOF_MM_ALLOCNODE = sz + 16 - 2 ^ 32"
    using assms by (simp add: add32_def mm_consts mod_if)
  have "1 \<le> sz + 16 - 2 ^ 32" "sz + 16 - 2 ^ 32 \<le> 15" using assms by auto
  then have "(sz + 16 - 2 ^ 32 + 15) div 16 = 1" by auto
  then show ?thesis unfolding a using assms align_up [of "sz + 16 - 2 ^ 32"] by simp
qed

text \<open>
  C39. For the fifteen largest sizes the sum of the size and the header wraps around. \<open>mm_malloc\<close> then does not fail
  on a heap with a free chunk: it returns a block of no bytes for a request of almost 4 GiB.
\<close>

theorem mm_malloc_wraps:
  assumes "mm_unlocked idle s" "heap_ok (g_mmheap s) cs" "(k, False) \<in> set cs" "2 ^ 32 - 15 \<le> sz" "sz < 2 ^ 32"
  shows "\<exists>p s' cs'. mm_malloc sz ra s = Some (Done p, s') \<and> p \<noteq> 0 \<and> mm_unlocked idle s' \<and> heap_ok (g_mmheap s') cs'
     \<and> blocks (heapbase s) cs' = insert (p, 0) (blocks (heapbase s) cs)"
proof -
  have eq: "mm_malloc sz ra s = mm_locked (\<lambda>c. mm_malloc_locked c ((0 + 31) div 16 * 16) ra) s"
    using chunk_size_wraps [OF assms(4,5)] assms(4) by (simp add: mm_malloc_def)
  have "16 \<le> k" using heap_ok_gran(1) [OF assms(2)] assms(3) by (auto simp: gran_def)
  then show ?thesis unfolding eq
    by (cases rule: malloc_run [OF assms(1,2), of 0 ra]) (use assms(3) in fastforce)+
qed

theorem mm_malloc_wraps_witness:
  "\<exists>p s'. mm_malloc 4294967295 0 ex_mm = Some (Done p, s') \<and> p \<noteq> 0"
  using mm_malloc_wraps [of 0 ex_mm "[(16, True), (4064, False), (16, True)]" 4064 4294967295 0] ex_mm_unlocked ex_heap_ok by auto


section \<open>Histories of a heap\<close>

text \<open>
  The states a heap goes through, with the blocks its users know of: what \<open>mm_malloc\<close> and \<open>mm_realloc\<close> returned and was
  not yet released. Between two calls the kernel may do anything that leaves the heap and its lock alone, like running
  other tasks, and a user may write to a word of a block.
\<close>

inductive mm_reach :: "addr \<Rightarrow> 'z mmstate_scheme \<Rightarrow> (addr \<times> nat) set \<Rightarrow> bool" for idle where
  reach_init: "mm_initialize_heap c z sz h0 = Some (g_mmheap s) \<Longrightarrow> mm_unlocked idle s \<Longrightarrow> 0 < z \<Longrightarrow> z + sz < 2 ^ 32
     \<Longrightarrow> sz < 2 ^ 31 \<Longrightarrow> 78 \<le> sz \<Longrightarrow> 0 < mm_nodelist h0 \<Longrightarrow> mm_nodelist h0 + 304 \<le> z \<or> z + sz \<le> mm_nodelist h0 \<Longrightarrow> mm_reach idle s {}"
| reach_malloc: "mm_reach idle s B \<Longrightarrow> 1 \<le> sz \<Longrightarrow> sz + 31 < 2 ^ 32 \<Longrightarrow> mm_malloc sz ra s = Some (Done p, s')
     \<Longrightarrow> mm_reach idle s' (if p = 0 then B else insert (p, (sz + 15) div 16 * 16) B)"
| reach_free: "mm_reach idle s B \<Longrightarrow> (p, k) \<in> B \<Longrightarrow> mm_free p s = Some (Done u, s') \<Longrightarrow> mm_reach idle s' (B - {(p, k)})"
| reach_realloc: "mm_reach idle s B \<Longrightarrow> (p, k) \<in> B \<Longrightarrow> 1 \<le> sz \<Longrightarrow> sz + 31 < 2 ^ 32 \<Longrightarrow> mm_realloc p sz ra s = Some (Done q, s')
     \<Longrightarrow> mm_reach idle s' (if q = 0 then B else insert (q, (sz + 15) div 16 * 16) (B - {(p, k)}))"
| reach_write: "mm_reach idle s B \<Longrightarrow> (p, k) \<in> B \<Longrightarrow> p \<le> a \<Longrightarrow> a < p + k \<Longrightarrow> mm_reach idle (s\<lparr>g_mmheap := store a v (g_mmheap s)\<rparr>) B"
| reach_kernel: "mm_reach idle s B \<Longrightarrow> mm_unlocked idle s' \<Longrightarrow> g_mmheap s' = g_mmheap s \<Longrightarrow> mm_reach idle s' B"

definition mm_good :: "addr \<Rightarrow> 'z mmstate_scheme \<Rightarrow> (addr \<times> nat) set \<Rightarrow> bool" where
  "mm_good idle s B = (mm_unlocked idle s \<and> (\<exists>cs. heap_ok (g_mmheap s) cs \<and> blocks (heapbase s) cs = B))"

lemma block_nonzero: "(p, k) \<in> blocks lo cs \<Longrightarrow> p \<noteq> 0"
  by (simp add: blocks_def)

lemma mm_good_init:
  assumes "mm_initialize_heap c z sz h0 = Some h" "0 < z" "z + sz < 2 ^ 32" "sz < 2 ^ 31" "78 \<le> sz" "0 < mm_nodelist h0"
    "mm_nodelist h0 + 304 \<le> z \<or> z + sz \<le> mm_nodelist h0"
  obtains n where "heap_ok h [(16, True), (n, False), (16, True)]" "blocks (mm_heapstart h) [(16, True), (n, False), (16, True)] = {}"
proof -
  define lo hi where "lo = (z + 15) div 16 * 16" and "hi = (z + sz) div 16 * 16"
  have b: "z \<le> lo" "lo \<le> z + 15" "hi \<le> z + sz" "z + sz \<le> hi + 15" "16 dvd lo" "16 dvd hi" by (auto simp: lo_def hi_def)
  define n where "n = hi - lo - 32"
  have n: "lo + n + 32 = hi" "16 \<le> n" "n + 32 < 2 ^ 31" using b assms(4,5) by (auto simp: n_def)
  obtain h' where h': "mm_initialize_heap c z sz h0 = Some h'" "heap_ok h' [(16, True), (n, False), (16, True)]"
    by (rule mm_initialize_heap_post [of z sz lo n h0 c]) (use assms b n in \<open>auto simp: lo_def hi_def\<close>)
  moreover have "blocks (mm_heapstart h) [(16, True), (n, False), (16, True)] = {}" by (auto simp: blocks_def)
  ultimately show thesis using that assms(1) by simp
qed

lemma mm_reach_good: "mm_reach idle s B \<Longrightarrow> mm_good idle s B"
proof (induction rule: mm_reach.induct)
  case (reach_init c z sz h0 s)
  show ?case unfolding mm_good_def
    by (rule mm_good_init [OF reach_init(1,3-8)]) (use reach_init(2) in blast)
next
  case (reach_malloc s B sz ra p s')
  from reach_malloc(5) obtain cs where cs: "mm_unlocked idle s" "heap_ok (g_mmheap s) cs" "blocks (heapbase s) cs = B" unfolding mm_good_def by blast
  note eq = reach_malloc(4) [unfolded malloc_eq [OF reach_malloc(2,3)]]
  show ?case
  proof (cases rule: malloc_run [OF cs(1,2), of sz ra])
    case (1 s1)
    then show ?thesis using eq cs unfolding mm_good_def by auto
  next
    case (2 xs k ys q s1 cs')
    then show ?thesis using eq cs(3) unfolding mm_good_def by auto
  qed
next
  case (reach_free s B p k u s')
  then obtain cs where cs: "mm_unlocked idle s" "heap_ok (g_mmheap s) cs" "blocks (heapbase s) cs = B" unfolding mm_good_def by blast
  show ?case using free_run [OF cs(1,2), of p k] reach_free(2,3) cs(3) unfolding mm_good_def by auto
next
  case (reach_realloc s B p k sz ra q s')
  from reach_realloc(6) obtain cs where cs: "mm_unlocked idle s" "heap_ok (g_mmheap s) cs" "blocks (heapbase s) cs = B" unfolding mm_good_def by blast
  from realloc_run [OF cs(1,2), of p k sz ra] reach_realloc(2-5) cs(3)
  have "mm_unlocked idle s'" "moved_to (g_mmheap s) cs p k ((sz + 15) div 16 * 16) q (g_mmheap s') \<or> q = 0 \<and> g_mmheap s' = g_mmheap s" by auto
  then show ?case
  proof (elim disjE conjE)
    assume "mm_unlocked idle s'" "moved_to (g_mmheap s) cs p k ((sz + 15) div 16 * 16) q (g_mmheap s')"
    moreover from this(2) have "q \<noteq> 0" unfolding moved_to_def using block_nonzero by (metis insertI1)
    ultimately show ?case using cs(3) unfolding mm_good_def moved_to_def by auto
  qed (use cs in \<open>auto simp: mm_good_def\<close>)
next
  case (reach_write s B p k a v)
  then obtain cs where cs: "mm_unlocked idle s" "heap_ok (g_mmheap s) cs" "blocks (heapbase s) cs = B" unfolding mm_good_def by blast
  have "heap_ok (store a v (g_mmheap s)) cs"
    by (rule payload_written(1) [OF cs(2), of p k]) (use reach_write(2-4) cs(3) in \<open>auto simp: store_def\<close>)
  moreover have "mm_heapstart (store a v (g_mmheap s)) = heapbase s" by (simp add: store_def)
  ultimately show ?case using cs unfolding mm_good_def by auto
next
  case (reach_kernel s B s')
  then show ?case unfolding mm_good_def by auto
qed


text \<open>
  C6. Whatever the users of an initialized heap do through \<open>mm_malloc\<close>, \<open>mm_free\<close> and \<open>mm_realloc\<close>, in any order and
  by any task, and whatever they write to their blocks, the heap stays well-formed, with the lists, headers and merged
  neighbours that the functions rely on. The blocks given out and not yet released are exactly those the headers of the
  chunks mark as allocated; they are aligned, lie within the heap and do not overlap, and each of them can be released.
\<close>

theorem mm_reach_blocks:
  assumes "mm_reach idle s B"
  shows "\<exists>cs. heap_ok (g_mmheap s) cs \<and> blocks (heapbase s) cs = B
     \<and> (\<forall>p k. (p, k) \<in> B \<longrightarrow> 16 dvd p \<and> heapbase s + 32 \<le> p \<and> p + k \<le> mm_heapend (g_mmheap s) \<and> (\<exists>s'. mm_free p s = Some (Done (), s')))
     \<and> (\<forall>p k q l. (p, k) \<in> B \<longrightarrow> (q, l) \<in> B \<longrightarrow> (p, k) \<noteq> (q, l) \<longrightarrow> p + k \<le> q \<or> q + l \<le> p)"
proof -
  obtain cs where u: "mm_unlocked idle s" and ok: "heap_ok (g_mmheap s) cs" and B: "blocks (heapbase s) cs = B"
    using mm_reach_good [OF assms] unfolding mm_good_def by blast
  note g = heap_ok_gran [OF ok]
  have "16 dvd p \<and> heapbase s + 32 \<le> p \<and> p + k \<le> mm_heapend (g_mmheap s) \<and> (\<exists>s'. mm_free p s = Some (Done (), s'))" if p: "(p, k) \<in> B" for p k
  proof -
    obtain xs ys where cs: "cs = xs @ (k + 16, True) # ys" "xs \<noteq> []" "ys \<noteq> []" "p = heapbase s + bytes xs + 16" "16 dvd p"
      by (rule block_chunk [OF ok, of p k]) (use p B in simp)
    have "16 \<le> bytes xs" "16 \<le> bytes ys" using g(1) cs(1-3) by (cases xs; cases ys; force)+
    moreover have "mm_heapend (g_mmheap s) + 16 = heapbase s + bytes cs" using ok by (simp add: heap_ok_def heap_as_def)
    ultimately show ?thesis using cs free_run [OF u ok, of p k] p B by auto
  qed
  moreover have "p + k \<le> q \<or> q + l \<le> p" if "(p, k) \<in> B" "(q, l) \<in> B" "(p, k) \<noteq> (q, l)" for p k q l
    using blocks_disjoint [OF g(1), of p k "heapbase s" q l] that B by auto
  ultimately show ?thesis using ok B by blast
qed

text \<open>The heap of 4 KiB right after initialization.\<close>

lemma ex_reach: "mm_reach 0 ex_mm {}"
proof (rule reach_init)
  show "mm_initialize_heap \<lparr>ctx_pid = 1, ctx_gettcb = (\<lambda>_. None)\<rparr> 4096 4096 ex_heap0 = Some (g_mmheap ex_mm)"
    by (simp add: ex_heap_ok(3))
qed (simp_all add: ex_mm_unlocked ex_heap0_def)

theorem mm_reach_blocks_witness:
  "\<exists>s B cs. (\<exists>p. mm_malloc 100 0 ex_mm = Some (Done p, s)) \<and> mm_reach 0 s B \<and> heap_ok (g_mmheap s) cs \<and> blocks (heapbase s) cs = B"
proof -
  obtain p s where m: "mm_malloc 100 0 ex_mm = Some (Done p, s)"
    by (cases rule: malloc_run [OF ex_mm_unlocked, of _ 100 0]) (use ex_heap_ok malloc_eq [of 100 0 ex_mm] in auto)
  define B :: "(addr \<times> nat) set" where "B = (if p = 0 then {} else insert (p, (100 + 15) div 16 * 16) {})"
  have r: "mm_reach 0 s B" using reach_malloc [OF ex_reach, of 100 0 p s] m by (simp add: B_def)
  from mm_reach_blocks [OF r] obtain cs where "heap_ok (g_mmheap s) cs" "blocks (heapbase s) cs = B" by (elim exE conjE)
  with m r show ?thesis by (intro exI [of _ s] exI [of _ B] exI [of _ cs]) simp
qed

end
