(* ===== verification/Ra8875.thy ===== *)
theory Ra8875
  imports Rtos_Prelude "HOL-Library.Word"
begin

unbundle bit_operations_syntax

text \<open>
  The driver of the RA8875 display controller: src/os/drivers/lcd/ra8875.c with its register
  definitions src/os/drivers/lcd/ra8875.h, against the platform interface
  \<open>struct ra8875_lcd_s\<close> of src/os/include/tinyara/lcd/ra8875.h.

  The interface is a record of functions on a bus state of any type, as it is a structure of function
  pointers in the code. The four orientations, a build option, are a parameter \<^term>\<open>ori\<close>; the
  resolution and the colour depth are those of the configuration. Busy waiting (\<open>up_udelay\<close>,
  \<open>up_mdelay\<close>) and the messages of \<open>lcdinfo\<close> change no state and are left out.

  The locale \<open>lcd_registers\<close> is the part of the interface the drawing functions rely on: which
  register writes reach the controller. Their effect is proved once in it.
\<close>

section \<open>Registers and bits\<close>

type_synonym byte = "8 word"

type_synonym coord = "16 word"

abbreviation (input) RA8875_PWRR :: byte where "RA8875_PWRR \<equiv> 0x01"
abbreviation (input) RA8875_MRWC :: byte where "RA8875_MRWC \<equiv> 0x02"
abbreviation (input) RA8875_PCSR :: byte where "RA8875_PCSR \<equiv> 0x04"
abbreviation (input) RA8875_SYSR :: byte where "RA8875_SYSR \<equiv> 0x10"
abbreviation (input) RA8875_HDWR :: byte where "RA8875_HDWR \<equiv> 0x14"
abbreviation (input) RA8875_HNDFTR :: byte where "RA8875_HNDFTR \<equiv> 0x15"
abbreviation (input) RA8875_HNDR :: byte where "RA8875_HNDR \<equiv> 0x16"
abbreviation (input) RA8875_HSTR :: byte where "RA8875_HSTR \<equiv> 0x17"
abbreviation (input) RA8875_HPWR :: byte where "RA8875_HPWR \<equiv> 0x18"
abbreviation (input) RA8875_VDHR0 :: byte where "RA8875_VDHR0 \<equiv> 0x19"
abbreviation (input) RA8875_VDHR1 :: byte where "RA8875_VDHR1 \<equiv> 0x1A"
abbreviation (input) RA8875_VNDR0 :: byte where "RA8875_VNDR0 \<equiv> 0x1B"
abbreviation (input) RA8875_VNDR1 :: byte where "RA8875_VNDR1 \<equiv> 0x1C"
abbreviation (input) RA8875_VSTR0 :: byte where "RA8875_VSTR0 \<equiv> 0x1D"
abbreviation (input) RA8875_VSTR1 :: byte where "RA8875_VSTR1 \<equiv> 0x1E"
abbreviation (input) RA8875_VPWR :: byte where "RA8875_VPWR \<equiv> 0x1F"
abbreviation (input) RA8875_DPCR :: byte where "RA8875_DPCR \<equiv> 0x20"
abbreviation (input) RA8875_HSAW0 :: byte where "RA8875_HSAW0 \<equiv> 0x30"
abbreviation (input) RA8875_VSAW0 :: byte where "RA8875_VSAW0 \<equiv> 0x32"
abbreviation (input) RA8875_HEAW0 :: byte where "RA8875_HEAW0 \<equiv> 0x34"
abbreviation (input) RA8875_VEAW0 :: byte where "RA8875_VEAW0 \<equiv> 0x36"
abbreviation (input) RA8875_MWCR0 :: byte where "RA8875_MWCR0 \<equiv> 0x40"
abbreviation (input) RA8875_MRDC :: byte where "RA8875_MRDC \<equiv> 0x45"
abbreviation (input) RA8875_CURH0 :: byte where "RA8875_CURH0 \<equiv> 0x46"
abbreviation (input) RA8875_CURV0 :: byte where "RA8875_CURV0 \<equiv> 0x48"
abbreviation (input) RA8875_RCURH0 :: byte where "RA8875_RCURH0 \<equiv> 0x4A"
abbreviation (input) RA8875_RCURV0 :: byte where "RA8875_RCURV0 \<equiv> 0x4C"
abbreviation (input) RA8875_BGCR0 :: byte where "RA8875_BGCR0 \<equiv> 0x60"
abbreviation (input) RA8875_BGCR1 :: byte where "RA8875_BGCR1 \<equiv> 0x61"
abbreviation (input) RA8875_BGCR2 :: byte where "RA8875_BGCR2 \<equiv> 0x62"
abbreviation (input) RA8875_FGCR0 :: byte where "RA8875_FGCR0 \<equiv> 0x63"
abbreviation (input) RA8875_FGCR1 :: byte where "RA8875_FGCR1 \<equiv> 0x64"
abbreviation (input) RA8875_FGCR2 :: byte where "RA8875_FGCR2 \<equiv> 0x65"
abbreviation (input) RA8875_PLLC1 :: byte where "RA8875_PLLC1 \<equiv> 0x88"
abbreviation (input) RA8875_PLLC2 :: byte where "RA8875_PLLC2 \<equiv> 0x89"
abbreviation (input) RA8875_P1CR :: byte where "RA8875_P1CR \<equiv> 0x8A"
abbreviation (input) RA8875_P1DCR :: byte where "RA8875_P1DCR \<equiv> 0x8B"
abbreviation (input) RA8875_MCLR :: byte where "RA8875_MCLR \<equiv> 0x8E"
abbreviation (input) RA8875_DCR :: byte where "RA8875_DCR \<equiv> 0x90"
abbreviation (input) RA8875_DLHSR0 :: byte where "RA8875_DLHSR0 \<equiv> 0x91"
abbreviation (input) RA8875_DLVSR0 :: byte where "RA8875_DLVSR0 \<equiv> 0x93"
abbreviation (input) RA8875_DLHER0 :: byte where "RA8875_DLHER0 \<equiv> 0x95"
abbreviation (input) RA8875_DLVER0 :: byte where "RA8875_DLVER0 \<equiv> 0x97"
abbreviation (input) RA8875_DCHR0 :: byte where "RA8875_DCHR0 \<equiv> 0x99"
abbreviation (input) RA8875_DCVR0 :: byte where "RA8875_DCVR0 \<equiv> 0x9B"
abbreviation (input) RA8875_DCRR :: byte where "RA8875_DCRR \<equiv> 0x9D"
abbreviation (input) RA8875_DTPH0 :: byte where "RA8875_DTPH0 \<equiv> 0xA9"
abbreviation (input) RA8875_DTPV0 :: byte where "RA8875_DTPV0 \<equiv> 0xAB"

abbreviation (input) RA8875_PWRR_DISPLAY_OFF :: byte where "RA8875_PWRR_DISPLAY_OFF \<equiv> 0"
abbreviation (input) RA8875_PWRR_DISPLAY_ON :: byte where "RA8875_PWRR_DISPLAY_ON \<equiv> 0x80"
abbreviation (input) RA8875_PCSR_PCLK_INV :: byte where "RA8875_PCSR_PCLK_INV \<equiv> 0x80"
abbreviation (input) RA8875_PCSR_PERIOD_4SYS :: byte where "RA8875_PCSR_PERIOD_4SYS \<equiv> 2"
abbreviation (input) RA8875_SYSR_COLOR_65K :: byte where "RA8875_SYSR_COLOR_65K \<equiv> 8"
abbreviation (input) RA8875_SYSR_MCUIF_8BIT :: byte where "RA8875_SYSR_MCUIF_8BIT \<equiv> 0"
abbreviation (input) RA8875_DPCR_LAYERS_ONE :: byte where "RA8875_DPCR_LAYERS_ONE \<equiv> 0"
abbreviation (input) RA8875_DPCR_LAYERS_TWO :: byte where "RA8875_DPCR_LAYERS_TWO \<equiv> 0x80"
abbreviation (input) RA8875_P1CR_PWM_DISABLE :: byte where "RA8875_P1CR_PWM_DISABLE \<equiv> 0"
abbreviation (input) RA8875_P1CR_PWM_ENABLE :: byte where "RA8875_P1CR_PWM_ENABLE \<equiv> 0x80"
abbreviation (input) RA8875_MCLR_CLEAR :: byte where "RA8875_MCLR_CLEAR \<equiv> 0x80"
abbreviation (input) RA8875_MCLR_FULL :: byte where "RA8875_MCLR_FULL \<equiv> 0"
abbreviation (input) RA8875_DCR_LINE_START :: byte where "RA8875_DCR_LINE_START \<equiv> 0x80"
abbreviation (input) RA8875_DCR_CIRCLE_START :: byte where "RA8875_DCR_CIRCLE_START \<equiv> 0x40"
abbreviation (input) RA8875_DCR_FILL :: byte where "RA8875_DCR_FILL \<equiv> 0x20"
abbreviation (input) RA8875_DCR_LINE :: byte where "RA8875_DCR_LINE \<equiv> 0"
abbreviation (input) RA8875_DCR_SQUARE :: byte where "RA8875_DCR_SQUARE \<equiv> 0x10"
abbreviation (input) RA8875_DCR_TRIANGLE :: byte where "RA8875_DCR_TRIANGLE \<equiv> 1"

definition RA8875_P1CR_CSDIV :: "byte \<Rightarrow> byte" where
  "RA8875_P1CR_CSDIV p = p AND 0xf"

definition RA8875_PLLC1_PLLDIVN :: "byte \<Rightarrow> byte" where
  "RA8875_PLLC1_PLLDIVN p = p AND 0x1f"

definition RA8875_PLLC2_PLLDIVK :: "byte \<Rightarrow> byte" where
  "RA8875_PLLC2_PLLDIVK p = p AND 0x7"

definition RA8875_HDWR_WIDTH :: "coord \<Rightarrow> byte" where
  "RA8875_HDWR_WIDTH p = ucast (p div 8 - 1)"

definition RA8875_VDHR0_HEIGHT :: "coord \<Rightarrow> byte" where
  "RA8875_VDHR0_HEIGHT p = ucast ((p - 1) AND 0xff)"

definition RA8875_VDHR1_HEIGHT :: "coord \<Rightarrow> byte" where
  "RA8875_VDHR1_HEIGHT p = ucast (drop_bit 8 (p - 1))"

text \<open>\<open>CONFIG_LCD_LANDSCAPE\<close>, \<open>CONFIG_LCD_RLANDSCAPE\<close>, \<open>CONFIG_LCD_PORTRAIT\<close>, \<open>CONFIG_LCD_RPORTRAIT\<close>.\<close>

datatype orientation = LANDSCAPE | RLANDSCAPE | PORTRAIT | RPORTRAIT

definition RA8875_XRES :: coord where
  "RA8875_XRES = 480"

definition RA8875_YRES :: coord where
  "RA8875_YRES = 272"

definition RA8875_HW_XRES :: "orientation \<Rightarrow> coord" where
  "RA8875_HW_XRES ori = (if ori \<in> {LANDSCAPE, RLANDSCAPE} then RA8875_XRES else RA8875_YRES)"

definition RA8875_HW_YRES :: "orientation \<Rightarrow> coord" where
  "RA8875_HW_YRES ori = (if ori \<in> {LANDSCAPE, RLANDSCAPE} then RA8875_YRES else RA8875_XRES)"

definition RA8875_BPP :: nat where
  "RA8875_BPP = 16"

definition RA8875_2LAYER_POSSIBLE :: "orientation \<Rightarrow> bool" where
  "RA8875_2LAYER_POSSIBLE ori \<longleftrightarrow>
     \<not> (RA8875_HW_XRES ori \<ge> 800 \<and> RA8875_HW_YRES ori \<ge> 480 \<and> RA8875_BPP > 8)"

definition RA8875_UNPACK_RED :: "16 word \<Rightarrow> byte" where
  "RA8875_UNPACK_RED p = ucast (drop_bit 11 p AND 0x1f)"

definition RA8875_UNPACK_GREEN :: "16 word \<Rightarrow> byte" where
  "RA8875_UNPACK_GREEN p = ucast (drop_bit 5 p AND 0x3f)"

definition RA8875_UNPACK_BLUE :: "16 word \<Rightarrow> byte" where
  "RA8875_UNPACK_BLUE p = ucast (p AND 0x1f)"

definition RA8875_PACK_RGB :: "byte \<Rightarrow> byte \<Rightarrow> byte \<Rightarrow> 16 word" where
  "RA8875_PACK_RGB r g b = push_bit 11 (ucast r) OR push_bit 5 (ucast g) OR ucast b"

lemma color_masks: "(0x1f :: 16 word) = Bit_Operations.mask 5" "(0x3f :: 16 word) = Bit_Operations.mask 6"
  by (simp_all add: mask_eq_exp_minus_1)

lemma PACK_UNPACK [simp]:
  "RA8875_PACK_RGB (RA8875_UNPACK_RED c) (RA8875_UNPACK_GREEN c) (RA8875_UNPACK_BLUE c) = c"
  by (rule bit_word_eqI, rename_tac n, case_tac "11 \<le> n")
     (auto simp: RA8875_PACK_RGB_def RA8875_UNPACK_RED_def RA8875_UNPACK_GREEN_def
        RA8875_UNPACK_BLUE_def color_masks bit_simps)

section \<open>The platform interface and the state of the driver\<close>

record 's ra8875_lcd_s =
  write_reg :: "byte \<Rightarrow> byte \<Rightarrow> 's \<Rightarrow> 's"
  write_reg16 :: "byte \<Rightarrow> 16 word \<Rightarrow> 's \<Rightarrow> 's"
  read_reg :: "byte \<Rightarrow> 's \<Rightarrow> byte \<times> 's"
  read_status :: "'s \<Rightarrow> byte \<times> 's"
  pwrite_prepare :: "byte \<Rightarrow> 's \<Rightarrow> 's"
  pwrite_data8 :: "byte \<Rightarrow> 's \<Rightarrow> 's"
  pwrite_data16 :: "16 word \<Rightarrow> 's \<Rightarrow> 's"
  pwrite_finish :: "'s \<Rightarrow> 's"
  pread_prepare :: "byte \<Rightarrow> 's \<Rightarrow> 's"
  pread_data16 :: "'s \<Rightarrow> 16 word \<times> 's"
  pread_finish :: "'s \<Rightarrow> 's"

text \<open>
  \<open>struct ra8875_dev_s\<close>; the field \<open>lcd\<close> of the code is \<open>dev_lcd\<close>. The field \<open>current_layer\<close> is never
  used, the debug fields are compiled out, and the run buffer is only handed to the caller.
\<close>

record 's ra8875_dev_s =
  dev_lcd :: "'s ra8875_lcd_s"
  dev_power :: byte
  shadow_mwcr0 :: byte
  shadow_w_curh :: coord
  shadow_w_curv :: coord


section \<open>Low level access\<close>

definition ra8875_putreg :: "'s ra8875_lcd_s \<Rightarrow> byte \<Rightarrow> byte \<Rightarrow> 's \<Rightarrow> 's" where
  "ra8875_putreg lcd regaddr regval s = write_reg lcd regaddr regval s"

definition ra8875_putreg16 :: "'s ra8875_lcd_s \<Rightarrow> byte \<Rightarrow> 16 word \<Rightarrow> 's \<Rightarrow> 's" where
  "ra8875_putreg16 lcd regaddr regval s = write_reg16 lcd regaddr regval s"

definition ra8875_readreg :: "'s ra8875_lcd_s \<Rightarrow> byte \<Rightarrow> 's \<Rightarrow> byte \<times> 's" where
  "ra8875_readreg lcd regaddr s = read_reg lcd regaddr s"

text \<open>The loop of \<open>ra8875_waitreg\<close>; its first argument is the counter \<open>i\<close>.\<close>

fun waitreg_loop :: "nat \<Rightarrow> 's ra8875_lcd_s \<Rightarrow> byte \<Rightarrow> byte \<Rightarrow> 's \<Rightarrow> 's" where
  "waitreg_loop 0 lcd regaddr msk s = s"
| "waitreg_loop (Suc i) lcd regaddr msk s =
     (let (v, s) = ra8875_readreg lcd regaddr s
      in if v AND msk \<noteq> 0 then waitreg_loop i lcd regaddr msk s else s)"

definition ra8875_waitreg :: "'s ra8875_lcd_s \<Rightarrow> byte \<Rightarrow> byte \<Rightarrow> 's \<Rightarrow> 's" where
  "ra8875_waitreg lcd regaddr msk s = waitreg_loop (20000 div 100) lcd regaddr msk s"

definition set_curh :: "coord \<Rightarrow> 's ra8875_dev_s \<times> 's \<Rightarrow> 's ra8875_dev_s \<times> 's" where
  "set_curh v = (\<lambda>(dev, s).
     if shadow_w_curh dev \<noteq> v
     then (dev\<lparr>shadow_w_curh := v\<rparr>, ra8875_putreg16 (dev_lcd dev) RA8875_CURH0 v s)
     else (dev, s))"

definition set_curv :: "coord \<Rightarrow> 's ra8875_dev_s \<times> 's \<Rightarrow> 's ra8875_dev_s \<times> 's" where
  "set_curv v = (\<lambda>(dev, s).
     if shadow_w_curv dev \<noteq> v
     then (dev\<lparr>shadow_w_curv := v\<rparr>, ra8875_putreg16 (dev_lcd dev) RA8875_CURV0 v s)
     else (dev, s))"

definition ra8875_set_writecursor ::
  "orientation \<Rightarrow> coord \<Rightarrow> coord \<Rightarrow> 's ra8875_dev_s \<times> 's \<Rightarrow> 's ra8875_dev_s \<times> 's" where
  "ra8875_set_writecursor ori column row ds =
     (if ori \<in> {PORTRAIT, RPORTRAIT} then set_curv column (set_curh row ds)
      else set_curv row (set_curh column ds))"

definition ra8875_set_readcursor ::
  "orientation \<Rightarrow> 's ra8875_lcd_s \<Rightarrow> coord \<Rightarrow> coord \<Rightarrow> 's \<Rightarrow> 's" where
  "ra8875_set_readcursor ori lcd column row s =
     (if ori \<in> {PORTRAIT, RPORTRAIT}
      then ra8875_putreg16 lcd RA8875_RCURV0 column (ra8875_putreg16 lcd RA8875_RCURH0 row s)
      else ra8875_putreg16 lcd RA8875_RCURV0 row (ra8875_putreg16 lcd RA8875_RCURH0 column s))"

definition ra8875_set_mwcr0 :: "byte \<Rightarrow> 's ra8875_dev_s \<times> 's \<Rightarrow> 's ra8875_dev_s \<times> 's" where
  "ra8875_set_mwcr0 v = (\<lambda>(dev, s).
     if shadow_mwcr0 dev \<noteq> v
     then (dev\<lparr>shadow_mwcr0 := v\<rparr>, ra8875_putreg (dev_lcd dev) RA8875_MWCR0 v s)
     else (dev, s))"

definition ra8875_setwindow ::
  "orientation \<Rightarrow> 's ra8875_lcd_s \<Rightarrow> coord \<Rightarrow> coord \<Rightarrow> coord \<Rightarrow> coord \<Rightarrow> 's \<Rightarrow> 's" where
  "ra8875_setwindow ori lcd x y width height s =
     (if ori \<in> {PORTRAIT, RPORTRAIT} then
        (let s = ra8875_putreg16 lcd RA8875_HSAW0 y s;
             s = ra8875_putreg16 lcd RA8875_VSAW0 x s;
             s = ra8875_putreg16 lcd RA8875_HEAW0 (y + height - 1) s
         in ra8875_putreg16 lcd RA8875_VEAW0 (x + width - 1) s)
      else
        (let s = ra8875_putreg16 lcd RA8875_HSAW0 x s;
             s = ra8875_putreg16 lcd RA8875_VSAW0 y s;
             s = ra8875_putreg16 lcd RA8875_HEAW0 (x + width - 1) s
         in ra8875_putreg16 lcd RA8875_VEAW0 (y + height - 1) s))"

definition ra8875_setbackground :: "'s ra8875_lcd_s \<Rightarrow> 16 word \<Rightarrow> 's \<Rightarrow> 's" where
  "ra8875_setbackground lcd color s =
     (let s = ra8875_putreg lcd RA8875_BGCR0 (RA8875_UNPACK_RED color) s;
          s = ra8875_putreg lcd RA8875_BGCR1 (RA8875_UNPACK_GREEN color) s
      in ra8875_putreg lcd RA8875_BGCR2 (RA8875_UNPACK_BLUE color) s)"

definition ra8875_setforeground :: "'s ra8875_lcd_s \<Rightarrow> 16 word \<Rightarrow> 's \<Rightarrow> 's" where
  "ra8875_setforeground lcd color s =
     (let s = ra8875_putreg lcd RA8875_FGCR0 (RA8875_UNPACK_RED color) s;
          s = ra8875_putreg lcd RA8875_FGCR1 (RA8875_UNPACK_GREEN color) s
      in ra8875_putreg lcd RA8875_FGCR2 (RA8875_UNPACK_BLUE color) s)"

definition ra8875_clearmem :: "'s ra8875_lcd_s \<Rightarrow> 's \<Rightarrow> 's" where
  "ra8875_clearmem lcd s =
     ra8875_waitreg lcd RA8875_MCLR RA8875_MCLR_CLEAR
       (ra8875_putreg lcd RA8875_MCLR (RA8875_MCLR_CLEAR OR RA8875_MCLR_FULL) s)"

section \<open>Runs of pixels\<close>

text \<open>The bits \<open>RA8875_MWCR0_MEMDIR_*\<close>. Graphics mode and the two increment bits are zero.\<close>

definition mwcr0_memdir :: "orientation \<Rightarrow> byte" where
  "mwcr0_memdir ori = push_bit 2
     (case ori of LANDSCAPE \<Rightarrow> 0 | RLANDSCAPE \<Rightarrow> 1 | PORTRAIT \<Rightarrow> 2 | RPORTRAIT \<Rightarrow> 3)"

text \<open>The coordinates after the rotation, as \<open>(col, row)\<close>, and the increments of the cursor.\<close>

definition run_pos :: "orientation \<Rightarrow> coord \<Rightarrow> coord \<Rightarrow> coord \<times> coord" where
  "run_pos ori row col = (case ori of
       LANDSCAPE \<Rightarrow> (col, row)
     | RLANDSCAPE \<Rightarrow> (RA8875_XRES - 1 - col, RA8875_YRES - 1 - row)
     | PORTRAIT \<Rightarrow> (col, RA8875_YRES - 1 - row)
     | RPORTRAIT \<Rightarrow> (RA8875_XRES - 1 - col, row))"

definition run_inc :: "orientation \<Rightarrow> nat \<Rightarrow> coord \<times> coord" where
  "run_inc ori npixels = (case ori of
       LANDSCAPE \<Rightarrow> (of_nat npixels, 0)
     | RLANDSCAPE \<Rightarrow> (- of_nat npixels, 0)
     | PORTRAIT \<Rightarrow> (0, of_nat npixels)
     | RPORTRAIT \<Rightarrow> (0, - of_nat npixels))"

text \<open>The buffer is the list of its pixels; reading behind its end is undefined.\<close>

definition ra8875_putrun ::
  "orientation \<Rightarrow> coord \<Rightarrow> coord \<Rightarrow> 16 word list \<Rightarrow> nat \<Rightarrow> 's ra8875_dev_s \<times> 's
     \<Rightarrow> ('s ra8875_dev_s \<times> 's) option" where
  "ra8875_putrun ori row col buffer npixels ds =
     (if npixels \<le> length buffer then
        (let (c, r) = run_pos ori row col;
             (dev, s) = ra8875_set_writecursor ori c r (ra8875_set_mwcr0 (mwcr0_memdir ori) ds);
             lcd = dev_lcd dev;
             s = pwrite_prepare lcd RA8875_MRWC s;
             s = fold (pwrite_data16 lcd) (take npixels buffer) s;
             s = pwrite_finish lcd s;
             (curhinc, curvinc) = run_inc ori npixels
         in Some (dev\<lparr>shadow_w_curh := shadow_w_curh dev + curhinc,
                      shadow_w_curv := shadow_w_curv dev + curvinc\<rparr>, s))
      else None)"

fun getrun_loop :: "nat \<Rightarrow> 's ra8875_lcd_s \<Rightarrow> 's \<Rightarrow> 16 word list \<times> 's" where
  "getrun_loop 0 lcd s = ([], s)"
| "getrun_loop (Suc n) lcd s =
     (let (p, s) = pread_data16 lcd s; (ps, s) = getrun_loop n lcd s in (p # ps, s))"

text \<open>
  The result is the contents of the buffer. In the portrait orientation the code names the
  undefined macro \<open>RA8875_MWCR0_MEMDIR_TPDOWN\<close> and does not compile: that is \<^term>\<open>None\<close>.
\<close>

definition ra8875_getrun ::
  "orientation \<Rightarrow> coord \<Rightarrow> coord \<Rightarrow> nat \<Rightarrow> 's ra8875_dev_s \<times> 's \<Rightarrow> (16 word list \<times> 's) option" where
  "ra8875_getrun ori row col npixels = (\<lambda>(dev, s).
     if ori = PORTRAIT then None else
     (let lcd = dev_lcd dev;
          (c, r) = run_pos ori row col;
          s = ra8875_putreg lcd RA8875_MWCR0 (mwcr0_memdir ori) s;
          s = ra8875_putreg lcd RA8875_MRDC (mwcr0_memdir ori) s;
          s = ra8875_set_readcursor ori lcd c r s;
          s = pread_prepare lcd RA8875_MRWC s;
          (ps, s) = getrun_loop npixels lcd s
      in Some (ps, pread_finish lcd s)))"

section \<open>Information and power\<close>

record fb_videoinfo_s =
  fmt :: nat
  xres :: coord
  yres :: coord
  nplanes :: nat

definition FB_FMT_RGB16_565 :: nat where
  "FB_FMT_RGB16_565 = 9"

definition ra8875_getvideoinfo :: fb_videoinfo_s where
  "ra8875_getvideoinfo =
     \<lparr>fmt = FB_FMT_RGB16_565, xres = RA8875_XRES, yres = RA8875_YRES, nplanes = 1\<rparr>"

text \<open>
  Of the plane information only the depth is data; the other fields are the addresses of
  \<^const>\<open>ra8875_putrun\<close>, \<^const>\<open>ra8875_getrun\<close> and of the run buffer.
\<close>

definition ra8875_getplaneinfo :: "nat \<Rightarrow> nat option" where
  "ra8875_getplaneinfo planeno = do { ASSERT (planeno = 0); Some RA8875_BPP }"

definition ra8875_getpower :: "'s ra8875_dev_s \<Rightarrow> byte" where
  "ra8875_getpower dev = dev_power dev"

definition ra8875_poweroff :: "'s ra8875_dev_s \<times> 's \<Rightarrow> 's ra8875_dev_s \<times> 's" where
  "ra8875_poweroff = (\<lambda>(dev, s).
     let lcd = dev_lcd dev;
         s = ra8875_putreg lcd RA8875_P1CR RA8875_P1CR_PWM_DISABLE s;
         s = ra8875_putreg lcd RA8875_P1DCR 0 s;
         s = ra8875_putreg lcd RA8875_PWRR RA8875_PWRR_DISPLAY_OFF s
     in (dev\<lparr>dev_power := 0\<rparr>, s))"

definition CONFIG_LCD_MAXPOWER :: int where
  "CONFIG_LCD_MAXPOWER = 255"

text \<open>The cast to \<open>unsigned\<close> in the assertion makes a negative power fail it.\<close>

definition ra8875_setpower ::
  "int \<Rightarrow> 's ra8875_dev_s \<times> 's \<Rightarrow> ('s ra8875_dev_s \<times> 's) option" where
  "ra8875_setpower pw = (\<lambda>(dev, s). do {
     ASSERT (0 \<le> pw \<and> pw \<le> CONFIG_LCD_MAXPOWER);
     Some (if pw > 0 then
       (let lcd = dev_lcd dev;
            s = (if dev_power dev = 0
                 then ra8875_putreg lcd RA8875_P1CR (RA8875_P1CR_PWM_ENABLE OR RA8875_P1CR_CSDIV 1)
                        (ra8875_putreg lcd RA8875_P1CR RA8875_P1CR_PWM_ENABLE s)
                 else s);
            s = ra8875_putreg lcd RA8875_P1DCR (of_int pw) s;
            s = ra8875_putreg lcd RA8875_PWRR RA8875_PWRR_DISPLAY_ON s
        in (dev\<lparr>dev_power := of_int pw\<rparr>, s))
     else ra8875_poweroff (dev, s)) })"

text \<open>Both contrast functions only return \<open>-ENOSYS\<close>.\<close>

definition ra8875_getcontrast :: int where
  "ra8875_getcontrast = - 38"

definition ra8875_setcontrast :: "nat \<Rightarrow> int" where
  "ra8875_setcontrast contrast = - 38"

section \<open>Drawing\<close>

text \<open>Starting the drawing engine and waiting for it, common to the four drawing functions.\<close>

definition run_drawing :: "'s ra8875_lcd_s \<Rightarrow> byte \<Rightarrow> byte \<Rightarrow> 's \<Rightarrow> 's" where
  "run_drawing lcd draw_cmd start s =
     (let s = ra8875_putreg lcd RA8875_DCR draw_cmd s;
          s = ra8875_putreg lcd RA8875_DCR (draw_cmd OR start) s
      in ra8875_waitreg lcd RA8875_DCR start s)"

definition put_corners :: "'s ra8875_lcd_s \<Rightarrow> coord \<Rightarrow> coord \<Rightarrow> coord \<Rightarrow> coord \<Rightarrow> 's \<Rightarrow> 's" where
  "put_corners lcd sx sy ex ey s =
     (let s = ra8875_putreg16 lcd RA8875_DLHSR0 sx s;
          s = ra8875_putreg16 lcd RA8875_DLVSR0 sy s;
          s = ra8875_putreg16 lcd RA8875_DLHER0 ex s
      in ra8875_putreg16 lcd RA8875_DLVER0 ey s)"

definition ra8875_drawline ::
  "orientation \<Rightarrow> 's ra8875_dev_s \<Rightarrow> coord \<Rightarrow> coord \<Rightarrow> coord \<Rightarrow> coord \<Rightarrow> 16 word \<Rightarrow> 's \<Rightarrow> 's" where
  "ra8875_drawline ori dev x1 y1 x2 y2 color s =
     (let lcd = dev_lcd dev;
          s = ra8875_setforeground lcd color s;
          (sx, sy, ex, ey) = (if ori \<in> {LANDSCAPE, RLANDSCAPE} then (x1, y1, x2, y2)
                              else (y1, x1, y2, x2));
          s = put_corners lcd sx sy ex ey s
      in run_drawing lcd RA8875_DCR_LINE RA8875_DCR_LINE_START s)"

text \<open>The coordinates \<open>(sx, sy, ex, ey)\<close> of \<open>ra8875_drawrectangle\<close>.\<close>

definition rect_coords ::
  "orientation \<Rightarrow> coord \<Rightarrow> coord \<Rightarrow> coord \<Rightarrow> coord \<Rightarrow> coord \<times> coord \<times> coord \<times> coord" where
  "rect_coords ori x y width height = (case ori of
       LANDSCAPE \<Rightarrow> (x, y, x + width - 1, y + height - 1)
     | RLANDSCAPE \<Rightarrow> ((RA8875_XRES - 1) - x - width + 1, (RA8875_YRES - 1) - y - height + 1,
                      (RA8875_XRES - 1) - x, (RA8875_YRES - 1) - y)
     | PORTRAIT \<Rightarrow> ((RA8875_YRES - 1) - y - height + 1, x, (RA8875_YRES - 1) - y, x + width - 1)
     | RPORTRAIT \<Rightarrow> (y, (RA8875_XRES - 1) - x - width + 1, y + height - 1, (RA8875_XRES - 1) - x))"

definition ra8875_drawrectangle ::
  "orientation \<Rightarrow> 's ra8875_dev_s \<Rightarrow> coord \<Rightarrow> coord \<Rightarrow> coord \<Rightarrow> coord \<Rightarrow> 16 word \<Rightarrow> bool \<Rightarrow> 's \<Rightarrow> 's" where
  "ra8875_drawrectangle ori dev x y width height color fill s =
     (let lcd = dev_lcd dev;
          s = ra8875_setforeground lcd color s;
          s = (if width = 1 then ra8875_drawline ori dev x y x (y + height) color s
               else if height = 1 then ra8875_drawline ori dev x y (x + width) y color s
               else s);
          draw_cmd = (if fill then RA8875_DCR_SQUARE OR RA8875_DCR_FILL else RA8875_DCR_SQUARE);
          (sx, sy, ex, ey) = rect_coords ori x y width height;
          s = put_corners lcd sx sy ex ey s
      in run_drawing lcd draw_cmd RA8875_DCR_LINE_START s)"

definition ra8875_clear :: "orientation \<Rightarrow> 's ra8875_dev_s \<Rightarrow> 16 word \<Rightarrow> 's \<Rightarrow> 's" where
  "ra8875_clear ori dev color s =
     ra8875_drawrectangle ori dev 0 0 RA8875_XRES RA8875_YRES color True s"

definition ra8875_drawtriangle ::
  "orientation \<Rightarrow> 's ra8875_dev_s \<Rightarrow> coord \<Rightarrow> coord \<Rightarrow> coord \<Rightarrow> coord \<Rightarrow> coord \<Rightarrow> coord
     \<Rightarrow> 16 word \<Rightarrow> bool \<Rightarrow> 's \<Rightarrow> 's" where
  "ra8875_drawtriangle ori dev x0 y0 x1 y1 x2 y2 color fill s =
     (let lcd = dev_lcd dev;
          s = ra8875_setforeground lcd color s;
          draw_cmd = (if fill then RA8875_DCR_TRIANGLE OR RA8875_DCR_FILL else RA8875_DCR_TRIANGLE);
          (p0, q0, p1, q1, p2, q2) = (if ori \<in> {LANDSCAPE, RLANDSCAPE}
             then (x0, y0, x1, y1, x2, y2) else (y0, x0, y1, x1, y2, x2));
          s = put_corners lcd p0 q0 p1 q1 s;
          s = ra8875_putreg16 lcd RA8875_DTPH0 p2 s;
          s = ra8875_putreg16 lcd RA8875_DTPV0 q2 s
      in run_drawing lcd draw_cmd RA8875_DCR_LINE_START s)"

definition ra8875_drawcircle ::
  "orientation \<Rightarrow> 's ra8875_dev_s \<Rightarrow> coord \<Rightarrow> coord \<Rightarrow> byte \<Rightarrow> 16 word \<Rightarrow> bool \<Rightarrow> 's \<Rightarrow> 's" where
  "ra8875_drawcircle ori dev x y radius color fill s =
     (let lcd = dev_lcd dev;
          s = ra8875_setforeground lcd color s;
          draw_cmd = (if fill then 0 OR RA8875_DCR_FILL else 0);
          (p, q) = (if ori \<in> {LANDSCAPE, RLANDSCAPE} then (x, y) else (y, x));
          s = ra8875_putreg16 lcd RA8875_DCHR0 p s;
          s = ra8875_putreg16 lcd RA8875_DCVR0 q s;
          s = ra8875_putreg lcd RA8875_DCRR radius s
      in run_drawing lcd draw_cmd RA8875_DCR_CIRCLE_START s)"

section \<open>Initialization\<close>

definition put_timing :: "orientation \<Rightarrow> 's ra8875_lcd_s \<Rightarrow> 's \<Rightarrow> 's" where
  "put_timing ori lcd s =
     (let s = ra8875_putreg lcd RA8875_HDWR (RA8875_HDWR_WIDTH (RA8875_HW_XRES ori)) s;
          s = ra8875_putreg lcd RA8875_HNDFTR 0x02 s;
          s = ra8875_putreg lcd RA8875_HNDR 0x03 s;
          s = ra8875_putreg lcd RA8875_HSTR 0x01 s;
          s = ra8875_putreg lcd RA8875_HPWR 0x03 s;
          s = ra8875_putreg lcd RA8875_VDHR0 (RA8875_VDHR0_HEIGHT (RA8875_HW_YRES ori)) s;
          s = ra8875_putreg lcd RA8875_VDHR1 (RA8875_VDHR1_HEIGHT (RA8875_HW_YRES ori)) s;
          s = ra8875_putreg lcd RA8875_VNDR0 0x0f s;
          s = ra8875_putreg lcd RA8875_VNDR1 0x00 s;
          s = ra8875_putreg lcd RA8875_VSTR0 0x0e s;
          s = ra8875_putreg lcd RA8875_VSTR1 0x06 s
      in ra8875_putreg lcd RA8875_VPWR 0x01 s)"

definition ra8875_hwinitialize ::
  "orientation \<Rightarrow> 's ra8875_dev_s \<times> 's \<Rightarrow> ('s ra8875_dev_s \<times> 's) option" where
  "ra8875_hwinitialize ori = (\<lambda>(dev, s).
     let lcd = dev_lcd dev;
         s = ra8875_putreg lcd RA8875_PLLC1 (RA8875_PLLC1_PLLDIVN 11) s;
         s = ra8875_putreg lcd RA8875_PLLC2 (RA8875_PLLC2_PLLDIVK 2) s;
         s = ra8875_putreg lcd RA8875_SYSR (RA8875_SYSR_COLOR_65K OR RA8875_SYSR_MCUIF_8BIT) s;
         s = ra8875_putreg lcd RA8875_PCSR (RA8875_PCSR_PCLK_INV OR RA8875_PCSR_PERIOD_4SYS) s;
         s = put_timing ori lcd s;
         s = ra8875_putreg lcd RA8875_DPCR (if RA8875_2LAYER_POSSIBLE ori
               then RA8875_DPCR_LAYERS_TWO else RA8875_DPCR_LAYERS_ONE) s;
         s = ra8875_setwindow ori lcd 0 0 RA8875_XRES RA8875_YRES s;
         s = ra8875_setbackground lcd 0x0000 s;
         s = ra8875_setforeground lcd 0xffff s;
         s = ra8875_clearmem lcd s
     in do {
       (dev, s) \<leftarrow> ra8875_setpower 0 (dev, s);
       Some (dev\<lparr>shadow_mwcr0 := 0, shadow_w_curh := 0, shadow_w_curv := 0\<rparr>, s) })"

text \<open>The status of \<open>ra8875_hwinitialize\<close> is always \<open>OK\<close>, so the device is always returned.\<close>

definition ra8875_lcdinitialize ::
  "orientation \<Rightarrow> 's ra8875_lcd_s \<Rightarrow> 's ra8875_dev_s \<times> 's \<Rightarrow> ('s ra8875_dev_s \<times> 's) option" where
  "ra8875_lcdinitialize ori lcd = (\<lambda>(dev, s). do {
     (dev, s) \<leftarrow> ra8875_hwinitialize ori (dev\<lparr>dev_lcd := lcd\<rparr>, s);
     Some (ra8875_poweroff (dev, ra8875_clear ori dev 0 s)) })"

section \<open>What the register writes draw\<close>

text \<open>
  The specification of the drawing functions. A write to \<open>RA8875_DCR\<close> with the start bit triggers one
  drawing with the corners and the colour that the registers hold at that moment.
\<close>

record drawing =
  d_cmd :: byte
  d_from :: "coord \<times> coord"
  d_to :: "coord \<times> coord"
  d_color :: "16 word"

definition reg16 :: "(byte \<Rightarrow> byte) \<Rightarrow> byte \<Rightarrow> 16 word" where
  "reg16 regs r = push_bit 8 (ucast (regs (r + 1))) OR ucast (regs r)"

definition reg_color :: "(byte \<Rightarrow> byte) \<Rightarrow> 16 word" where
  "reg_color regs = RA8875_PACK_RGB (regs RA8875_FGCR0) (regs RA8875_FGCR1) (regs RA8875_FGCR2)"

fun draw_step :: "byte \<times> byte \<Rightarrow> (byte \<Rightarrow> byte) \<times> drawing list \<Rightarrow> (byte \<Rightarrow> byte) \<times> drawing list" where
  "draw_step (r, v) (regs, ds) =
     (regs(r := v),
      if r = RA8875_DCR \<and> v AND RA8875_DCR_LINE_START \<noteq> 0
      then ds @ [\<lparr>d_cmd = v, d_from = (reg16 regs RA8875_DLHSR0, reg16 regs RA8875_DLVSR0),
                  d_to = (reg16 regs RA8875_DLHER0, reg16 regs RA8875_DLVER0),
                  d_color = reg_color regs\<rparr>]
      else ds)"

definition engine :: "(byte \<times> byte) list \<Rightarrow> (byte \<Rightarrow> byte) \<times> drawing list" where
  "engine ws = fold draw_step ws (\<lambda>_. 0, [])"

definition drawn :: "(byte \<times> byte) list \<Rightarrow> drawing list" where
  "drawn ws = snd (engine ws)"

definition color_set :: "(byte \<times> byte) list \<Rightarrow> 16 word" where
  "color_set ws = reg_color (fst (engine ws))"

text \<open>The writes that make the whole panel the active window.\<close>

definition window_writes :: "orientation \<Rightarrow> (byte \<times> byte) list" where
  "window_writes ori = [(RA8875_HSAW0, 0), (RA8875_HSAW0 + 1, 0), (RA8875_VSAW0, 0), (RA8875_VSAW0 + 1, 0),
     (RA8875_HEAW0, ucast ((RA8875_HW_XRES ori - 1) AND 0xff)), (RA8875_HEAW0 + 1, ucast (drop_bit 8 (RA8875_HW_XRES ori - 1))),
     (RA8875_VEAW0, ucast ((RA8875_HW_YRES ori - 1) AND 0xff)), (RA8875_VEAW0 + 1, ucast (drop_bit 8 (RA8875_HW_YRES ori - 1)))]"

text \<open>The drawings of a line and of a rectangle in the coordinates of the caller.\<close>

definition line_of :: "orientation \<Rightarrow> coord \<Rightarrow> coord \<Rightarrow> coord \<Rightarrow> coord \<Rightarrow> 16 word \<Rightarrow> drawing" where
  "line_of ori x1 y1 x2 y2 c =
     \<lparr>d_cmd = RA8875_DCR_LINE OR RA8875_DCR_LINE_START,
      d_from = (if ori \<in> {LANDSCAPE, RLANDSCAPE} then (x1, y1) else (y1, x1)),
      d_to = (if ori \<in> {LANDSCAPE, RLANDSCAPE} then (x2, y2) else (y2, x2)), d_color = c\<rparr>"

definition square_of :: "orientation \<Rightarrow> coord \<Rightarrow> coord \<Rightarrow> coord \<Rightarrow> coord \<Rightarrow> 16 word \<Rightarrow> bool \<Rightarrow> drawing" where
  "square_of ori x y w h c fill = (let (sx, sy, ex, ey) = rect_coords ori x y w h in
     \<lparr>d_cmd = (if fill then RA8875_DCR_SQUARE OR RA8875_DCR_FILL else RA8875_DCR_SQUARE)
              OR RA8875_DCR_LINE_START,
      d_from = (sx, sy), d_to = (ex, ey), d_color = c\<rparr>)"

text \<open>The pixels of a drawn square, and where the panel has the pixel \<open>(column, row)\<close> of the caller.\<close>

definition box :: "drawing \<Rightarrow> (nat \<times> nat) set" where
  "box d = {unat (fst (d_from d))..unat (fst (d_to d))} \<times> {unat (snd (d_from d))..unat (snd (d_to d))}"

definition panel :: "orientation \<Rightarrow> nat \<times> nat \<Rightarrow> nat \<times> nat" where
  "panel ori = (\<lambda>(i, j). case ori of
       LANDSCAPE \<Rightarrow> (i, j)
     | RLANDSCAPE \<Rightarrow> (unat RA8875_XRES - 1 - i, unat RA8875_YRES - 1 - j)
     | PORTRAIT \<Rightarrow> (unat RA8875_YRES - 1 - j, i)
     | RPORTRAIT \<Rightarrow> (j, unat RA8875_XRES - 1 - i))"

lemma split_word: "push_bit 8 (ucast (ucast (drop_bit 8 w) :: byte)) OR ucast (ucast (w AND 0xff) :: byte) = w"
  for w :: "16 word"
proof -
  have m: "(0xff :: 16 word) = Bit_Operations.mask 8"
    by (simp add: mask_eq_exp_minus_1)
  show ?thesis
    by (rule bit_word_eqI, rename_tac n, case_tac "8 \<le> n") (auto simp: m bit_simps)
qed

lemma engine_append: "engine (ws @ xs) = fold draw_step xs (engine ws)"
  by (simp add: engine_def)

lemma color_set_fg [simp]:
  "color_set (ws @ [(RA8875_FGCR0, RA8875_UNPACK_RED c), (RA8875_FGCR1, RA8875_UNPACK_GREEN c),
       (RA8875_FGCR2, RA8875_UNPACK_BLUE c)]) = c"
  "drawn (ws @ [(RA8875_FGCR0, RA8875_UNPACK_RED c), (RA8875_FGCR1, RA8875_UNPACK_GREEN c),
       (RA8875_FGCR2, RA8875_UNPACK_BLUE c)]) = drawn ws"
  by (cases "engine ws", simp add: color_set_def drawn_def engine_append reg_color_def)+

lemma regs_append:
  "fst (engine (ws @ xs)) r = (case map_of (rev xs) r of None \<Rightarrow> fst (engine ws) r | Some v \<Rightarrow> v)"
proof (induction xs rule: rev_induct)
  case (snoc x xs)
  then show ?case
    by (cases x, cases "fold draw_step xs (engine ws)") (auto simp: engine_append)
qed simp

lemma drawn_quiet: "RA8875_DCR \<notin> fst ` set xs \<Longrightarrow> drawn (ws @ xs) = drawn ws"
proof (induction xs rule: rev_induct)
  case (snoc x xs)
  then show ?case
    by (cases x, cases "fold draw_step xs (engine ws)") (auto simp: engine_append drawn_def)
qed simp

lemma window_regs:
  fixes ws :: "(byte \<times> byte) list" and ori :: orientation
  assumes "fst ` set xs \<inter> {0x30..0x37} = {}"
  defines "regs \<equiv> fst (engine (ws @ window_writes ori @ xs))"
  shows "reg16 regs RA8875_HSAW0 = 0" "reg16 regs RA8875_VSAW0 = 0"
    "reg16 regs RA8875_HEAW0 = RA8875_HW_XRES ori - 1" "reg16 regs RA8875_VEAW0 = RA8875_HW_YRES ori - 1"
proof -
  have "regs q = the (map_of (rev (window_writes ori)) q)"
    if "q \<in> {0x30, 0x31, 0x32, 0x33, 0x34, 0x35, 0x36, 0x37}" for q
  proof -
    have "q \<notin> fst ` set xs"
      using that assms(1) by auto
    then have n: "map_of (rev xs) q = None"
      by (simp add: map_of_eq_None_iff)
    have "fst (engine (ws @ window_writes ori)) q = the (map_of (rev (window_writes ori)) q)"
      using that by (auto simp: regs_append window_writes_def)
    then show ?thesis
      by (simp add: regs_def regs_append [of "ws @ window_writes ori" xs, simplified] n)
  qed
  then show "reg16 regs RA8875_HSAW0 = 0" "reg16 regs RA8875_VSAW0 = 0"
    "reg16 regs RA8875_HEAW0 = RA8875_HW_XRES ori - 1" "reg16 regs RA8875_VEAW0 = RA8875_HW_YRES ori - 1"
    by (simp_all add: reg16_def window_writes_def split_word)
qed

definition corners :: "coord \<Rightarrow> coord \<Rightarrow> coord \<Rightarrow> coord \<Rightarrow> (byte \<times> byte) list" where
  "corners sx sy ex ey = concat (map (\<lambda>(r, w). [(r, ucast (w AND 0xff)), (r + 1, ucast (drop_bit 8 w))])
     [(RA8875_DLHSR0, sx), (RA8875_DLVSR0, sy), (RA8875_DLHER0, ex), (RA8875_DLVER0, ey)])"

definition go :: "byte \<Rightarrow> (byte \<times> byte) list" where
  "go cmd = [(RA8875_DCR, cmd), (RA8875_DCR, cmd OR RA8875_DCR_LINE_START)]"

lemma drawn_corners [simp]:
  assumes "cmd \<in> {RA8875_DCR_LINE, RA8875_DCR_SQUARE, RA8875_DCR_SQUARE OR RA8875_DCR_FILL}"
  shows "drawn ((ws @ corners sx sy ex ey) @ go cmd) = drawn ws @
           [\<lparr>d_cmd = cmd OR RA8875_DCR_LINE_START, d_from = (sx, sy), d_to = (ex, ey),
             d_color = color_set ws\<rparr>]"
    and "color_set ((ws @ corners sx sy ex ey) @ go cmd) = color_set ws"
  using assms
  by (cases "engine ws"; auto simp: go_def corners_def drawn_def engine_append reg16_def split_word
        color_set_def reg_color_def)+

lemma rev_interval: "0 < w \<Longrightarrow> x + w \<le> Suc n \<Longrightarrow> (\<lambda>i. n - i) ` {x..<x + w} = {Suc n - x - w..n - x}"
proof (intro set_eqI iffI)
  fix k assume "0 < w" "x + w \<le> Suc n" "k \<in> {Suc n - x - w..n - x}"
  then have "k = n - (n - k)" "n - k \<in> {x..<x + w}"
    by auto
  then show "k \<in> (\<lambda>i. n - i) ` {x..<x + w}"
    by (rule image_eqI)
qed auto

lemma image_swapped: "(\<lambda>(i, j). (f j, g i)) ` (A \<times> B) = (f ` B) \<times> (g ` A)"
proof -
  have "(\<lambda>(i, j). (f j, g i)) = (\<lambda>(j, i). (f j, g i)) \<circ> prod.swap"
    by auto
  then show ?thesis
    by (simp only: image_comp [symmetric] product_swap image_paired_Times)
qed

lemma panel_image:
  "panel LANDSCAPE ` (A \<times> B) = A \<times> B"
  "panel RLANDSCAPE ` (A \<times> B) = ((\<lambda>i. 479 - i) ` A) \<times> ((\<lambda>j. 271 - j) ` B)"
  "panel PORTRAIT ` (A \<times> B) = ((\<lambda>j. 271 - j) ` B) \<times> A"
  "panel RPORTRAIT ` (A \<times> B) = B \<times> ((\<lambda>i. 479 - i) ` A)"
  using image_swapped [of "\<lambda>j. 271 - j" "\<lambda>i. i" A B] image_swapped [of "\<lambda>j. j" "\<lambda>i. 479 - i" A B]
  by (simp_all add: panel_def RA8875_XRES_def RA8875_YRES_def image_paired_Times)

lemma unat_span:
  fixes x w n :: coord
  assumes "0 < w" "unat x + unat w \<le> unat n"
  shows "unat (x + w - 1) = unat x + unat w - 1" and "unat (n - 1 - x - w + 1) = unat n - unat x - unat w"
    and "unat (n - 1 - x) = unat n - 1 - unat x"
proof -
  have "unat n < 65536" "0 < unat w"
    using unsigned_less [of n] assms(1) by (simp_all add: unat_gt_0)
  then have xw: "unat (x + w) = unat x + unat w" and x1: "unat (x + 1) = unat x + 1"
    using assms(2) by (simp_all add: unat_word_ariths)
  have "1 \<le> x + w" "x + w \<le> n" "x + 1 \<le> n"
    using xw x1 assms(2) \<open>0 < unat w\<close> by (simp_all add: word_le_nat_alt)
  then have "unat (x + w - 1) = unat x + unat w - 1" "unat (n - (x + w)) = unat n - (unat x + unat w)"
    "unat (n - (x + 1)) = unat n - (unat x + 1)"
    by (simp_all only: unat_sub xw x1 unat_1)
  then show "unat (x + w - 1) = unat x + unat w - 1" "unat (n - 1 - x - w + 1) = unat n - unat x - unat w"
    "unat (n - 1 - x) = unat n - 1 - unat x"
    by (simp_all add: algebra_simps)
qed

lemma square_box:
  assumes "0 < w" "0 < h" "unat x + unat w \<le> unat RA8875_XRES" "unat y + unat h \<le> unat RA8875_YRES"
  shows "box (square_of ori x y w h c fill) =
     panel ori ` ({unat x..<unat x + unat w} \<times> {unat y..<unat y + unat h})"
proof -
  note spans = unat_span [OF assms(1,3)] unat_span [OF assms(2,4)]
  have W: "0 < unat w" "0 < unat h"
    using assms(1,2) by (simp_all add: unat_gt_0)
  have P: "{a..a + n - 1} = {a..<a + n}" if "0 < n" for a n :: nat
    using that by auto
  have res: "unat RA8875_XRES = 480" "unat RA8875_YRES = 272"
    by (simp_all add: RA8875_XRES_def RA8875_YRES_def)
  have bx: "box (square_of ori x y w h c fill) = (case rect_coords ori x y w h of
      (sx, sy, ex, ey) \<Rightarrow> {unat sx..unat ex} \<times> {unat sy..unat ey})"
    by (simp add: box_def square_of_def split: prod.splits)
  show ?thesis
    unfolding bx using assms(3,4) W
    by (cases ori)
       (simp_all only: rect_coords_def orientation.case prod.case spans res panel_image P,
        simp_all add: rev_interval)
qed

section \<open>The register contract of the interface\<close>

text \<open>
  What the drawing functions rely on: \<open>writes\<close> tells which registers of the controller were written,
  in order; a 16-bit value goes to a register and its successor, low byte first, and reading a
  register writes none.
\<close>

locale lcd_registers =
  fixes lcd :: "'s ra8875_lcd_s"
    and writes :: "'s \<Rightarrow> (byte \<times> byte) list"
  assumes write_reg: "writes (write_reg lcd r v s) = writes s @ [(r, v)]"
    and write_reg16: "writes (write_reg16 lcd r w s) =
          writes s @ [(r, ucast (w AND 0xff)), (r + 1, ucast (drop_bit 8 w))]"
    and read_reg: "writes (snd (read_reg lcd r s)) = writes s"
begin

lemma putreg_writes [simp]: "writes (ra8875_putreg lcd r v s) = writes s @ [(r, v)]"
  by (simp add: ra8875_putreg_def write_reg)

lemma putreg16_writes [simp]:
  "writes (ra8875_putreg16 lcd r w s) =
     writes s @ [(r, ucast (w AND 0xff)), (r + 1, ucast (drop_bit 8 w))]"
  by (simp add: ra8875_putreg16_def write_reg16)

lemma waitreg_loop_writes [simp]: "writes (waitreg_loop i lcd r m s) = writes s"
proof (induction i arbitrary: s)
  case (Suc i)
  then show ?case
    using read_reg [of r s] by (auto simp: ra8875_readreg_def split: prod.splits)
qed simp

lemma waitreg_writes [simp]: "writes (ra8875_waitreg lcd r m s) = writes s"
  by (simp add: ra8875_waitreg_def)

lemma setforeground_writes [simp]:
  "writes (ra8875_setforeground lcd c s) =
     writes s @ [(RA8875_FGCR0, RA8875_UNPACK_RED c), (RA8875_FGCR1, RA8875_UNPACK_GREEN c),
       (RA8875_FGCR2, RA8875_UNPACK_BLUE c)]"
  by (simp add: ra8875_setforeground_def)

lemma run_drawing_writes [simp]:
  "writes (run_drawing lcd cmd RA8875_DCR_LINE_START s) = writes s @ go cmd"
  by (simp add: run_drawing_def go_def)

lemma put_corners_writes [simp]:
  "writes (put_corners lcd sx sy ex ey s) = writes s @ corners sx sy ex ey"
  by (simp add: put_corners_def corners_def)

lemma drawline_drawn:
  assumes "dev_lcd dev = lcd"
  shows "drawn (writes (ra8875_drawline ori dev x1 y1 x2 y2 c s)) =
      drawn (writes s) @ [line_of ori x1 y1 x2 y2 c]"
    and "color_set (writes (ra8875_drawline ori dev x1 y1 x2 y2 c s)) = c"
  using assms by (simp_all add: ra8875_drawline_def line_of_def del: append_assoc)

text \<open>Before the rectangle itself, the code draws a line for a rectangle one pixel wide or high.\<close>

lemma drawrectangle_drawn:
  assumes "dev_lcd dev = lcd"
  shows "drawn (writes (ra8875_drawrectangle ori dev x y w h c fill s)) = drawn (writes s)
     @ (if w = 1 then [line_of ori x y x (y + h) c]
        else if h = 1 then [line_of ori x y (x + w) y c] else [])
     @ [square_of ori x y w h c fill]"
proof -
  obtain sx sy ex ey where "rect_coords ori x y w h = (sx, sy, ex, ey)"
    by (cases "rect_coords ori x y w h") auto
  then show ?thesis
    using assms
    by (simp add: ra8875_drawrectangle_def drawline_drawn square_of_def del: append_assoc)
qed

lemma poweroff_writes [simp]:
  assumes "dev_lcd dev = lcd"
  shows "writes (snd (ra8875_poweroff (dev, s))) =
      writes s @ [(RA8875_P1CR, 0), (RA8875_P1DCR, 0), (RA8875_PWRR, 0)]"
    and "fst (ra8875_poweroff (dev, s)) = dev\<lparr>dev_power := 0\<rparr>"
  using assms by (simp_all add: ra8875_poweroff_def)

lemma hwinitialize_writes:
  assumes "dev_lcd dev = lcd"
  shows "\<exists>dev' s'. ra8875_hwinitialize ori (dev, s) = Some (dev', s') \<and> dev_lcd dev' = lcd
    \<and> shadow_mwcr0 dev' = 0 \<and> shadow_w_curh dev' = 0 \<and> shadow_w_curv dev' = 0
    \<and> (\<exists>ws. writes s' = writes s @ ws @ window_writes ori @ [(RA8875_BGCR0, 0), (RA8875_BGCR1, 0), (RA8875_BGCR2, 0),
         (RA8875_FGCR0, 0x1f), (RA8875_FGCR1, 0x3f), (RA8875_FGCR2, 0x1f), (RA8875_MCLR, 0x80),
         (RA8875_P1CR, 0), (RA8875_P1DCR, 0), (RA8875_PWRR, 0)] \<and> RA8875_DCR \<notin> fst ` set ws)"
  using assms
  by (cases ori) (simp_all add: RA8875_HW_XRES_def RA8875_HW_YRES_def ra8875_hwinitialize_def put_timing_def ra8875_setwindow_def window_writes_def
      ra8875_setbackground_def ra8875_clearmem_def ra8875_setpower_def CONFIG_LCD_MAXPOWER_def
      ra8875_poweroff_def RA8875_UNPACK_RED_def RA8875_UNPACK_GREEN_def RA8875_UNPACK_BLUE_def Let_def)

lemma clear_writes:
  assumes "dev_lcd dev = lcd"
  shows "\<exists>cs. writes (ra8875_clear ori dev c s) = writes s @ cs
    \<and> fst ` set cs \<subseteq> {0x63..0x65} \<union> {0x90..0x98}"
  using assms by (auto simp: ra8875_clear_def ra8875_drawrectangle_def corners_def go_def
      RA8875_XRES_def RA8875_YRES_def split: prod.splits)

lemma lcdinitialize_post:
  "\<exists>dev' s'. ra8875_lcdinitialize ori lcd (dev, s) = Some (dev', s')
    \<and> dev_lcd dev' = lcd \<and> dev_power dev' = 0
    \<and> shadow_mwcr0 dev' = 0 \<and> shadow_w_curh dev' = 0 \<and> shadow_w_curv dev' = 0
    \<and> drawn (writes s') = drawn (writes s) @ [square_of ori 0 0 RA8875_XRES RA8875_YRES 0 True]
    \<and> (let regs = fst (engine (writes s')) in
         reg16 regs RA8875_HSAW0 = 0 \<and> reg16 regs RA8875_VSAW0 = 0
         \<and> reg16 regs RA8875_HEAW0 = RA8875_HW_XRES ori - 1
         \<and> reg16 regs RA8875_VEAW0 = RA8875_HW_YRES ori - 1
         \<and> regs RA8875_P1CR = 0 \<and> regs RA8875_P1DCR = 0 \<and> regs RA8875_PWRR = 0)"
proof -
  define tail1 :: "(byte \<times> byte) list" where
    "tail1 = [(RA8875_BGCR0, 0), (RA8875_BGCR1, 0), (RA8875_BGCR2, 0),
         (RA8875_FGCR0, 0x1f), (RA8875_FGCR1, 0x3f), (RA8875_FGCR2, 0x1f), (RA8875_MCLR, 0x80),
         (RA8875_P1CR, 0), (RA8875_P1DCR, 0), (RA8875_PWRR, 0)]"
  define off :: "(byte \<times> byte) list" where "off = [(RA8875_P1CR, 0), (RA8875_P1DCR, 0), (RA8875_PWRR, 0)]"
  obtain dev1 s1 ws where h: "ra8875_hwinitialize ori (dev\<lparr>dev_lcd := lcd\<rparr>, s) = Some (dev1, s1)"
      "dev_lcd dev1 = lcd" "shadow_mwcr0 dev1 = 0" "shadow_w_curh dev1 = 0" "shadow_w_curv dev1 = 0"
    and w: "writes s1 = writes s @ ws @ window_writes ori @ tail1" "RA8875_DCR \<notin> fst ` set ws"
    using hwinitialize_writes [of "dev\<lparr>dev_lcd := lcd\<rparr>" ori s] by (auto simp: tail1_def)
  define s2 where "s2 = ra8875_clear ori dev1 0 s1"
  obtain cs where cs: "writes s2 = writes s1 @ cs" "fst ` set cs \<subseteq> {0x63..0x65} \<union> {0x90..0x98}"
    using clear_writes [OF h(2)] unfolding s2_def by blast
  have "drawn (writes s1) = drawn (writes s)"
    using w by (simp add: drawn_quiet window_writes_def tail1_def)
  then have d: "drawn (writes s2) = drawn (writes s) @ [square_of ori 0 0 RA8875_XRES RA8875_YRES 0 True]"
    using h(2) by (simp add: s2_def ra8875_clear_def drawrectangle_drawn RA8875_XRES_def RA8875_YRES_def)
  have "({0x63..0x65} \<union> {0x90..0x98}) \<inter> {0x30..0x37::byte} = {}"
    by (auto simp: word_le_nat_alt)
  then have "fst ` set cs \<inter> {0x30..0x37} = {}"
    using cs(2) by blast
  then have "fst ` set (tail1 @ cs @ off) \<inter> {0x30..0x37} = {}"
    by (simp add: tail1_def off_def image_Un Int_Un_distrib2 word_le_nat_alt)
  note win = window_regs [OF this, of "writes s @ ws" ori]
  have e: "(writes s @ ws) @ window_writes ori @ (tail1 @ cs @ off) = writes s2 @ off"
    by (simp add: cs(1) w(1))
  have "fst (engine (writes s2 @ off)) RA8875_P1CR = 0" "fst (engine (writes s2 @ off)) RA8875_P1DCR = 0"
    "fst (engine (writes s2 @ off)) RA8875_PWRR = 0" "drawn (writes s2 @ off) = drawn (writes s2)"
    by (simp_all add: off_def regs_append drawn_quiet)
  moreover have "ra8875_lcdinitialize ori lcd (dev, s) = Some (ra8875_poweroff (dev1, s2))"
    using h(1) by (simp add: ra8875_lcdinitialize_def s2_def)
  moreover have "writes (snd (ra8875_poweroff (dev1, s2))) = writes s2 @ off"
    using h(2) by (simp add: off_def)
  ultimately show ?thesis
    using h(2-) d win [unfolded e] poweroff_writes(2) [OF h(2), of s2]
    by (cases "ra8875_poweroff (dev1, s2)") simp
qed
end
end
