(* ===== verification/Ra8875_Spi.thy ===== *)
theory Ra8875_Spi
  imports Ra8875
begin

unbundle bit_operations_syntax

text \<open>
  The platform side of the display driver, src/os/drivers/lcd/ra8875_spi.c: the interface
  \<open>struct ra8875_lcd_s\<close> over a serial bus, and the properties of the driver on that bus.

  The bus is the sequence of the calls made on its driver (\<open>SPI_SELECT\<close>, \<open>SPI_SETFREQUENCY\<close>,
  \<open>SPI_SNDBLOCK\<close>, ...). The controller at its other end is not part of the sources: what it answers is
  a parameter \<^term>\<open>slave\<close>, a function of the calls made so far and of the number of the byte within
  the transfer.
\<close>

section \<open>The serial bus\<close>

datatype spi_event = SpiLock bool | SetFrequency nat | SetMode nat | SetBits nat
  | Select bool | SndBlock "byte list" | RecvBlock "byte list" | Exchanged "byte list" "byte list"

type_synonym spi_bus = "spi_event list"

type_synonym spi_slave = "spi_bus \<Rightarrow> nat \<Rightarrow> byte"

definition SPI_LOCK :: "bool \<Rightarrow> spi_bus \<Rightarrow> spi_bus" where
  "SPI_LOCK b s = s @ [SpiLock b]"

definition SPI_SETFREQUENCY :: "nat \<Rightarrow> spi_bus \<Rightarrow> spi_bus" where
  "SPI_SETFREQUENCY f s = s @ [SetFrequency f]"

definition SPI_SETMODE :: "nat \<Rightarrow> spi_bus \<Rightarrow> spi_bus" where
  "SPI_SETMODE m s = s @ [SetMode m]"

definition SPI_SETBITS :: "nat \<Rightarrow> spi_bus \<Rightarrow> spi_bus" where
  "SPI_SETBITS n s = s @ [SetBits n]"

definition SPI_SNDBLOCK :: "byte list \<Rightarrow> spi_bus \<Rightarrow> spi_bus" where
  "SPI_SNDBLOCK bs s = s @ [SndBlock bs]"

definition SPI_RECVBLOCK :: "spi_slave \<Rightarrow> nat \<Rightarrow> spi_bus \<Rightarrow> byte list \<times> spi_bus" where
  "SPI_RECVBLOCK slave n s = (let bs = map (slave s) [0..<n] in (bs, s @ [RecvBlock bs]))"

definition SPI_EXCHANGE :: "spi_slave \<Rightarrow> byte list \<Rightarrow> spi_bus \<Rightarrow> byte list \<times> spi_bus" where
  "SPI_EXCHANGE slave out s =
     (let bs = map (slave s) [0..<length out] in (bs, s @ [Exchanged out bs]))"

section \<open>The interface\<close>

definition SPI_START_SPEED :: nat where "SPI_START_SPEED = 1000000"

definition SPI_WRITE_SPEED :: nat where "SPI_WRITE_SPEED = 10000000"

definition SPI_WRITERUN_SPEED :: nat where "SPI_WRITERUN_SPEED = 20000000"

definition SPI_READ_SPEED :: nat where "SPI_READ_SPEED = 6000000"

definition CYCLE_START :: "spi_bus \<Rightarrow> spi_bus" where
  "CYCLE_START s = s @ [Select True]"

definition CYCLE_END :: "spi_bus \<Rightarrow> spi_bus" where
  "CYCLE_END s = s @ [Select False]"

definition CMD_WRITE :: byte where "CMD_WRITE = push_bit 6 2"

definition STAT_READ :: byte where "STAT_READ = push_bit 6 3"

definition DATA_WRITE :: byte where "DATA_WRITE = push_bit 6 0"

definition DATA_READ :: byte where "DATA_READ = push_bit 6 1"

definition ra8875_spi_command_write :: "byte \<Rightarrow> spi_bus \<Rightarrow> spi_bus" where
  "ra8875_spi_command_write regnum s =
     CYCLE_END (SPI_SNDBLOCK [CMD_WRITE, regnum] (CYCLE_START s))"

definition ra8875_spi_data_write :: "byte \<Rightarrow> spi_bus \<Rightarrow> spi_bus" where
  "ra8875_spi_data_write d s = CYCLE_END (SPI_SNDBLOCK [DATA_WRITE, d] (CYCLE_START s))"

definition ra8875_spi_data_read :: "spi_slave \<Rightarrow> spi_bus \<Rightarrow> byte \<times> spi_bus" where
  "ra8875_spi_data_read slave s =
     (let (bs, s) = SPI_EXCHANGE slave [DATA_READ, 0] (CYCLE_START s) in (bs ! 1, CYCLE_END s))"

definition ra8875_spi_status_read :: "spi_slave \<Rightarrow> spi_bus \<Rightarrow> byte \<times> spi_bus" where
  "ra8875_spi_status_read slave s =
     (let (bs, s) = SPI_EXCHANGE slave [STAT_READ, 0] (CYCLE_START s) in (bs ! 1, CYCLE_END s))"

definition spi_write_reg :: "byte \<Rightarrow> byte \<Rightarrow> spi_bus \<Rightarrow> spi_bus" where
  "spi_write_reg regnum d s = ra8875_spi_data_write d (ra8875_spi_command_write regnum s)"

definition spi_write_reg16 :: "byte \<Rightarrow> 16 word \<Rightarrow> spi_bus \<Rightarrow> spi_bus" where
  "spi_write_reg16 regnum d s =
     (let s = ra8875_spi_command_write regnum s;
          s = ra8875_spi_data_write (ucast (d AND 0xff)) s;
          s = ra8875_spi_command_write (regnum + 1) s
      in ra8875_spi_data_write (ucast (drop_bit 8 d)) s)"

text \<open>The call behind the \<open>return\<close>, which would set the speed back, is never reached.\<close>

definition spi_read_reg :: "spi_slave \<Rightarrow> byte \<Rightarrow> spi_bus \<Rightarrow> byte \<times> spi_bus" where
  "spi_read_reg slave regnum s =
     ra8875_spi_data_read slave (ra8875_spi_command_write regnum (SPI_SETFREQUENCY SPI_READ_SPEED s))"

definition spi_read_status :: "spi_slave \<Rightarrow> spi_bus \<Rightarrow> byte \<times> spi_bus" where
  "spi_read_status slave s = ra8875_spi_status_read slave (SPI_SETFREQUENCY SPI_READ_SPEED s)"

definition spi_pwrite_prepare :: "byte \<Rightarrow> spi_bus \<Rightarrow> spi_bus" where
  "spi_pwrite_prepare regnum s =
     CYCLE_START (SPI_SETFREQUENCY SPI_WRITERUN_SPEED (ra8875_spi_command_write regnum s))"

definition spi_pwrite_data8 :: "byte \<Rightarrow> spi_bus \<Rightarrow> spi_bus" where
  "spi_pwrite_data8 d s = SPI_SNDBLOCK [d] s"

definition spi_pwrite_data16 :: "16 word \<Rightarrow> spi_bus \<Rightarrow> spi_bus" where
  "spi_pwrite_data16 d s = SPI_SNDBLOCK [ucast (d AND 0xff), ucast (drop_bit 8 d)] s"

definition spi_pwrite_finish :: "spi_bus \<Rightarrow> spi_bus" where
  "spi_pwrite_finish s = SPI_SETFREQUENCY SPI_WRITE_SPEED (CYCLE_END s)"

definition spi_pread_prepare :: "spi_slave \<Rightarrow> byte \<Rightarrow> spi_bus \<Rightarrow> spi_bus" where
  "spi_pread_prepare slave regnum s =
     (let s = SPI_SETFREQUENCY SPI_READ_SPEED (ra8875_spi_command_write regnum s)
      in snd (SPI_EXCHANGE slave [DATA_READ] (CYCLE_START s)))"

definition spi_pread_data16 :: "spi_slave \<Rightarrow> spi_bus \<Rightarrow> 16 word \<times> spi_bus" where
  "spi_pread_data16 slave s =
     (let (bs, s) = SPI_RECVBLOCK slave 2 s in (push_bit 8 (ucast (bs ! 1)) OR ucast (bs ! 0), s))"

definition spi_pread_finish :: "spi_bus \<Rightarrow> spi_bus" where
  "spi_pread_finish s = SPI_SETFREQUENCY SPI_WRITE_SPEED (CYCLE_END s)"

definition ra8875_spi :: "spi_slave \<Rightarrow> spi_bus ra8875_lcd_s" where
  "ra8875_spi slave =
     \<lparr>write_reg = spi_write_reg, write_reg16 = spi_write_reg16, read_reg = spi_read_reg slave,
      read_status = spi_read_status slave, pwrite_prepare = spi_pwrite_prepare,
      pwrite_data8 = spi_pwrite_data8, pwrite_data16 = spi_pwrite_data16,
      pwrite_finish = spi_pwrite_finish, pread_prepare = spi_pread_prepare slave,
      pread_data16 = spi_pread_data16 slave, pread_finish = spi_pread_finish\<rparr>"

definition init_ra8875_spi :: "bool \<Rightarrow> spi_bus \<Rightarrow> spi_bus option" where
  "init_ra8875_spi up s =
     (if up then Some (SPI_SETBITS 8 (SPI_SETMODE 0 (SPI_SETFREQUENCY SPI_START_SPEED (SPI_LOCK True s))))
      else None)"

text \<open>
  \<open>up_spiinitialize\<close> belongs to the driver of the bus; whether it finds the bus is the argument
  \<^term>\<open>up\<close>. The inner \<open>option\<close> of \<^const>\<open>init_ra8875_spi\<close> is a null pointer, the outer one here a
  failed assertion.
\<close>

definition board_lcd_initialize ::
  "orientation \<Rightarrow> bool \<Rightarrow> spi_slave \<Rightarrow> spi_bus ra8875_dev_s \<times> spi_bus
     \<Rightarrow> (int \<times> spi_bus ra8875_dev_s \<times> spi_bus) option" where
  "board_lcd_initialize ori up slave = (\<lambda>(dev, s).
     case init_ra8875_spi up s of
       None \<Rightarrow> Some (- 5, dev, s)
     | Some s \<Rightarrow> do {
         (dev, s) \<leftarrow> ra8875_lcdinitialize ori (ra8875_spi slave) (dev, s);
         Some (0, dev, SPI_SETFREQUENCY SPI_WRITE_SPEED s) })"

definition board_lcd_uninitialize :: "spi_bus \<Rightarrow> spi_bus" where
  "board_lcd_uninitialize s = SPI_LOCK False s"

section \<open>Reading the bus\<close>

text \<open>
  The register writes that a bus carries. The first byte of a cycle tells by its two highest bits,
  the bits that \<^const>\<open>CMD_WRITE\<close>, \<^const>\<open>DATA_WRITE\<close>, \<^const>\<open>DATA_READ\<close> and \<^const>\<open>STAT_READ\<close> set,
  what the others are: the number of a register, or data for the register chosen last.
\<close>

datatype phase = Idle | Start | Command | Data | Answer

record serial =
  cycle_phase :: phase
  chosen :: byte
  written :: "(byte \<times> byte) list"

definition cycle_kind :: "byte \<Rightarrow> phase" where
  "cycle_kind b = (if drop_bit 6 b = 2 then Command else if drop_bit 6 b = 0 then Data else Answer)"

definition serial_byte :: "byte \<Rightarrow> serial \<Rightarrow> serial" where
  "serial_byte b p = (case cycle_phase p of
       Idle \<Rightarrow> p
     | Start \<Rightarrow> p\<lparr>cycle_phase := cycle_kind b\<rparr>
     | Command \<Rightarrow> p\<lparr>chosen := b\<rparr>
     | Data \<Rightarrow> p\<lparr>written := written p @ [(chosen p, b)]\<rparr>
     | Answer \<Rightarrow> p)"

fun serial_event :: "spi_event \<Rightarrow> serial \<Rightarrow> serial" where
  "serial_event (Select b) p = p\<lparr>cycle_phase := if b then Start else Idle\<rparr>"
| "serial_event (SndBlock bs) p = fold serial_byte bs p"
| "serial_event (Exchanged out bs) p = fold serial_byte out p"
| "serial_event _ p = p"

definition serial_run :: "spi_bus \<Rightarrow> serial" where
  "serial_run s = fold serial_event s \<lparr>cycle_phase = Idle, chosen = 0, written = []\<rparr>"

definition spi_writes :: "spi_bus \<Rightarrow> (byte \<times> byte) list" where
  "spi_writes s = written (serial_run s)"

lemma serial_run_append [simp]: "serial_run (s @ es) = fold serial_event es (serial_run s)"
  by (simp add: serial_run_def)

lemma cycle_kinds [simp]:
  "cycle_kind CMD_WRITE = Command" "cycle_kind DATA_WRITE = Data" "cycle_kind DATA_READ = Answer"
  by (simp_all add: cycle_kind_def CMD_WRITE_def DATA_WRITE_def DATA_READ_def)

lemmas spi_defs = SPI_SETFREQUENCY_def SPI_SNDBLOCK_def SPI_EXCHANGE_def CYCLE_START_def CYCLE_END_def
  ra8875_spi_command_write_def ra8875_spi_data_write_def ra8875_spi_data_read_def

interpretation spi: lcd_registers "ra8875_spi slave" spi_writes for slave
  by unfold_locales
     (simp_all add: ra8875_spi_def spi_writes_def spi_write_reg_def spi_write_reg16_def
        spi_read_reg_def spi_defs serial_byte_def Let_def)

section \<open>A run of pixels on the bus\<close>

definition run_bytes :: "16 word list \<Rightarrow> byte list" where
  "run_bytes ps = concat (map (\<lambda>p. [ucast (p AND 0xff), ucast (drop_bit 8 p)]) ps)"

text \<open>The registers that \<open>ra8875_putrun\<close> sets before the pixels: those whose shadow differs.\<close>

definition cursor_writes :: "orientation \<Rightarrow> coord \<Rightarrow> coord \<Rightarrow> 's ra8875_dev_s \<Rightarrow> (byte \<times> byte) list" where
  "cursor_writes ori row col dev =
     (let (c, r) = run_pos ori row col;
          (h, v) = (if ori \<in> {PORTRAIT, RPORTRAIT} then (r, c) else (c, r))
      in (if shadow_mwcr0 dev \<noteq> mwcr0_memdir ori then [(RA8875_MWCR0, mwcr0_memdir ori)] else [])
       @ (if shadow_w_curh dev \<noteq> h
          then [(RA8875_CURH0, ucast (h AND 0xff)), (RA8875_CURH0 + 1, ucast (drop_bit 8 h))] else [])
       @ (if shadow_w_curv dev \<noteq> v
          then [(RA8875_CURV0, ucast (v AND 0xff)), (RA8875_CURV0 + 1, ucast (drop_bit 8 v))] else []))"

lemma fold_pwrite_data16:
  "fold spi_pwrite_data16 ps s = s @ map (\<lambda>p. SndBlock [ucast (p AND 0xff), ucast (drop_bit 8 p)]) ps"
  by (induction ps arbitrary: s) (simp_all add: spi_pwrite_data16_def SPI_SNDBLOCK_def)

lemma serial_pixels:
  "fold serial_event (map (\<lambda>p. SndBlock [ucast (p AND 0xff), ucast (drop_bit 8 p)]) ps) q =
     fold serial_byte (run_bytes ps) q"
  by (induction ps arbitrary: q) (simp_all add: run_bytes_def)

lemma serial_bytes:
  "cycle_phase q = Data \<Longrightarrow> written (fold serial_byte bs q) = written q @ map (Pair (chosen q)) bs"
  "cycle_phase q \<in> {Command, Answer} \<Longrightarrow> written (fold serial_byte bs q) = written q"
  by (induction bs arbitrary: q) (auto simp: serial_byte_def)

lemma serial_cycle:
  assumes "cycle_phase q = Start"
  shows "written (fold serial_byte bs q) = written q @
    (case bs of [] \<Rightarrow> [] | b # bs' \<Rightarrow> if cycle_kind b = Data then map (Pair (chosen q)) bs' else [])"
proof (cases bs)
  case (Cons b bs')
  have "cycle_kind b \<in> {Data, Command, Answer}"
    by (simp add: cycle_kind_def)
  then show ?thesis
    using Cons assms by (auto simp: serial_byte_def serial_bytes)
qed simp

lemma burst_writes:
  "spi_writes (spi_pwrite_finish (fold spi_pwrite_data16 ps (spi_pwrite_prepare r s))) = spi_writes s @
    (case run_bytes ps of [] \<Rightarrow> [] | b # bs \<Rightarrow> if cycle_kind b = Data then map (Pair r) bs else [])"
  by (simp add: spi_pwrite_prepare_def spi_pwrite_finish_def fold_pwrite_data16 spi_writes_def spi_defs
      serial_pixels serial_cycle serial_byte_def split: list.splits)

lemma putrun_run:
  assumes "dev_lcd dev = ra8875_spi slave" and "n \<le> length buffer"
  shows "\<exists>dev' s'. ra8875_putrun ori row col buffer n (dev, s) = Some (dev', s')
    \<and> spi_writes s' = spi_writes s @ cursor_writes ori row col dev
        @ (case run_bytes (take n buffer) of [] \<Rightarrow> []
           | b # bs \<Rightarrow> if cycle_kind b = Data then map (Pair RA8875_MRWC) bs else [])
    \<and> dev' = dev\<lparr>shadow_mwcr0 := mwcr0_memdir ori, shadow_w_curh := shadow_w_curh dev',
                 shadow_w_curv := shadow_w_curv dev'\<rparr>
    \<and> (shadow_w_curh dev', shadow_w_curv dev') =
        (let (c, r) = run_pos ori row col; (dh, dv) = run_inc ori n
         in if ori \<in> {PORTRAIT, RPORTRAIT} then (r + dh, c + dv) else (c + dh, r + dv))"
proof -
  have f: "pwrite_prepare (ra8875_spi slave) = spi_pwrite_prepare"
    "pwrite_data16 (ra8875_spi slave) = spi_pwrite_data16" "pwrite_finish (ra8875_spi slave) = spi_pwrite_finish"
    by (simp_all add: ra8875_spi_def)
  show ?thesis
    using assms by (cases ori)
      (auto simp: ra8875_putrun_def ra8875_set_writecursor_def set_curh_def set_curv_def
         ra8875_set_mwcr0_def cursor_writes_def run_pos_def run_inc_def f burst_writes)
qed

section \<open>Example states\<close>

text \<open>A controller that answers zero, and a driver after initialization.\<close>

definition ex_slave :: spi_slave where
  "ex_slave s i = 0"

definition ex_dev :: "spi_bus ra8875_dev_s" where
  "ex_dev = \<lparr>dev_lcd = ra8875_spi ex_slave, dev_power = 0, shadow_mwcr0 = 0,
     shadow_w_curh = 0, shadow_w_curv = 0\<rparr>"

section \<open>Properties\<close>

text \<open>
  C11. \<open>ra8875_drawrectangle\<close> over the serial bus. A rectangle of at least two columns and two rows
  within the display gives exactly one drawing, a square in the given colour, filled if requested,
  whose pixels on the panel are the rotated pixels of the rectangle, in each of the four
  orientations. Waiting for the engine ends whatever the controller answers.
\<close>

theorem drawrectangle_correct:
  assumes "dev_lcd dev = ra8875_spi slave"
    and "1 < w" "1 < h" "unat x + unat w \<le> unat RA8875_XRES" "unat y + unat h \<le> unat RA8875_YRES"
  shows "\<exists>d. drawn (spi_writes (ra8875_drawrectangle ori dev x y w h c fill s)) = drawn (spi_writes s) @ [d]
    \<and> d_cmd d = (if fill then 0xB0 else 0x90) \<and> d_color d = c
    \<and> box d = panel ori ` ({unat x..<unat x + unat w} \<times> {unat y..<unat y + unat h})"
proof -
  have "0 < w" "0 < h" "w \<noteq> 1" "h \<noteq> 1"
    using assms(2,3) by (auto simp: word_less_nat_alt)
  moreover have "d_cmd (square_of ori x y w h c fill) = (if fill then 0xB0 else 0x90)"
    "d_color (square_of ori x y w h c fill) = c"
    by (simp_all add: square_of_def split: prod.splits)
  ultimately show ?thesis
    using assms(4,5) spi.drawrectangle_drawn [OF assms(1)] square_box by simp
qed

theorem drawrectangle_correct_witness:
  "\<exists>d. drawn (spi_writes (ra8875_drawrectangle RPORTRAIT ex_dev 10 20 30 40 0xF800 True [])) =
      drawn (spi_writes []) @ [d]
    \<and> d_cmd d = 0xB0 \<and> d_color d = 0xF800 \<and> box d = panel RPORTRAIT ` ({10..<40} \<times> {20..<60})"
  using drawrectangle_correct [where dev = ex_dev and slave = ex_slave and w = 30 and h = 40 and x = 10
      and y = 20 and ori = RPORTRAIT and c = "0xF800" and fill = True and s = "[]"]
  by (simp add: ex_dev_def RA8875_XRES_def RA8875_YRES_def)

text \<open>
  C40. The degenerate case of \<open>ra8875_drawrectangle\<close>: for a rectangle one column wide the code also
  draws a line, before the square that already covers the rectangle, and that line ends at
  \<open>y + height\<close>, one pixel below the last row of the rectangle.
\<close>

theorem drawrectangle_thin:
  assumes "dev_lcd dev = ra8875_spi slave"
    and "0 < h" "unat x < unat RA8875_XRES" "unat y + unat h \<le> unat RA8875_YRES"
  shows "\<exists>l d. drawn (spi_writes (ra8875_drawrectangle LANDSCAPE dev x y 1 h c fill s)) =
      drawn (spi_writes s) @ [l, d]
    \<and> box d = {unat x} \<times> {unat y..<unat y + unat h}
    \<and> d_cmd l = RA8875_DCR_LINE_START \<and> d_from l = (x, y) \<and> d_to l = (x, y + h)
    \<and> (unat (fst (d_to l)), unat (snd (d_to l))) \<notin> box d"
proof -
  have b: "box (square_of LANDSCAPE x y 1 h c fill) = {unat x} \<times> {unat y..<unat y + unat h}"
    using assms(2-) square_box [of 1 h x y LANDSCAPE c fill]
    by (simp add: panel_image atLeastLessThanSuc)
  have "unat RA8875_YRES < 65536"
    by (simp add: RA8875_YRES_def)
  then have "unat (y + h) = unat y + unat h"
    using assms(4) by (simp add: unat_word_ariths)
  then show ?thesis
    using spi.drawrectangle_drawn [OF assms(1)] by (simp add: b line_of_def)
qed

theorem drawrectangle_thin_witness:
  "\<exists>l d. drawn (spi_writes (ra8875_drawrectangle LANDSCAPE ex_dev 5 7 1 10 0 True [])) =
      drawn (spi_writes []) @ [l, d]
    \<and> box d = {5} \<times> {7..<17} \<and> d_cmd l = RA8875_DCR_LINE_START \<and> d_from l = (5, 7) \<and> d_to l = (5, 17)
    \<and> (unat (fst (d_to l)), unat (snd (d_to l))) \<notin> box d"
  using drawrectangle_thin [of ex_dev ex_slave 10 5 7 0 True "[]"]
  by (simp add: ex_dev_def RA8875_XRES_def RA8875_YRES_def)

text \<open>
  C13. \<open>board_lcd_initialize\<close>. When the bus is there, initialization succeeds whatever the
  controller answers: the active window is the whole panel, the whole screen is filled once with
  black, the backlight and the display are off, the shadow registers are zero and the bus is left at
  the write speed. Without the bus it returns \<open>-EIO\<close> and does nothing.
\<close>

theorem board_lcd_initialize_correct:
  "\<exists>dev' s'. board_lcd_initialize ori True slave (dev, s) = Some (0, dev', s')
    \<and> dev_lcd dev' = ra8875_spi slave \<and> dev_power dev' = 0
    \<and> shadow_mwcr0 dev' = 0 \<and> shadow_w_curh dev' = 0 \<and> shadow_w_curv dev' = 0
    \<and> drawn (spi_writes s') = drawn (spi_writes s) @ [square_of ori 0 0 RA8875_XRES RA8875_YRES 0 True]
    \<and> box (square_of ori 0 0 RA8875_XRES RA8875_YRES 0 True) =
        {0..<unat (RA8875_HW_XRES ori)} \<times> {0..<unat (RA8875_HW_YRES ori)}
    \<and> (let regs = fst (engine (spi_writes s')) in
         reg16 regs RA8875_HSAW0 = 0 \<and> reg16 regs RA8875_VSAW0 = 0
         \<and> reg16 regs RA8875_HEAW0 = RA8875_HW_XRES ori - 1
         \<and> reg16 regs RA8875_VEAW0 = RA8875_HW_YRES ori - 1
         \<and> regs RA8875_P1CR = 0 \<and> regs RA8875_P1DCR = 0 \<and> regs RA8875_PWRR = 0)
    \<and> last s' = SetFrequency SPI_WRITE_SPEED
    \<and> board_lcd_initialize ori False slave (dev, s) = Some (- 5, dev, s)"
proof -
  define s1 where "s1 = SPI_SETBITS 8 (SPI_SETMODE 0 (SPI_SETFREQUENCY SPI_START_SPEED (SPI_LOCK True s)))"
  have w: "spi_writes s1 = spi_writes s"
    by (simp add: s1_def spi_writes_def SPI_SETBITS_def SPI_SETMODE_def SPI_SETFREQUENCY_def SPI_LOCK_def)
  have "box (square_of ori 0 0 RA8875_XRES RA8875_YRES 0 True) =
        {0..<unat (RA8875_HW_XRES ori)} \<times> {0..<unat (RA8875_HW_YRES ori)}"
    by (cases ori) (simp_all add: box_def square_of_def rect_coords_def RA8875_HW_XRES_def
        RA8875_HW_YRES_def RA8875_XRES_def RA8875_YRES_def set_eq_iff less_Suc_eq_le [symmetric])
  moreover have "spi_writes (SPI_SETFREQUENCY f s') = spi_writes s'"
    "last (SPI_SETFREQUENCY f s') = SetFrequency f" for f s'
    by (simp_all add: spi_writes_def SPI_SETFREQUENCY_def)
  ultimately show ?thesis
    using spi.lcdinitialize_post [where s = s1 and dev = dev and ori = ori and slave = slave] w
    by (auto simp: board_lcd_initialize_def init_ra8875_spi_def s1_def [symmetric])
qed

text \<open>
  C12. \<open>ra8875_putrun\<close> over the serial bus. The mode and the cursor are written only where they
  differ from the shadow registers, and the shadow cursor then stands behind the run. But the cycle
  with the pixels does not begin with \<open>DATA_WRITE\<close>, as every other data cycle does: the low byte of
  the first pixel is taken for the cycle byte. If its two highest bits are zero all other bytes
  arrive, one byte off; otherwise no pixel arrives.
\<close>

theorem putrun_loses_first_byte:
  assumes "dev_lcd dev = ra8875_spi slave" and "n \<le> length buffer"
  shows "\<exists>dev' s'. ra8875_putrun ori row col buffer n (dev, s) = Some (dev', s')
    \<and> spi_writes s' = spi_writes s @ cursor_writes ori row col dev
        @ (case run_bytes (take n buffer) of [] \<Rightarrow> []
           | b # bs \<Rightarrow> if cycle_kind b = Data then map (Pair RA8875_MRWC) bs else [])
    \<and> dev' = dev\<lparr>shadow_mwcr0 := mwcr0_memdir ori, shadow_w_curh := shadow_w_curh dev',
                 shadow_w_curv := shadow_w_curv dev'\<rparr>
    \<and> (shadow_w_curh dev', shadow_w_curv dev') =
        (let (c, r) = run_pos ori row col; (dh, dv) = run_inc ori n
         in if ori \<in> {PORTRAIT, RPORTRAIT} then (r + dh, c + dv) else (c + dh, r + dv))"
  by (rule putrun_run [OF assms])

theorem putrun_loses_first_byte_witness:
  "\<exists>dev' s'. ra8875_putrun LANDSCAPE 3 0 [0xFFFF, 0xFFFF] 2 (ex_dev, []) = Some (dev', s')
    \<and> spi_writes s' = [(RA8875_CURV0, 3), (RA8875_CURV0 + 1, 0)]
    \<and> shadow_w_curh dev' = 2 \<and> shadow_w_curv dev' = 3"
  using putrun_loses_first_byte [of ex_dev ex_slave 2 "[0xFFFF, 0xFFFF]" LANDSCAPE 3 0 "[]"]
  by (auto simp: ex_dev_def run_bytes_def cycle_kind_def cursor_writes_def run_pos_def run_inc_def
      mwcr0_memdir_def spi_writes_def serial_run_def)
end
