(* ===== verification/Spec2Isabelle.thy ===== *)
theory Spec2Isabelle
  imports Kernel Mqueue_Spec Mm_Alloc Ra8875_Spi
begin

text \<open>
  Verification of the core of TizenRT for the ARTIK 05x with an RA8875 display, as configured by
  src/build/configs/artik053/ra8875/defconfig: the linked queues of the C library, the scheduler, task
  creation, semaphores with priority inheritance, message queues, watchdog timers, the system clock with its
  calendar and real time clock, timed waits, the memory manager, and the display driver on its serial bus.

  \<^bold>\<open>The parts and how they interact.\<close> The scheduler keeps every task in exactly one list: ready-to-run
  (its head is the running task), pending (ready, but held back by the preemption lock of the running
  task), or the list of what the task waits for. Semaphores block and wake tasks through
  \<open>up_block_task\<close> and \<open>up_unblock_task\<close> and lend priorities through \<open>sched_setpriority\<close>; message queues
  block and wake senders and receivers in the same way. The timer
  interrupt advances the tick counter, charges the time slice of the running task and expires watchdog
  timers; a timed wait is a semaphore wait with a watchdog whose routine ends the wait. The clock reads
  the tick counter and, when time is set or synchronized, the real time clock. The memory manager
  guards its heap with one of the semaphores. The display driver talks to its controller through a
  structure of functions, which ra8875_spi.c implements over a serial bus.

  \<^bold>\<open>Conventions of the models.\<close> A C function is a function on an explicit state, named as in the source.
  An object is its address, and the state maps addresses to records of fields. \<open>option\<close> is the failure
  monad: \<open>None\<close> is a failed assertion, a null pointer that is followed, or an access outside an array. So
  each theorem that an operation gives \<open>Some\<close> includes that it halts and fails no assertion.
  Code that gives up the processor returns \<open>Switched\<close> instead of \<open>Done\<close> with a value; what the task
  does when it runs again is a definition with suffix \<open>_resume\<close>. Integers keep their width where it
  matters: semaphore counts, \<open>time_t\<close>, register values and coordinates are words or are wrapped
  explicitly, chunk sizes are taken modulo \<open>2^32\<close>. Kernel code runs with interrupts disabled
  or preemption locked wherever the model takes a call as one step.

  \<^bold>\<open>Theories and sources.\<close>

  \<^item> \<open>Rtos_Prelude\<close>: pointers, the failure monad, arrays, list lemmas, and the locale
    \<open>prioritized_list\<close>, the contract of insertion by priority that the task lists share.

  \<^item> \<open>Lib_Queue\<close> (src/lib/libc/queue, src/os/include/queue.h): singly and doubly linked queues on an explicit
    store of links. Each routine is proved against the list it represents (\<open>dq_rep\<close>, \<open>sq_rep\<close>); both queues are
    instances of the locale \<open>fifo_queue\<close>. The other components work on these lists.

  \<^item> \<open>Sched\<close> (src/os/kernel/sched, src/os/arch/arm/src/armv7-r): task lists, context-switch entry points,
    preemption lock, priorities, round robin, process identifiers. \<open>Sched_Inv\<close> and \<open>Sched_Ops\<close> prove that
    every operation returns and keeps the invariant \<open>sched_inv\<close>; \<open>Sched_Spec\<close> states what each operation
    does, that the one-pass merge of the pending tasks equals releasing them one by one, and that the
    pointer code of \<open>sched_addprioritized\<close> refines insertion into a list.

  \<^item> \<open>Task\<close> and \<open>Kernel\<close> (src/os/kernel/init/os_start.c, src/os/kernel/task, sched_releasetcb.c): start-up,
    process identifiers, creation and activation of threads, and the kernel as an inductive relation of
    reachable states, in each of which the running task has the highest priority of all runnable ones.

  \<^item> \<open>Semaphore\<close> (src/os/kernel/semaphore, src/lib/libc/semaphore): all calls, with the pool of holder structures
    and the inheritance of priorities. \<open>Semaphore_Inv\<close> has the invariant (the pool is partitioned, a
    negative count is the number of waiting tasks) and its preservation; the loops over the holders are
    instances of the locale \<open>holder_loop\<close>. \<open>Semaphore_Spec\<close> states when the calls block, whom they
    wake and which priorities change.

  \<^item> \<open>Mqueue\<close> (src/os/kernel/mqueue, src/os/include/tinyara/mqueue.h): the pool of messages, sending, receiving, and
    the end of a wait. \<open>Mqueue_Spec\<close> states \<open>mq_send\<close> to a queue with room and \<open>mq_receive\<close> from a queue
    with messages over the sequence of messages a queue holds, with the tasks they wake; the invariant
    \<open>mq_inv\<close> has the order of the messages, the counts, and that a message structure is in one place.

  \<^item> \<open>Wdog\<close> and \<open>Wdog_Spec\<close> (src/os/kernel/wdog): the list of timers with delays relative to each other
    implements a set of timers with their remaining times. The routine of a timer is a parameter; its
    contract is the locale \<open>wd_routines\<close> with its extension \<open>wd_quiet\<close>.

  \<^item> \<open>Calendar\<close>, \<open>Rtc\<close>, \<open>Clock\<close> (src/lib/libc/time, src/os/arch/arm/src/s5j/s5j_rtc.c, src/os/kernel/clock): conversion
    between seconds and dates against a calendar that steps from day to day, the BCD registers of the
    real time clock, and the time of day as a base plus the ticks since power up.

  \<^item> \<open>Sem_Timed\<close> (sem_timedwait.c, sched_processtimer.c): the timed wait and the timer
    interrupt; here \<open>wd_quiet\<close> is interpreted by the routine of the timed wait. A timed wait that is not
    served ends with \<open>ETIMEDOUT\<close> after the computed number of ticks.

  \<^item> \<open>Mm_Heap\<close> (src/os/mm/mm_heap): the critical sections of the memory manager on a memory of words that holds
    the headers of the chunks. \<open>Mm_Inv\<close> relates the memory to the list of chunks and the sorted list
    of free chunks (\<open>heap_ok\<close>); \<open>Mm_Spec\<close>, \<open>Mm_Resize\<close> and \<open>Mm_Init\<close> prove what the operations do to the chunks.

  \<^item> \<open>Mm_Lock\<close> (mm_sem.c and the entry points of mm_heap): the recursive lock of the heap on a semaphore of
    the kernel and the functions with it. \<open>Mm_Alloc\<close> states \<open>mm_malloc\<close>, \<open>mm_free\<close> and \<open>mm_realloc\<close> over
    the blocks given out and their contents, and for all histories of calls.

  \<^item> \<open>Ra8875\<close> (src/os/drivers/lcd/ra8875.c, ra8875.h, src/os/include/tinyara/lcd/ra8875.h): the display driver
    in the four orientations against a record of interface functions. The locale \<open>lcd_registers\<close> is what
    the driver needs of them; in it the drawings are derived from the registers written.

  \<^item> \<open>Ra8875_Spi\<close> (src/os/drivers/lcd/ra8875_spi.c): the interface over a serial bus, the interpretation of
    \<open>lcd_registers\<close> by it, and the properties of the driver on the bus.

  \<^bold>\<open>Loops and bounds.\<close> There is no fuel that could run out unnoticed. Loops over lists are recursion on
  the list; loops that follow links in memory (\<open>sq_rem\<close>, the searches of the memory manager) are
  partial functions, and the theorems show that they return. The search for a free process identifier
  is bounded by \<open>CONFIG_MAX_TASKS = 16\<close>, as in the code; waiting for the display is bounded
  by 200 polls, as in the code. The loops of the calendar and of \<open>mm_size2ndx\<close> are proved to
  terminate.

  \<^bold>\<open>Parameters.\<close> Addresses that \<open>kmm_malloc\<close> returns for timers, TCBs and messages are arguments. The
  signal that notifies a task about a message is an argument of the sending operations; the theorems are about
  queues without a registered notification. The answers of the
  display controller are a function of the bus traffic, about which nothing is assumed. How the
  controller reads the bus (which byte of a cycle names its kind, when a drawing starts) is
  specification, written from the register and cycle definitions of the driver.

  \<^bold>\<open>What is not modelled.\<close> Signals, and with them POSIX timers and the notification of message queues:
  delivery rewrites the saved registers of the interrupted task, which is machine code. Register
  contexts and the assembly of interrupt entry and context switch: the model has the decision which
  task runs. Of the message queues, the timed calls, the descriptors and \<open>mq_notify\<close> are not translated, and there
  are no theorems about calls that wait. The environment and the work queues use only parts that are
  modelled (allocation, semaphores) but are not translated themselves; pthreads and mutexes likewise. In the scheduler, waiting for children and the debug dumps; in task creation, stacks,
  argument strings and groups. \<open>mm_sbrk\<close> belongs to a build mode that is not configured, and
  \<open>heapinfo_parse\<close> only prints. For \<open>mm_memalign\<close>, \<open>mm_extend\<close>, \<open>mm_calloc\<close> and
  \<open>mm_mallinfo\<close> there are definitions but no theorems. File systems, other device drivers, the
  network stack, the graphics library, the remaining C library and the third-party programs under
  src/apps and src/external are outside the model.
\<close>

end
